(* ===== verification/Prelude.thy ===== *)
theory Prelude
  imports Main "HOL-Library.Word" "HOL-Library.Sublist"
begin

text \<open>
  Shared vocabulary of the development: the 64-bit integers of the code, the exceptions it
  throws, computations that may throw after having changed their state, the character and
  vector operations of the C++ standard library that several components use, and the
  lemmas about lists and words the component theories share.
\<close>

named_theorems op_simps \<open>unfolding rules of the state-and-exception operations\<close>
named_theorems u64_simps \<open>reading 64-bit arithmetic as arithmetic on natural numbers\<close>

section \<open>Integers and exceptions\<close>

text \<open>\<open>uint64_t\<close>, and \<open>size_t\<close> where it is compared with one.\<close>

type_synonym u64 = "64 word"

text \<open>
  The exceptions of the standard library that the code throws or lets through, with their
  messages.  \<open>UndefinedBehaviour\<close> stands for a read outside a vector: C++ promises nothing
  about it, so every theorem that a result is not this value is a theorem that the code
  stays inside its vectors.
\<close>

datatype exc =
    InvalidArgument string
  | LogicError string
  | RuntimeError string
  | LengthError string
  | UndefinedBehaviour

section \<open>Operations on an object\<close>

text \<open>
  A member function takes the object, and returns a value or throws; in both cases the
  object keeps what was assigned to it before.
\<close>

type_synonym ('s, 'a) op = "'s \<Rightarrow> (exc + 'a) \<times> 's"

definition return_op :: "'a \<Rightarrow> ('s, 'a) op" where
  "return_op a s = (Inr a, s)"

definition throw_op :: "exc \<Rightarrow> ('s, 'a) op" where
  "throw_op e s = (Inl e, s)"

definition bind_op :: "('s, 'a) op \<Rightarrow> ('a \<Rightarrow> ('s, 'b) op) \<Rightarrow> ('s, 'b) op" where
  "bind_op m k s = (case m s of (Inl e, s') \<Rightarrow> (Inl e, s') | (Inr a, s') \<Rightarrow> k a s')"

definition modify_op :: "('s \<Rightarrow> 's) \<Rightarrow> ('s, unit) op" where
  "modify_op f s = (Inr (), f s)"

text \<open>The state an operation leaves behind, and whether it threw.\<close>

abbreviation final :: "(exc + 'a) \<times> 's \<Rightarrow> 's" where
  "final r \<equiv> snd r"

definition returns :: "(exc + 'a) \<times> 's \<Rightarrow> bool" where
  "returns r \<longleftrightarrow> (\<exists>a. fst r = Inr a)"

lemma return_op_apply [simp]: "return_op a s = (Inr a, s)"
  by (simp add: return_op_def)

lemma throw_op_apply [simp]: "throw_op e s = (Inl e, s)"
  by (simp add: throw_op_def)

lemma modify_op_apply [simp]: "modify_op f s = (Inr (), f s)"
  by (simp add: modify_op_def)

lemma bind_op_Inr [simp]: "m s = (Inr a, s') \<Longrightarrow> bind_op m k s = k a s'"
  by (simp add: bind_op_def)

lemma bind_op_Inl [simp]: "m s = (Inl e, s') \<Longrightarrow> bind_op m k s = (Inl e, s')"
  by (simp add: bind_op_def)

lemma bind_op_return [simp]: "bind_op (return_op a) k s = k a s"
  by (simp add: bind_op_def)

lemma returns_Inr [simp]: "returns (Inr a, s)"
  by (simp add: returns_def)

lemma returns_Inl [simp]: "\<not> returns (Inl e, s)"
  by (simp add: returns_def)

text \<open>
  The rule for invariants: a property of the state that the first operation establishes on
  both its exits, and that the continuation keeps, holds at the end on every exit.
\<close>

lemma bind_op_final:
  assumes "Q (final (m s))"
    and "\<And>a s'. m s = (Inr a, s') \<Longrightarrow> Q s' \<Longrightarrow> Q (final (k a s'))"
  shows "Q (final (bind_op m k s))"
  using assms by (auto simp: bind_op_def split: prod.splits sum.splits)

lemma bind_op_cases:
  assumes "bind_op m k s = (r, t)"
  obtains (throws) e where "m s = (Inl e, t)" and "r = Inl e"
    | (continues) a s' where "m s = (Inr a, s')" and "k a s' = (r, t)"
  using assms by (auto simp: bind_op_def split: prod.splits sum.splits)

text \<open>
  The form of most preservation lemmas: on every exit the state satisfies \<open>Q\<close>, and no vector
  was read out of bounds on the way.
\<close>

definition leaves :: "((exc + 'a) \<times> 's) \<Rightarrow> ('s \<Rightarrow> bool) \<Rightarrow> bool" where
  "leaves r Q \<longleftrightarrow> Q (final r) \<and> fst r \<noteq> Inl UndefinedBehaviour"

lemma leaves_Inr [simp]: "leaves (Inr a, s) Q \<longleftrightarrow> Q s"
  by (simp add: leaves_def)

lemma leaves_Inl [simp]: "leaves (Inl e, s) Q \<longleftrightarrow> Q s \<and> e \<noteq> UndefinedBehaviour"
  by (auto simp: leaves_def)

lemma leaves_bind:
  assumes "leaves (m s) Q" and "\<And>a s'. m s = (Inr a, s') \<Longrightarrow> Q s' \<Longrightarrow> leaves (k a s') Q"
  shows "leaves (bind_op m k s) Q"
  using assms by (auto simp: bind_op_def split: prod.splits sum.splits)

text \<open>The same, with another property in between.\<close>

lemma leaves_bind_weak:
  assumes "leaves (m s) P" and "\<And>s. P s \<Longrightarrow> Q s" and "\<And>a s'. m s = (Inr a, s') \<Longrightarrow> P s' \<Longrightarrow> leaves (k a s') Q"
  shows "leaves (bind_op m k s) Q"
  using assms by (auto simp: bind_op_def split: prod.splits sum.splits)

lemma leaves_mono: "leaves r P \<Longrightarrow> (\<And>s. P s \<Longrightarrow> Q s) \<Longrightarrow> leaves r Q"
  by (auto simp: leaves_def)

section \<open>Results without a state\<close>

definition bind_exc :: "exc + 'a \<Rightarrow> ('a \<Rightarrow> exc + 'b) \<Rightarrow> exc + 'b" where
  "bind_exc r k = (case r of Inl e \<Rightarrow> Inl e | Inr a \<Rightarrow> k a)"

lemma bind_exc_simps [simp]:
  "bind_exc (Inl e) k = Inl e" "bind_exc (Inr a) k = k a"
  by (simp_all add: bind_exc_def)

lemma bind_exc_Inr_iff: "bind_exc r k = Inr b \<longleftrightarrow> (\<exists>a. r = Inr a \<and> k a = Inr b)"
  by (cases r) auto

lemma bind_exc_cong [fundef_cong]:
  "r = r' \<Longrightarrow> (\<And>a. r' = Inr a \<Longrightarrow> k a = k' a) \<Longrightarrow> bind_exc r k = bind_exc r' k'"
  by (cases r') simp_all

lemma bind_exc_Inl_iff:
  "bind_exc r k = Inl e \<longleftrightarrow> r = Inl e \<or> (\<exists>a. r = Inr a \<and> k a = Inl e)"
  by (cases r) auto

text \<open>Reading an element of a vector.\<close>

definition vec_at :: "'a list \<Rightarrow> u64 \<Rightarrow> exc + 'a" where
  "vec_at xs i = (if unat i < length xs then Inr (xs ! unat i) else Inl UndefinedBehaviour)"

section \<open>Words as numbers\<close>

lemma unat_u64_less: "unat (x :: u64) < 2 ^ 64"
  using unsigned_less [of x] by simp

lemma unat_u64_bound [simp]: "unat (x :: u64) < 18446744073709551616"
  using unat_u64_less [of x] by simp

end
