(* ===== verification/Key_Value_Store.thy ===== *)
theory Key_Value_Store
  imports Prelude
begin

text \<open>
  \<^verbatim>\<open>src/src/key_value_store.cpp\<close>: the state machine the cluster replicates.  Commands are
  strings; \<open>make_set_command\<close> and \<open>make_delete_command\<close> build them, \<open>kv_apply\<close>
  (\<^verbatim>\<open>KeyValueStore::apply\<close>) parses and executes one.  The theory proves that the two sides
  agree, that \<open>kv_apply\<close> accepts exactly the commands of the two shapes, and states the
  interface of a replicated state machine that the consensus core is a client of.
\<close>

section \<open>The string operations the parser uses\<close>

text \<open>\<^verbatim>\<open>s.rfind(p, 0) == 0\<close>: the last match starting at or before position 0 starts at 0.\<close>

definition starts_with :: "string \<Rightarrow> string \<Rightarrow> bool" where
  "starts_with p s \<longleftrightarrow> take (length p) s = p"

fun index_of :: "char \<Rightarrow> string \<Rightarrow> nat option" where
  "index_of c [] = None"
| "index_of c (x # xs) = (if x = c then Some 0 else map_option Suc (index_of c xs))"

text \<open>\<^verbatim>\<open>s.find(c, pos)\<close>, with \<open>None\<close> for \<^verbatim>\<open>npos\<close>.\<close>

definition find_from :: "char \<Rightarrow> nat \<Rightarrow> string \<Rightarrow> nat option" where
  "find_from c pos s = map_option (\<lambda>i. pos + i) (index_of c (drop pos s))"

text \<open>\<^verbatim>\<open>s.substr(pos, n)\<close> and \<^verbatim>\<open>s.substr(pos)\<close>, for \<open>pos\<close> inside the string.\<close>

definition substr :: "nat \<Rightarrow> nat \<Rightarrow> string \<Rightarrow> string" where
  "substr pos n s = take n (drop pos s)"

lemma starts_with_append [simp]: "starts_with p (p @ s)"
  by (simp add: starts_with_def)

lemma starts_with_iff: "starts_with p s \<longleftrightarrow> (\<exists>t. s = p @ t)"
  by (auto simp: starts_with_def) (metis append_take_drop_id)

lemma index_of_None [simp]: "index_of c s = None \<longleftrightarrow> c \<notin> set s"
  by (induction s) auto

lemma index_of_append [simp]: "c \<notin> set k \<Longrightarrow> index_of c (k @ c # v) = Some (length k)"
  by (induction k) auto

lemma index_of_Some:
  "index_of c s = Some i \<Longrightarrow> i < length s \<and> s = take i s @ c # drop (Suc i) s \<and> c \<notin> set (take i s)"
proof (induction s arbitrary: i)
  case (Cons x xs)
  then show ?case by (cases "x = c") auto
qed simp

section \<open>Commands\<close>

definition validate_key :: "string \<Rightarrow> exc + unit" where
  "validate_key key =
     (if key = [] then Inl (InvalidArgument ''Key cannot be empty'')
      else if CHR '' '' \<in> set key then Inl (InvalidArgument ''Key cannot contain spaces'')
      else Inr ())"

definition make_set_command :: "string \<Rightarrow> string \<Rightarrow> exc + string" where
  "make_set_command key val =
     (case validate_key key of
        Inl e \<Rightarrow> Inl e
      | Inr _ \<Rightarrow> Inr (''SET '' @ key @ '' '' @ val))"

definition make_delete_command :: "string \<Rightarrow> exc + string" where
  "make_delete_command key =
     (case validate_key key of
        Inl e \<Rightarrow> Inl e
      | Inr _ \<Rightarrow> Inr (''DELETE '' @ key))"

definition is_key_value_command :: "string \<Rightarrow> bool" where
  "is_key_value_command cmd \<longleftrightarrow> starts_with ''SET '' cmd \<or> starts_with ''DELETE '' cmd"

section \<open>The store\<close>

text \<open>\<^verbatim>\<open>unordered_map<string, string> values_\<close>; the code never iterates over it.\<close>

type_synonym kv_store = "string \<rightharpoonup> string"

definition empty_store :: kv_store where
  "empty_store = Map.empty"

text \<open>An exception leaves the store as it was: the parse comes before the update.\<close>

definition kv_apply :: "string \<Rightarrow> kv_store \<Rightarrow> exc + kv_store" where
  "kv_apply cmd kv =
     (if starts_with ''SET '' cmd then
        (case find_from (CHR '' '') 4 cmd of
           None \<Rightarrow> Inl (InvalidArgument ''SET command must contain a key and value'')
         | Some key_end \<Rightarrow>
             (let key = substr 4 (key_end - 4) cmd;
                  val = drop (key_end + 1) cmd
              in case validate_key key of
                   Inl e \<Rightarrow> Inl e
                 | Inr _ \<Rightarrow> Inr (kv(key \<mapsto> val))))
      else if starts_with ''DELETE '' cmd then
        (let key = drop 7 cmd
         in case validate_key key of
              Inl e \<Rightarrow> Inl e
            | Inr _ \<Rightarrow> Inr (kv(key := None)))
      else Inl (InvalidArgument ''Unknown key-value command''))"

definition kv_get :: "string \<Rightarrow> kv_store \<Rightarrow> string option" where
  "kv_get key kv = kv key"

definition kv_contains :: "string \<Rightarrow> kv_store \<Rightarrow> bool" where
  "kv_contains key kv \<longleftrightarrow> kv key \<noteq> None"

definition kv_size :: "kv_store \<Rightarrow> nat" where
  "kv_size kv = card (dom kv)"

section \<open>The abstract map operations\<close>

text \<open>
  What a command means: one update of a finite map.  \<open>render\<close> is the wire form of an
  operation; only an operation on a valid key has one that the parser accepts.
\<close>

datatype kv_operation = Put string string | Remove string

definition valid_key :: "string \<Rightarrow> bool" where
  "valid_key key \<longleftrightarrow> key \<noteq> [] \<and> CHR '' '' \<notin> set key"

fun operation_key :: "kv_operation \<Rightarrow> string" where
  "operation_key (Put k v) = k"
| "operation_key (Remove k) = k"

fun render :: "kv_operation \<Rightarrow> string" where
  "render (Put k v) = ''SET '' @ k @ '' '' @ v"
| "render (Remove k) = ''DELETE '' @ k"

fun effect :: "kv_operation \<Rightarrow> kv_store \<Rightarrow> kv_store" where
  "effect (Put k v) kv = kv(k \<mapsto> v)"
| "effect (Remove k) kv = kv(k := None)"

definition well_formed_command :: "string \<Rightarrow> bool" where
  "well_formed_command cmd \<longleftrightarrow> (\<exists>p. valid_key (operation_key p) \<and> cmd = render p)"

lemma validate_key_cases:
  "validate_key k = (if valid_key k then Inr () else
     Inl (InvalidArgument (if k = [] then ''Key cannot be empty'' else ''Key cannot contain spaces'')))"
  by (simp add: validate_key_def valid_key_def)

lemma kv_apply_Put: "valid_key k \<Longrightarrow> kv_apply (''SET '' @ k @ '' '' @ v) kv = Inr (kv(k \<mapsto> v))"
  by (auto simp: kv_apply_def find_from_def substr_def starts_with_def validate_key_cases
        valid_key_def eval_nat_numeral)

lemma kv_apply_Remove: "valid_key k \<Longrightarrow> kv_apply (''DELETE '' @ k) kv = Inr (kv(k := None))"
  by (simp add: kv_apply_def starts_with_def validate_key_cases)

lemma kv_apply_render:
  "valid_key (operation_key p) \<Longrightarrow> kv_apply (render p) kv = Inr (effect p kv)"
  using kv_apply_Put kv_apply_Remove by (cases p) simp_all

text \<open>Conversely, what the parser accepts has one of the two shapes.\<close>

lemma set_command_shape:
  assumes "starts_with ''SET '' cmd" and "find_from (CHR '' '') 4 cmd = Some e"
  obtains k v where "cmd = ''SET '' @ k @ '' '' @ v" and "CHR '' '' \<notin> set k"
    and "substr 4 (e - 4) cmd = k" and "drop (e + 1) cmd = v"
proof -
  obtain t where t: "cmd = ''SET '' @ t"
    using assms(1) by (auto simp: starts_with_iff)
  with assms(2) obtain i where i: "index_of (CHR '' '') t = Some i" and e: "e = 4 + i"
    by (auto simp: find_from_def)
  from index_of_Some [OF i] have "t = take i t @ CHR '' '' # drop (Suc i) t"
    and "CHR '' '' \<notin> set (take i t)" and "i < length t" by auto
  then show thesis
    using that [of "take i t" "drop (Suc i) t"] t e by (simp add: substr_def eval_nat_numeral)
qed

lemma kv_apply_InrD:
  assumes "kv_apply cmd kv = Inr kv'"
  shows "\<exists>p. valid_key (operation_key p) \<and> cmd = render p \<and> kv' = effect p kv"
proof (cases "starts_with ''SET '' cmd")
  case True
  with assms obtain e where e: "find_from (CHR '' '') 4 cmd = Some e"
    by (auto simp: kv_apply_def split: option.splits)
  from set_command_shape [OF True e] obtain k v where
    cmd: "cmd = ''SET '' @ k @ '' '' @ v" and "substr 4 (e - 4) cmd = k" "drop (e + 1) cmd = v"
    by blast
  with assms True e have "valid_key k \<and> kv' = kv(k \<mapsto> v)"
    by (auto simp: kv_apply_def validate_key_cases split: if_splits)
  with cmd show ?thesis by (intro exI [of _ "Put k v"]) simp
next
  case False
  with assms have d: "starts_with ''DELETE '' cmd"
    by (auto simp: kv_apply_def split: if_splits)
  then obtain k where k: "cmd = ''DELETE '' @ k" by (auto simp: starts_with_iff)
  with assms False d have "valid_key k \<and> kv' = kv(k := None)"
    by (auto simp: kv_apply_def validate_key_cases split: if_splits)
  with k show ?thesis by (intro exI [of _ "Remove k"]) simp
qed

lemma well_formed_set: "valid_key k \<Longrightarrow> well_formed_command (''SET '' @ k @ '' '' @ v)"
  unfolding well_formed_command_def by (rule exI [of _ "Put k v"]) simp

lemma well_formed_delete: "valid_key k \<Longrightarrow> well_formed_command (''DELETE '' @ k)"
  unfolding well_formed_command_def by (rule exI [of _ "Remove k"]) simp

lemma kv_apply_accepts: "(\<exists>kv'. kv_apply cmd kv = Inr kv') \<longleftrightarrow> well_formed_command cmd"
  unfolding well_formed_command_def by (metis kv_apply_InrD kv_apply_render)

lemma is_key_value_command_render: "is_key_value_command (render p)"
  by (cases p) (simp_all add: is_key_value_command_def starts_with_def)

lemma render_inject:
  assumes "valid_key (operation_key p)" and "valid_key (operation_key q)" and "render p = render q"
  shows "p = q"
proof -
  have "index_of (CHR '' '') (k @ CHR '' '' # v) = Some (length k)" if "valid_key k" for k v
    using that by (simp add: valid_key_def)
  then have "k = k'" if "valid_key k" "valid_key k'" "k @ CHR '' '' # v = k' @ CHR '' '' # v'" for k k' v v'
    using that by (metis append_eq_append_conv option.inject)
  with assms show ?thesis by (cases p; cases q) auto
qed

section \<open>The interface of a replicated state machine\<close>

text \<open>
  Consensus orders commands and runs each node's machine over the order.  What it needs of
  the machine is that acceptance of a command depends on the command alone: then replicas
  that run the same commands cannot fail on one node and succeed on another.
  \<open>executes\<close> selects the commands that reach the machine; the others are only journalled.
\<close>

fun replay :: "('c \<Rightarrow> bool) \<Rightarrow> ('c \<Rightarrow> 'st \<Rightarrow> exc + 'st) \<Rightarrow> 'c list \<Rightarrow> 'st \<Rightarrow> exc + 'st" where
  "replay executes ap [] st = Inr st"
| "replay executes ap (c # cs) st =
     (if executes c
      then (case ap c st of Inl e \<Rightarrow> Inl e | Inr st' \<Rightarrow> replay executes ap cs st')
      else replay executes ap cs st)"

locale command_machine =
  fixes executes :: "'c \<Rightarrow> bool"
    and ap :: "'c \<Rightarrow> 'st \<Rightarrow> exc + 'st"
    and accepted :: "'c \<Rightarrow> bool"
  assumes accepts_iff: "(\<exists>st'. ap c st = Inr st') \<longleftrightarrow> accepted c"
begin

lemma accepted_step:
  assumes "accepted c"
  obtains st' where "ap c st = Inr st'"
  using assms accepts_iff by metis

lemma replay_append:
  "replay executes ap (cs @ ds) st =
     (case replay executes ap cs st of Inl e \<Rightarrow> Inl e | Inr st' \<Rightarrow> replay executes ap ds st')"
  by (induction cs arbitrary: st) (auto split: sum.splits)

lemma replay_snoc:
  assumes "replay executes ap cs st = Inr st'"
  shows "replay executes ap (cs @ [c]) st = (if executes c then ap c st' else Inr st')"
  using assms by (simp add: replay_append split: sum.splits)

lemma replay_returns_iff:
  "(\<exists>st'. replay executes ap cs st = Inr st') \<longleftrightarrow> (\<forall>c \<in> set cs. executes c \<longrightarrow> accepted c)"
proof (induction cs arbitrary: st)
  case (Cons c cs)
  show ?case
  proof (cases "executes c")
    case True
    then show ?thesis
      using Cons.IH accepts_iff [of c st] by (cases "ap c st") auto
  qed (use Cons.IH in auto)
qed simp

end

interpretation kv: command_machine is_key_value_command kv_apply well_formed_command
  by unfold_locales (rule kv_apply_accepts)

abbreviation kv_replay :: "string list \<Rightarrow> exc + kv_store" where
  "kv_replay cmds \<equiv> replay is_key_value_command kv_apply cmds empty_store"

section \<open>Properties\<close>

text \<open>
  C23: \<^verbatim>\<open>KeyValueStore::apply\<close> implements the map operations: it succeeds on a command exactly
  when the command is the wire form of a put or a removal of a valid key, and then the new
  store is that operation's effect on the old one; on every other command it throws and
  \<^verbatim>\<open>values_\<close> is unchanged.
\<close>

theorem kv_apply_refines_map_operations:
  "kv_apply cmd kv = Inr kv' \<longleftrightarrow>
     (\<exists>p. valid_key (operation_key p) \<and> cmd = render p \<and> kv' = effect p kv)"
  using kv_apply_InrD kv_apply_render by auto

text \<open>
  C24: The two command constructors and the parser are inverse to each other.  A command is
  built exactly for the non-empty keys without a space, values being arbitrary; applying it
  sets or removes that key and leaves every other key as it was, and it is recognised as a
  key-value command.
\<close>

theorem command_roundtrip:
  "(case make_set_command k v of
      Inr c \<Rightarrow> valid_key k \<and> is_key_value_command c \<and>
        (\<exists>kv'. kv_apply c kv = Inr kv' \<and> kv_get k kv' = Some v \<and> kv_contains k kv' \<and>
               (\<forall>k'. k' = k \<or> kv_get k' kv' = kv_get k' kv))
    | Inl e \<Rightarrow> \<not> valid_key k) \<and>
   (case make_delete_command k of
      Inr c \<Rightarrow> valid_key k \<and> is_key_value_command c \<and>
        (\<exists>kv'. kv_apply c kv = Inr kv' \<and> kv_get k kv' = None \<and> \<not> kv_contains k kv' \<and>
               (\<forall>k'. k' = k \<or> kv_get k' kv' = kv_get k' kv))
    | Inl e \<Rightarrow> \<not> valid_key k)"
  using kv_apply_Put [of k v kv] kv_apply_Remove [of k kv]
    is_key_value_command_render [of "Put k v"] is_key_value_command_render [of "Remove k"]
  by (auto simp: make_set_command_def make_delete_command_def validate_key_cases
        kv_get_def kv_contains_def)

text \<open>
  C25: A replica can always replay a journal that holds only well-formed commands, whatever the
  order, and a journal with a malformed SET or DELETE makes every replica throw: acceptance is
  a property of the commands, never of the state.
\<close>

theorem replay_succeeds_iff_well_formed:
  "(\<exists>kv'. replay is_key_value_command kv_apply cmds kv = Inr kv') \<longleftrightarrow>
     (\<forall>c \<in> set cmds. is_key_value_command c \<longrightarrow> well_formed_command c)"
  by (rule kv.replay_returns_iff)

theorem replay_succeeds_iff_well_formed_witness:
  "(\<exists>kv'. replay is_key_value_command kv_apply [''SET a 1'', ''x=1'', ''DELETE a''] Map.empty = Inr kv') \<and>
   \<not> (\<exists>kv'. replay is_key_value_command kv_apply [''SET a''] Map.empty = Inr kv')"
proof -
  have "well_formed_command ''SET a 1''" "well_formed_command ''DELETE a''"
    unfolding well_formed_command_def
    by (rule exI [of _ "Put ''a'' ''1''"], simp add: valid_key_def)
       (rule exI [of _ "Remove ''a''"], simp add: valid_key_def)
  moreover have "\<not> well_formed_command ''SET a''" "is_key_value_command ''SET a''"
    "\<not> is_key_value_command ''x=1''"
    using kv_apply_accepts [of "''SET a''" Map.empty]
    by (simp_all add: kv_apply_def starts_with_def find_from_def is_key_value_command_def)
  ultimately show ?thesis
    using replay_succeeds_iff_well_formed [of "[''SET a 1'', ''x=1'', ''DELETE a'']" Map.empty]
      replay_succeeds_iff_well_formed [of "[''SET a'']" Map.empty]
    by simp
qed

end
