(* ===== verification/Raft_Messages.thy ===== *)
theory Raft_Messages
  imports Prelude
begin

text \<open>
  The data of \<^verbatim>\<open>src/include/miniraft/raft_core.hpp\<close>: node roles, log entries, the two RPCs'
  requests and responses, and the queued actions.  A field whose name would clash carries the
  initials of its struct.  The theory also fixes what it means for a log to be valid, the
  check that the constructor of a node and the storage layer both make.
\<close>

section \<open>Roles\<close>

datatype node_role = Follower | Candidate | Leader

fun role_to_string :: "node_role \<Rightarrow> string" where
  "role_to_string Follower = ''follower''"
| "role_to_string Candidate = ''candidate''"
| "role_to_string Leader = ''leader''"

section \<open>Log entries and messages\<close>

record log_entry =
  entry_term :: u64
  command :: string

record request_vote_request =
  rv_term :: u64
  candidate_id :: string
  rv_last_log_index :: u64
  rv_last_log_term :: u64

record request_vote_response =
  rvr_term :: u64
  vote_granted :: bool

record request_vote_action =
  rv_target :: string
  rv_request :: request_vote_request

record append_entries_request =
  ae_term :: u64
  ae_leader_id :: string
  prev_log_index :: u64
  prev_log_term :: u64
  entries :: "log_entry list"
  leader_commit :: u64

record append_entries_response =
  aer_term :: u64
  success :: bool
  matched_index :: u64

record append_entries_action =
  ae_target :: string
  ae_request :: append_entries_request

section \<open>Valid logs\<close>

text \<open>
  The loop that both \<^verbatim>\<open>RaftCore::RaftCore\<close> and \<^verbatim>\<open>validate_state\<close> run over a log, with the
  previous entry's term as its state; the two differ in their messages only.  The result is
  the position in the source of the check that failed.
\<close>

datatype log_fault = Zero_Term | Empty_Command | Decreasing_Term | Term_Beyond_Current

fun check_log :: "u64 \<Rightarrow> u64 \<Rightarrow> log_entry list \<Rightarrow> log_fault option" where
  "check_log current previous [] = None"
| "check_log current previous (e # es) =
     (if entry_term e = 0 then Some Zero_Term
      else if command e = [] then Some Empty_Command
      else if entry_term e < previous then Some Decreasing_Term
      else if current < entry_term e then Some Term_Beyond_Current
      else check_log current (entry_term e) es)"

text \<open>What the loop establishes, without its control flow.\<close>

definition log_terms :: "log_entry list \<Rightarrow> u64 list" where
  "log_terms es = map entry_term es"

definition valid_log :: "u64 \<Rightarrow> log_entry list \<Rightarrow> bool" where
  "valid_log current es \<longleftrightarrow>
     (\<forall>e \<in> set es. entry_term e \<noteq> 0 \<and> command e \<noteq> [] \<and> entry_term e \<le> current) \<and>
     sorted (log_terms es)"

lemma log_terms_simps [simp]:
  "log_terms [] = []" "log_terms (e # es) = entry_term e # log_terms es"
  "log_terms (es @ fs) = log_terms es @ log_terms fs" "length (log_terms es) = length es"
  "log_terms (take n es) = take n (log_terms es)" "log_terms (drop n es) = drop n (log_terms es)"
  by (simp_all add: log_terms_def take_map drop_map)

lemma log_terms_nth [simp]: "i < length es \<Longrightarrow> log_terms es ! i = entry_term (es ! i)"
  by (simp add: log_terms_def)

lemma set_log_terms: "set (log_terms es) = entry_term ` set es"
  by (simp add: log_terms_def)

lemma check_log_None_iff:
  "check_log current previous es = None \<longleftrightarrow>
     valid_log current es \<and> (\<forall>t \<in> set (log_terms es). previous \<le> t)"
proof (induction es arbitrary: previous)
  case (Cons e es)
  then show ?case
    by (auto simp: valid_log_def not_less set_log_terms)
qed (simp add: valid_log_def)

corollary check_log_valid: "check_log current 0 es = None \<longleftrightarrow> valid_log current es"
  by (simp add: check_log_None_iff)

lemma valid_log_Nil [simp]: "valid_log t []"
  by (simp add: valid_log_def)

lemma valid_log_take [intro]: "valid_log t es \<Longrightarrow> valid_log t (take n es)"
  by (auto simp: valid_log_def dest: in_set_takeD intro: sorted_wrt_take)

lemma valid_log_mono: "valid_log t es \<Longrightarrow> t \<le> t' \<Longrightarrow> valid_log t' es"
  by (auto simp: valid_log_def intro: order_trans)

lemma valid_log_append:
  "valid_log t (es @ fs) \<longleftrightarrow> valid_log t es \<and> valid_log t fs \<and>
     (\<forall>e \<in> set es. \<forall>f \<in> set fs. entry_term e \<le> entry_term f)"
  by (auto simp: valid_log_def sorted_append set_log_terms)

lemma valid_log_nth:
  "valid_log t es \<Longrightarrow> i < length es \<Longrightarrow> entry_term (es ! i) \<noteq> 0 \<and> entry_term (es ! i) \<le> t \<and> command (es ! i) \<noteq> []"
  by (auto simp: valid_log_def)

lemma valid_log_nth_mono:
  assumes "valid_log t es" and "i \<le> j" and "j < length es"
  shows "entry_term (es ! i) \<le> entry_term (es ! j)"
  using assms sorted_nth_mono [of "log_terms es" i j] by (auto simp: valid_log_def)

section \<open>Positions in a log\<close>

text \<open>
  The last entry's term and index decide which of two logs is more recent: terms first, then
  indexes.  Positions are ordered lexicographically, so the library's order reasoning applies
  to the voting rule.
\<close>

datatype log_position = Log_Position (position_term: u64) (position_index: u64)

instantiation log_position :: linorder
begin

definition less_eq_log_position :: "log_position \<Rightarrow> log_position \<Rightarrow> bool" where
  "less_eq_log_position p q \<longleftrightarrow>
     position_term p < position_term q \<or>
     position_term p = position_term q \<and> position_index p \<le> position_index q"

definition less_log_position :: "log_position \<Rightarrow> log_position \<Rightarrow> bool" where
  "less_log_position p q \<longleftrightarrow>
     position_term p < position_term q \<or>
     position_term p = position_term q \<and> position_index p < position_index q"

instance
  by standard
     (auto simp: less_eq_log_position_def less_log_position_def intro: log_position.expand)

end

text \<open>
  \<^verbatim>\<open>RaftCore::last_log_index\<close> and \<^verbatim>\<open>last_log_term\<close>, as functions of the log.
\<close>

definition last_index_of :: "log_entry list \<Rightarrow> u64" where
  "last_index_of es = of_nat (length es)"

definition last_term_of :: "log_entry list \<Rightarrow> u64" where
  "last_term_of es = (if es = [] then 0 else entry_term (last es))"

definition position_of :: "log_entry list \<Rightarrow> log_position" where
  "position_of es = Log_Position (last_term_of es) (last_index_of es)"

end
