(* ===== verification/Raft_Storage.thy ===== *)
theory Raft_Storage
  imports Raft_Messages
begin

text \<open>
  \<^verbatim>\<open>src/src/raft_storage.cpp\<close>: the state a node must not forget, its text format, and the file
  that holds it.  The formatted output and input of \<^verbatim>\<open>iostream\<close> that the code uses is modelled
  character by character: a reader takes the characters left in the stream and returns a value
  and the rest, or \<open>None\<close> where the stream would set \<^verbatim>\<open>failbit\<close>.
\<close>

section \<open>The persistent state and the file\<close>

record persistent_state =
  ps_current_term :: u64
  ps_voted_for :: "string option"
  ps_log_entries :: "log_entry list"
  ps_commit_index :: u64

text \<open>
  The file at the storage path, as the node can observe it: its contents (\<open>None\<close> when there is
  no file), whether it can be opened for reading and for writing, and how many characters a
  write can put into it before the stream goes bad (\<open>None\<close>: any number).
\<close>

record state_file =
  contents :: "string option"
  readable :: bool
  writable :: bool
  capacity :: "nat option"

text \<open>A file on a healthy disk.\<close>

definition healthy :: "state_file \<Rightarrow> bool" where
  "healthy f \<longleftrightarrow> readable f \<and> writable f \<and> capacity f = None"

section \<open>Validation\<close>

definition storage_format :: string where
  "storage_format = ''MINIRAFT_STATE_V1''"

fun storage_log_message :: "log_fault \<Rightarrow> string" where
  "storage_log_message Zero_Term = ''Persisted log entry term cannot be zero''"
| "storage_log_message Empty_Command = ''Persisted log command cannot be empty''"
| "storage_log_message Decreasing_Term = ''Persisted log terms cannot decrease''"
| "storage_log_message Term_Beyond_Current = ''Persisted log term cannot exceed current term''"

definition validate_state :: "persistent_state \<Rightarrow> exc + unit" where
  "validate_state st =
     (if last_index_of (ps_log_entries st) < ps_commit_index st
        then Inl (InvalidArgument ''Commit index cannot exceed log size'')
      else if ps_voted_for st = Some []
        then Inl (InvalidArgument ''Persisted vote cannot contain an empty node ID'')
      else (case check_log (ps_current_term st) 0 (ps_log_entries st) of
              Some fault \<Rightarrow> Inl (InvalidArgument (storage_log_message fault))
            | None \<Rightarrow> Inr ()))"

definition require_label :: "string \<Rightarrow> string \<Rightarrow> exc + unit" where
  "require_label actual expected =
     (if actual \<noteq> expected
        then Inl (RuntimeError ''Raft state file contains an unexpected field'') else Inr ())"

section \<open>Formatted output\<close>

definition newline :: char where
  "newline = CHR 0x0A"

definition quote :: char where
  "quote = CHR 0x22"

definition escape :: char where
  "escape = CHR 0x5C"

definition digit :: "nat \<Rightarrow> char" where
  "digit d = char_of (48 + d)"

text \<open>\<^verbatim>\<open>output << n\<close> for an unsigned integer.\<close>

fun dec :: "nat \<Rightarrow> string" where
  "dec n = (if n < 10 then [digit n] else dec (n div 10) @ [digit (n mod 10)])"

declare dec.simps [simp del]

text \<open>\<^verbatim>\<open>output << std::quoted(s)\<close>.\<close>

fun escaped :: "string \<Rightarrow> string" where
  "escaped [] = []"
| "escaped (c # cs) = (if c = quote \<or> c = escape then escape # c # escaped cs else c # escaped cs)"

definition quoted :: "string \<Rightarrow> string" where
  "quoted s = quote # escaped s @ [quote]"

definition write_vote :: "string option \<Rightarrow> string" where
  "write_vote v = (case v of None \<Rightarrow> ''0'' | Some c \<Rightarrow> ''1 '' @ quoted c)"

definition write_entry :: "log_entry \<Rightarrow> string" where
  "write_entry e = ''entry '' @ dec (unat (entry_term e)) @ '' '' @ quoted (command e) @ [newline]"

definition state_text :: "persistent_state \<Rightarrow> string" where
  "state_text st =
     storage_format @ [newline] @
     ''current_term '' @ dec (unat (ps_current_term st)) @ [newline] @
     ''voted_for '' @ write_vote (ps_voted_for st) @ [newline] @
     ''commit_index '' @ dec (unat (ps_commit_index st)) @ [newline] @
     ''log_count '' @ dec (length (ps_log_entries st)) @ [newline] @
     concat (map write_entry (ps_log_entries st))"

section \<open>Formatted input\<close>

type_synonym 'a reader = "string \<Rightarrow> ('a \<times> string) option"

text \<open>\<^verbatim>\<open>isspace\<close> in the classic locale.\<close>

definition is_space :: "char \<Rightarrow> bool" where
  "is_space c \<longleftrightarrow> c = CHR '' '' \<or> (9 \<le> (of_char c :: nat) \<and> (of_char c :: nat) \<le> 13)"

definition is_digit :: "char \<Rightarrow> bool" where
  "is_digit c \<longleftrightarrow> 48 \<le> (of_char c :: nat) \<and> (of_char c :: nat) \<le> 57"

definition skip_spaces :: "string \<Rightarrow> string" where
  "skip_spaces s = dropWhile is_space s"

text \<open>\<^verbatim>\<open>getline(input, line)\<close>.\<close>

definition read_line :: "string reader" where
  "read_line s =
     (if s = [] then None
      else Some (takeWhile (\<lambda>c. c \<noteq> newline) s, drop 1 (dropWhile (\<lambda>c. c \<noteq> newline) s)))"

text \<open>\<^verbatim>\<open>input >> word\<close> for a string.\<close>

definition read_word :: "string reader" where
  "read_word s =
     (let t = skip_spaces s; w = takeWhile (\<lambda>c. \<not> is_space c) t
      in if w = [] then None else Some (w, dropWhile (\<lambda>c. \<not> is_space c) t))"

fun digits_value :: "nat \<Rightarrow> string \<Rightarrow> nat" where
  "digits_value acc [] = acc"
| "digits_value acc (c # cs) = digits_value (10 * acc + (of_char c - 48)) cs"

text \<open>
  The part that extracting any integer shares: an optional sign and one or more digits.  A
  sign is accepted before an unsigned integer too.
\<close>

definition read_number :: "(bool \<times> nat) reader" where
  "read_number s =
     (let t = skip_spaces s;
          negative = (t \<noteq> [] \<and> hd t = CHR ''-'');
          u = (if t \<noteq> [] \<and> (hd t = CHR ''-'' \<or> hd t = CHR ''+'') then tl t else t);
          ds = takeWhile is_digit u
      in if ds = [] then None else Some ((negative, digits_value 0 ds), dropWhile is_digit u))"

text \<open>
  \<^verbatim>\<open>input >> x\<close> for \<^verbatim>\<open>uint64_t\<close> and \<^verbatim>\<open>size_t\<close>: a value beyond the type fails, and a negated one
  wraps around as \<^verbatim>\<open>strtoull\<close> prescribes.
\<close>

definition read_u64 :: "u64 reader" where
  "read_u64 s =
     (case read_number s of
        None \<Rightarrow> None
      | Some ((negative, v), rest) \<Rightarrow>
          (if v < 2 ^ 64 then Some (if negative then - of_nat v else of_nat v, rest) else None))"

text \<open>\<^verbatim>\<open>input >> x\<close> for a 32-bit \<^verbatim>\<open>int\<close>.\<close>

definition read_int :: "int reader" where
  "read_int s =
     (case read_number s of
        None \<Rightarrow> None
      | Some ((negative, v), rest) \<Rightarrow>
          (if negative \<and> v \<le> 2 ^ 31 then Some (- int v, rest)
           else if \<not> negative \<and> v < 2 ^ 31 then Some (int v, rest)
           else None))"

text \<open>\<^verbatim>\<open>input >> std::quoted(s)\<close>: an unquoted word is read as a plain string.\<close>

fun unquote :: "string reader" where
  "unquote [] = None"
| "unquote (c # cs) =
     (if c = escape then
        (case cs of
           [] \<Rightarrow> None
         | d # ds \<Rightarrow> map_option (\<lambda>(w, rest). (d # w, rest)) (unquote ds))
      else if c = quote then Some ([], cs)
      else map_option (\<lambda>(w, rest). (c # w, rest)) (unquote cs))"

definition read_quoted :: "string reader" where
  "read_quoted s =
     (case skip_spaces s of
        [] \<Rightarrow> None
      | c # cs \<Rightarrow> (if c = quote then unquote cs else read_word (c # cs)))"

text \<open>
  The shape of every numbered line: \<^verbatim>\<open>if (!(input >> label >> x)) throw\<close>, then the label check.
\<close>

definition read_field :: "string \<Rightarrow> string \<Rightarrow> 'a reader \<Rightarrow> string \<Rightarrow> exc + ('a \<times> string)" where
  "read_field label message rd s =
     (case read_word s of
        None \<Rightarrow> Inl (RuntimeError message)
      | Some (actual, s1) \<Rightarrow>
          (case rd s1 of
             None \<Rightarrow> Inl (RuntimeError message)
           | Some (v, s2) \<Rightarrow> bind_exc (require_label actual label) (\<lambda>_. Inr (v, s2))))"

definition read_vote :: "string \<Rightarrow> exc + (string option \<times> string)" where
  "read_vote s =
     bind_exc (read_field ''voted_for'' ''Could not read persisted vote'' read_int s)
       (\<lambda>(has_vote, s1).
          if has_vote = 1 then
            (case read_quoted s1 of
               None \<Rightarrow> Inl (RuntimeError ''Could not read persisted candidate ID'')
             | Some (v, s2) \<Rightarrow> Inr (Some v, s2))
          else if has_vote \<noteq> 0 then
            Inl (RuntimeError ''Persisted vote flag must be zero or one'')
          else Inr (None, s1))"

definition read_entry :: "log_entry reader" where
  "read_entry s =
     (case read_u64 s of
        None \<Rightarrow> None
      | Some (t, s1) \<Rightarrow>
          (case read_quoted s1 of
             None \<Rightarrow> None
           | Some (c, s2) \<Rightarrow> Some (\<lparr>entry_term = t, command = c\<rparr>, s2)))"

fun read_entries :: "nat \<Rightarrow> string \<Rightarrow> exc + (log_entry list \<times> string)" where
  "read_entries 0 s = Inr ([], s)"
| "read_entries (Suc n) s =
     bind_exc (read_field ''entry'' ''Could not read persisted log entry'' read_entry s)
       (\<lambda>(e, s1). bind_exc (read_entries n s1) (\<lambda>(es, s2). Inr (e # es, s2)))"

text \<open>
  \<^verbatim>\<open>max_size()\<close> of a \<^verbatim>\<open>vector<LogEntry>\<close>, past which \<^verbatim>\<open>reserve\<close> throws \<^verbatim>\<open>length_error\<close>: an entry
  takes 40 bytes (an integer and a string of 32 bytes) of at most \<open>2 ^ 63 - 1\<close>.
\<close>

definition log_max_size :: nat where
  "log_max_size = (2 ^ 63 - 1) div 40"

definition reserve_log :: "u64 \<Rightarrow> exc + unit" where
  "reserve_log n = (if log_max_size < unat n then Inl (LengthError ''vector::reserve'') else Inr ())"

definition parse_state :: "string \<Rightarrow> exc + persistent_state" where
  "parse_state text =
     (case read_line text of
        None \<Rightarrow> Inl (RuntimeError ''Raft state file is empty'')
      | Some (format, s0) \<Rightarrow>
          (if format \<noteq> storage_format
             then Inl (RuntimeError ''Unsupported Raft state file format'')
           else
             bind_exc (read_field ''current_term'' ''Could not read persisted current term'' read_u64 s0)
               (\<lambda>(current, s1).
             bind_exc (read_vote s1)
               (\<lambda>(vote, s2).
             bind_exc (read_field ''commit_index'' ''Could not read persisted commit index'' read_u64 s2)
               (\<lambda>(commit, s3).
             bind_exc (read_field ''log_count'' ''Could not read persisted log count'' read_u64 s3)
               (\<lambda>(count, s4).
             bind_exc (reserve_log count)
               (\<lambda>_.
             bind_exc (read_entries (unat count) s4)
               (\<lambda>(es, s5).
             let st = \<lparr>ps_current_term = current, ps_voted_for = vote,
                       ps_log_entries = es, ps_commit_index = commit\<rparr>
             in bind_exc (validate_state st) (\<lambda>_. Inr st)))))))))"

section \<open>The storage object\<close>

text \<open>\<^verbatim>\<open>FileRaftStorage::FileRaftStorage\<close>; the object is its path.\<close>

definition file_raft_storage :: "string \<Rightarrow> exc + string" where
  "file_raft_storage path =
     (if path = [] then Inl (InvalidArgument ''Raft storage path cannot be empty'') else Inr path)"

text \<open>\<^verbatim>\<open>FileRaftStorage::exists\<close> asks whether the file can be opened for reading.\<close>

definition file_exists :: "state_file \<Rightarrow> bool" where
  "file_exists f \<longleftrightarrow> contents f \<noteq> None \<and> readable f"

definition save :: "persistent_state \<Rightarrow> (state_file, unit) op" where
  "save st f =
     (case validate_state st of
        Inl e \<Rightarrow> (Inl e, f)
      | Inr _ \<Rightarrow>
          (if \<not> writable f
             then (Inl (RuntimeError ''Could not open Raft state file for writing''), f)
           else
             (let text = state_text st;
                  n = (case capacity f of None \<Rightarrow> length text | Some k \<Rightarrow> k);
                  f' = f\<lparr>contents := Some (take n text)\<rparr>
              in if n < length text
                   then (Inl (RuntimeError ''Failed while writing Raft state file''), f')
                   else (Inr (), f'))))"

definition load :: "state_file \<Rightarrow> exc + persistent_state" where
  "load f =
     (case contents f of
        Some text \<Rightarrow>
          (if readable f then parse_state text
           else Inl (RuntimeError ''Could not open Raft state file for reading''))
      | None \<Rightarrow> Inl (RuntimeError ''Could not open Raft state file for reading''))"

section \<open>What each reader does to what each writer wrote\<close>

named_theorems reader_simps \<open>a reader applied to the text its writer produces\<close>

lemma of_char_digit: "d < 10 \<Longrightarrow> of_char (digit d) = 48 + d"
  by (simp add: digit_def)

lemma is_digit_digit [simp]: "d < 10 \<Longrightarrow> is_digit (digit d)"
  by (simp add: is_digit_def of_char_digit)

lemma is_digit_not_space: "is_digit c \<Longrightarrow> \<not> is_space c"
  by (auto simp: is_digit_def is_space_def)

lemma is_digit_not_sign: "is_digit c \<Longrightarrow> c \<noteq> CHR ''-'' \<and> c \<noteq> CHR ''+''"
  by (auto simp: is_digit_def)

lemma dec_digits: "\<forall>c \<in> set (dec n). is_digit c"
proof (induction n rule: dec.induct)
  case (1 n)
  then show ?case by (subst dec.simps) auto
qed

lemma dec_nonempty [simp]: "dec n \<noteq> []"
  by (subst dec.simps) simp

lemma digits_value_append:
  "digits_value acc (ds @ [c]) = 10 * digits_value acc ds + (of_char c - 48)"
  by (induction ds arbitrary: acc) simp_all

lemma digits_value_dec: "digits_value 0 (dec n) = n"
proof (induction n rule: dec.induct)
  case (1 n)
  then show ?case
    by (subst dec.simps) (auto simp: digits_value_append of_char_digit)
qed

lemma takeWhile_stop: "\<forall>x \<in> set xs. P x \<Longrightarrow> ys = [] \<or> \<not> P (hd ys) \<Longrightarrow> takeWhile P (xs @ ys) = xs"
  by (cases ys) auto

lemma dropWhile_stop: "\<forall>x \<in> set xs. P x \<Longrightarrow> ys = [] \<or> \<not> P (hd ys) \<Longrightarrow> dropWhile P (xs @ ys) = ys"
  by (cases ys) auto

lemma skip_spaces_Cons [reader_simps]:
  "skip_spaces (c # s) = (if is_space c then skip_spaces s else c # s)"
  by (simp add: skip_spaces_def)

lemma skip_spaces_Nil [reader_simps]: "skip_spaces [] = []"
  by (simp add: skip_spaces_def)

lemma skip_spaces_word [reader_simps]:
  "w \<noteq> [] \<Longrightarrow> \<forall>c \<in> set w. \<not> is_space c \<Longrightarrow> skip_spaces (w @ s) = w @ s"
  by (cases w) (simp_all add: skip_spaces_def)

lemma is_space_consts [simp]: "is_space newline" "is_space (CHR '' '')" "\<not> is_space quote"
  by (simp_all add: is_space_def newline_def quote_def)

lemma not_digit_consts [simp]: "\<not> is_digit newline" "\<not> is_digit (CHR '' '')"
  by (simp_all add: is_digit_def newline_def)

lemma read_word_append:
  assumes "w \<noteq> []" and "\<forall>c \<in> set w. \<not> is_space c" and "s = [] \<or> is_space (hd s)"
  shows "read_word (w @ s) = Some (w, s)"
  using assms takeWhile_stop [of w "\<lambda>c. \<not> is_space c" s] dropWhile_stop [of w "\<lambda>c. \<not> is_space c" s]
  by (simp add: read_word_def skip_spaces_word Let_def)

lemma read_word_skip: "is_space c \<Longrightarrow> read_word (c # s) = read_word s"
  by (simp add: read_word_def skip_spaces_def)

lemma read_number_skip: "is_space c \<Longrightarrow> read_number (c # s) = read_number s"
  by (simp add: read_number_def skip_spaces_def)

lemma read_quoted_skip: "is_space c \<Longrightarrow> read_quoted (c # s) = read_quoted s"
  by (simp add: read_quoted_def skip_spaces_def)

text \<open>A run of digits, in the context of any reader of integers.\<close>

lemma read_number_digits:
  assumes "ds \<noteq> []" and "\<forall>c \<in> set ds. is_digit c" and "s = [] \<or> \<not> is_digit (hd s)"
  shows "read_number (ds @ s) = Some ((False, digits_value 0 ds), s)"
proof -
  have "skip_spaces (ds @ s) = ds @ s"
    using assms(1,2) by (intro skip_spaces_word) (auto dest: is_digit_not_space)
  moreover have "hd (ds @ s) \<noteq> CHR ''-'' \<and> hd (ds @ s) \<noteq> CHR ''+''"
    using assms(1,2) is_digit_not_sign [of "hd ds"] by (cases ds) auto
  ultimately show ?thesis
    using takeWhile_stop [OF assms(2,3)] dropWhile_stop [OF assms(2,3)] assms(1)
    by (simp add: read_number_def Let_def)
qed

lemma read_u64_dec:
  assumes "n < 2 ^ 64" and "s = [] \<or> \<not> is_digit (hd s)"
  shows "read_u64 (dec n @ s) = Some (of_nat n, s)"
  using assms read_number_digits [OF dec_nonempty dec_digits, of s n]
  by (simp add: read_u64_def digits_value_dec)

lemma read_u64_dec_unat:
  assumes "s = [] \<or> \<not> is_digit (hd s)"
  shows "read_u64 (dec (unat x) @ s) = Some (x, s)"
  using assms by (subst read_u64_dec) simp_all

lemma read_u64_skip: "is_space c \<Longrightarrow> read_u64 (c # s) = read_u64 s"
  by (simp add: read_u64_def read_number_skip)

lemma unquote_escaped: "unquote (escaped w @ quote # s) = Some (w, s)"
  by (induction w) (auto simp: quote_def escape_def)

lemma read_quoted_quoted: "read_quoted (quoted w @ s) = Some (w, s)"
  by (simp add: read_quoted_def quoted_def skip_spaces_Cons unquote_escaped)

lemma read_line_append:
  assumes "newline \<notin> set l"
  shows "read_line (l @ newline # s) = Some (l, s)"
proof -
  have l: "\<forall>c \<in> set l. c \<noteq> newline" using assms by auto
  then show ?thesis
    using takeWhile_stop [OF l, of "newline # s"] dropWhile_stop [OF l, of "newline # s"]
    by (simp add: read_line_def)
qed

text \<open>A whole field: any white space in front of it is skipped.\<close>

definition plain_word :: "string \<Rightarrow> bool" where
  "plain_word w \<longleftrightarrow> w \<noteq> [] \<and> (\<forall>c \<in> set w. \<not> is_space c)"

lemma plain_labels [simp]:
  "plain_word ''current_term''" "plain_word ''voted_for''" "plain_word ''commit_index''"
  "plain_word ''log_count''" "plain_word ''entry''"
  by (simp_all add: plain_word_def is_space_def)

lemma read_field_ok:
  assumes "plain_word label" and "rd (CHR '' '' # t) = Some (v, s)"
  shows "read_field label message rd (label @ CHR '' '' # t) = Inr (v, s)"
  using assms read_word_append [of label "CHR '' '' # t"]
  by (simp add: read_field_def require_label_def plain_word_def)

lemma read_field_skip: "is_space c \<Longrightarrow> read_field label message rd (c # s) = read_field label message rd s"
  by (simp add: read_field_def read_word_skip)

lemma read_field_u64:
  assumes "plain_word label" and "s = [] \<or> \<not> is_digit (hd s)"
  shows "read_field label message read_u64 (label @ CHR '' '' # dec (unat x) @ s) = Inr (x, s)"
  using assms by (intro read_field_ok) (simp_all add: read_u64_skip read_u64_dec_unat)

lemma read_vote_write:
  "read_vote (''voted_for '' @ write_vote v @ newline # s) = Inr (v, newline # s)"
proof -
  have *: "read_int (CHR '' '' # dec n @ t) = Some (int n, t)"
    if "n < 2" "t = [] \<or> \<not> is_digit (hd t)" for n t
    using that read_number_digits [OF dec_nonempty dec_digits, of t n]
    by (simp add: read_int_def read_number_skip digits_value_dec)
  have d: "dec 0 = ''0''" "dec (Suc 0) = ''1''" by (subst dec.simps, code_simp)+
  have f: "read_field ''voted_for'' m read_int (''voted_for'' @ CHR '' '' # dec n @ t) = Inr (int n, t)"
    if "n < 2" "t = [] \<or> \<not> is_digit (hd t)" for m n t
    using * [OF that] by (intro read_field_ok) simp_all
  show ?thesis
    using f [of 0 "newline # s"] f [of 1 "CHR '' '' # quoted c @ newline # s" for c]
    by (cases v) (simp_all add: read_vote_def write_vote_def d read_quoted_skip read_quoted_quoted)
qed

lemma read_vote_skip: "is_space c \<Longrightarrow> read_vote (c # s) = read_vote s"
  by (simp add: read_vote_def read_field_skip)

lemma read_entry_write:
  "read_field ''entry'' message read_entry (write_entry e @ s) = Inr (e, newline # s)"
proof -
  have "read_entry (CHR '' '' # dec (unat (entry_term e)) @ CHR '' '' # quoted (command e) @ newline # s)
      = Some (e, newline # s)"
    by (simp add: read_entry_def read_u64_skip read_u64_dec_unat read_quoted_skip read_quoted_quoted)
  then show ?thesis
    using read_field_ok [of "''entry''" read_entry] by (simp add: write_entry_def)
qed

lemma read_entries_write:
  "is_space c \<Longrightarrow> read_entries (length es) (c # concat (map write_entry es)) =
     Inr (es, if es = [] then [c] else [newline])"
proof (induction es arbitrary: c)
  case (Cons e es)
  then show ?case
    using Cons.IH [of newline] by (simp add: read_field_skip read_entry_write)
qed simp

lemma log_max_size_u64: "n \<le> log_max_size \<Longrightarrow> n < 2 ^ 64"
  by (simp add: log_max_size_def)

text \<open>
  The round trip of the text format.  Values are arbitrary strings: quoting takes care of
  quotes, backslashes, spaces and line breaks.
\<close>

lemma parse_state_text:
  assumes "validate_state st = Inr ()" and "length (ps_log_entries st) \<le> log_max_size"
  shows "parse_state (state_text st) = Inr st"
proof -
  let ?n = "length (ps_log_entries st)"
  have n: "unat (of_nat ?n :: u64) = ?n"
    using assms(2) log_max_size_u64 [of ?n] by (simp add: unat_of_nat)
  have eta: "\<lparr>ps_current_term = ps_current_term st, ps_voted_for = ps_voted_for st,
      ps_log_entries = ps_log_entries st, ps_commit_index = ps_commit_index st\<rparr> = st" by simp
  have f: "newline \<notin> set storage_format" by (simp add: storage_format_def newline_def)
  have count: "read_field ''log_count'' m read_u64 (''log_count '' @ dec ?n @ newline # s)
      = Inr (of_nat ?n, newline # s)" for m s
    using read_field_u64 [of "''log_count''" "newline # s" m "of_nat ?n"] by (simp add: n)
  show ?thesis
    using assms read_field_u64 [of "''current_term''"] read_field_u64 [of "''commit_index''"] count
      read_entries_write [of newline] read_vote_write
    by (simp add: parse_state_def state_text_def read_line_append [OF f] read_field_skip
        reserve_log_def n Let_def read_vote_skip eta)
qed

section \<open>Reading a file that was cut off\<close>

text \<open>
  \<^verbatim>\<open>save\<close> truncates the file and writes it again, so a crash in between can leave any prefix of
  the text.  Each reader on a prefix of what its writer wrote either fails, or has used up the
  prefix, or returns what was written and leaves a prefix of what follows.
\<close>

lemma prefix_segment:
  assumes "prefix p (a @ b)"
  obtains (inside) "prefix p a" | (beyond) q where "p = a @ q" and "prefix q b"
  using assms by (auto simp: prefix_append)

lemma prefix_Cons_cases:
  assumes "prefix p (c # b)"
  obtains "p = []" | q where "p = c # q" and "prefix q b"
  using assms by (cases p) auto

lemma read_word_prefix:
  assumes "prefix p (w @ c # X)" and "plain_word w" and "is_space c"
    and "read_word p = Some (v, s)"
  shows "s = [] \<or> v = w \<and> prefix s (c # X)"
  using assms(1)
proof (cases rule: prefix_segment)
  case inside
  with assms(2) have "\<forall>x \<in> set p. \<not> is_space x"
    unfolding plain_word_def by (meson set_mono_prefix subsetD)
  then show ?thesis
    using assms(4) read_word_append [of p "[]"] by (cases "p = []") (auto simp: read_word_def skip_spaces_def)
next
  case (beyond q)
  have "q = [] \<or> is_space (hd q)" using beyond(2) assms(3) by (cases q) auto
  then show ?thesis
    using read_word_append [of w q] assms(2,4) beyond by (auto simp: plain_word_def)
qed

lemma digits_prefix_zero:
  assumes "prefix ds (dec n)" and "ds \<noteq> []" and "digits_value 0 ds = 0"
  shows "n = 0"
proof -
  have pos: "0 < digits_value acc ds" if "0 < acc" for acc ds
    using that by (induction ds arbitrary: acc) simp_all
  have lead: "of_char (hd (dec n)) \<noteq> (48 :: nat)" if "n \<noteq> 0"
    using that
  proof (induction n rule: dec.induct)
    case (1 n)
    then show ?case by (subst dec.simps) (auto simp: of_char_digit)
  qed
  obtain d es where ds: "ds = d # es" using assms(2) by (cases ds) auto
  with assms(1) have d: "d = hd (dec n)" "is_digit d" using dec_digits [of n] by (auto simp: prefix_def)
  show ?thesis
  proof (rule ccontr)
    assume "n \<noteq> 0"
    with lead d have "0 < of_char d - (48 :: nat)" by (auto simp: is_digit_def)
    with pos [of "of_char d - 48" es] ds assms(3) show False by simp
  qed
qed

lemma read_number_prefix:
  assumes "prefix p (CHR '' '' # dec n @ c # X)" and "\<not> is_digit c"
    and "read_number p = Some ((negative, v), s)"
  obtains ds where "prefix ds (dec n)" and "ds \<noteq> []" and "\<not> negative" and "v = digits_value 0 ds"
    and "s = [] \<or> ds = dec n \<and> s \<noteq> [] \<and> prefix s (c # X)"
proof -
  obtain q where p: "p = CHR '' '' # q" and q: "prefix q (dec n @ c # X)"
    using assms(1,3) by (cases rule: prefix_Cons_cases) (auto simp: read_number_def skip_spaces_def)
  have rq: "read_number q = Some ((negative, v), s)"
    using assms(3) p by (simp add: read_number_skip)
  show thesis
    using q
  proof (cases rule: prefix_segment)
    case inside
    with dec_digits [of n] have "\<forall>x \<in> set q. is_digit x" by (meson set_mono_prefix subsetD)
    moreover have "q \<noteq> []" using rq by (auto simp: read_number_def skip_spaces_def)
    ultimately show thesis
      using that [OF inside] rq read_number_digits [of q "[]"] by auto
  next
    case (beyond r)
    have "r = [] \<or> \<not> is_digit (hd r)" using beyond(2) assms(2) by (cases r) auto
    then show thesis
      using that [of "dec n"] rq read_number_digits [OF dec_nonempty dec_digits, of r n] beyond by auto
  qed
qed

lemma unquote_prefix:
  "prefix p (escaped w @ quote # X) \<Longrightarrow> unquote p = Some (v, s) \<Longrightarrow> v = w \<and> prefix s X"
proof (induction w arbitrary: p v)
  case Nil
  then show ?case by (cases p) (auto simp: quote_def escape_def)
next
  case (Cons a w)
  show ?case
  proof (cases "a = quote \<or> a = escape")
    case True
    with Cons.prems obtain q where "p = escape # a # q" and q: "prefix q (escaped w @ quote # X)"
      by (cases p; cases "tl p") auto
    with Cons.prems obtain u where "unquote q = Some (u, s)" and "v = a # u" by auto
    with Cons.IH [OF q] show ?thesis by auto
  next
    case False
    with Cons.prems obtain q where "p = a # q" and q: "prefix q (escaped w @ quote # X)"
      by (cases p) auto
    with Cons.prems False obtain u where "unquote q = Some (u, s)" and "v = a # u" by auto
    with Cons.IH [OF q] show ?thesis by auto
  qed
qed

lemma read_quoted_prefix:
  assumes "prefix p (CHR '' '' # quoted w @ X)" and "read_quoted p = Some (v, s)"
  shows "v = w \<and> prefix s X"
proof -
  obtain q where "p = CHR '' '' # quote # q" and "prefix q (escaped w @ quote # X)"
    using assms by (cases p; cases "tl p") (auto simp: read_quoted_def skip_spaces_def quoted_def)
  then show ?thesis
    using assms(2) unquote_prefix [of q w X v s]
    by (auto simp: read_quoted_def skip_spaces_Cons)
qed

lemma read_field_Nil [simp]: "read_field label message rd [] = Inl (RuntimeError message)"
  by (simp add: read_field_def read_word_def skip_spaces_def)

lemma read_field_InrD:
  assumes "read_field label message rd p = Inr (v, s)"
  obtains s1 where "read_word p = Some (label, s1)" and "rd s1 = Some (v, s)"
  using assms by (auto simp: read_field_def require_label_def split: option.splits if_splits)

text \<open>A numbered line, cut anywhere: the value is the written one unless nothing is left.\<close>

lemma read_field_u64_prefix:
  assumes p: "prefix p (label @ CHR '' '' # dec n @ newline # X)" and l: "plain_word label"
    and n: "n < 2 ^ 64" and r: "read_field label message read_u64 p = Inr (v, s)"
  shows "s = [] \<and> (v = 0 \<longrightarrow> n = 0) \<or> s \<noteq> [] \<and> unat v = n \<and> prefix s (newline # X)"
proof -
  obtain s1 where w: "read_word p = Some (label, s1)" and u: "read_u64 s1 = Some (v, s)"
    using r by (rule read_field_InrD)
  have "s1 \<noteq> []" using u by (auto simp: read_u64_def read_number_def skip_spaces_def)
  with read_word_prefix [OF p l _ w] have s1: "prefix s1 (CHR '' '' # dec n @ newline # X)"
    by auto
  obtain ng k where k: "read_number s1 = Some ((ng, k), s)" "k < 2 ^ 64"
    and v: "v = (if ng then - of_nat k else of_nat k)"
    using u by (auto simp: read_u64_def split: option.splits if_splits)
  show ?thesis
  proof (rule read_number_prefix [OF s1 _ k(1)])
    fix ds assume ds: "prefix ds (dec n)" "ds \<noteq> []" "\<not> ng" "k = digits_value 0 ds"
      and s: "s = [] \<or> ds = dec n \<and> s \<noteq> [] \<and> prefix s (newline # X)"
    have uv: "unat v = k" using v ds(3) k(2) by (simp add: unat_of_nat)
    from s show ?thesis
    proof
      assume "s = []"
      moreover have "n = 0" if "v = 0" using digits_prefix_zero [OF ds(1,2)] that uv ds(4) by simp
      ultimately show ?thesis by blast
    qed (use uv ds(4) digits_value_dec in auto)
  qed simp
qed

text \<open>The line of the vote.\<close>

lemma read_vote_prefix:
  assumes p: "prefix p (''voted_for '' @ write_vote w @ newline # X)"
    and r: "read_vote p = Inr (v, s)"
  shows "s = [] \<or> v = w \<and> prefix s (newline # X)"
proof -
  let ?n = "case w of None \<Rightarrow> 0 | Some _ \<Rightarrow> 1"
  let ?Y = "case w of None \<Rightarrow> newline # X | Some c \<Rightarrow> CHR '' '' # quoted c @ newline # X"
  have d: "dec 0 = ''0''" "dec (Suc 0) = ''1''" by (subst dec.simps, code_simp)+
  have "write_vote w @ newline # X = dec ?n @ ?Y"
    by (cases w) (simp_all add: write_vote_def d)
  then have p': "prefix p (''voted_for'' @ CHR '' '' # dec ?n @ ?Y)"
    using p by simp
  obtain hv s2 where f: "read_field ''voted_for'' ''Could not read persisted vote'' read_int p = Inr (hv, s2)"
    using r by (auto simp: read_vote_def bind_exc_Inr_iff)
  obtain s1 where w1: "read_word p = Some (''voted_for'', s1)" and i: "read_int s1 = Some (hv, s2)"
    using f by (rule read_field_InrD)
  have "s1 \<noteq> []" using i by (auto simp: read_int_def read_number_def skip_spaces_def)
  with read_word_prefix [OF p' _ _ w1] have s1: "prefix s1 (CHR '' '' # dec ?n @ ?Y)" by auto
  obtain c Y where Y: "?Y = c # Y" "\<not> is_digit c" by (cases w) auto
  obtain ng k where k: "read_number s1 = Some ((ng, k), s2)" and hv: "\<not> ng \<Longrightarrow> hv = int k"
    using i by (auto simp: read_int_def split: option.splits if_splits)
  show ?thesis
  proof (rule read_number_prefix [OF s1 [unfolded Y(1)] Y(2) k])
    fix ds assume ds: "\<not> ng" "k = digits_value 0 ds"
      and s2: "s2 = [] \<or> ds = dec ?n \<and> s2 \<noteq> [] \<and> prefix s2 (c # Y)"
    show ?thesis
    proof (cases "s2 = []")
      case True
      with r f show ?thesis
        by (auto simp: read_vote_def read_quoted_def skip_spaces_def split: if_splits)
    next
      case False
      with s2 ds hv have "hv = int ?n" and px: "prefix s2 ?Y"
        by (simp_all add: digits_value_dec Y)
      with r f show ?thesis
        using read_quoted_prefix [of s2 _ "newline # X"]
        by (cases w) (auto simp: read_vote_def split: option.splits)
    qed
  qed
qed

text \<open>The entries.\<close>

lemma read_field_entry_prefix:
  assumes p: "prefix p (write_entry e @ X)"
    and r: "read_field ''entry'' message read_entry p = Inr (e', s)"
  shows "e' = e \<and> prefix s (newline # X)"
proof -
  let ?Q = "CHR '' '' # quoted (command e) @ newline # X"
  have p': "prefix p (''entry'' @ CHR '' '' # dec (unat (entry_term e)) @ ?Q)"
    using p by (simp add: write_entry_def)
  obtain s1 where w: "read_word p = Some (''entry'', s1)" and q: "read_entry s1 = Some (e', s)"
    using r by (rule read_field_InrD)
  obtain t s2 c where u: "read_u64 s1 = Some (t, s2)" and c: "read_quoted s2 = Some (c, s)"
    and e': "e' = \<lparr>entry_term = t, command = c\<rparr>"
    using q by (auto simp: read_entry_def split: option.splits)
  have "s1 \<noteq> []" using u by (auto simp: read_u64_def read_number_def skip_spaces_def)
  with read_word_prefix [OF p' _ _ w] have s1: "prefix s1 (CHR '' '' # dec (unat (entry_term e)) @ ?Q)"
    by auto
  have "s2 \<noteq> []" using c by (auto simp: read_quoted_def skip_spaces_def)
  obtain ng k where k: "read_number s1 = Some ((ng, k), s2)"
    and t: "t = (if ng then - of_nat k else of_nat k)"
    using u by (auto simp: read_u64_def split: option.splits if_splits)
  show ?thesis
  proof (rule read_number_prefix [OF s1 _ k])
    fix ds assume "\<not> ng" "k = digits_value 0 ds"
      and "s2 = [] \<or> ds = dec (unat (entry_term e)) \<and> s2 \<noteq> [] \<and> prefix s2 ?Q"
    with \<open>s2 \<noteq> []\<close> t have "t = entry_term e" and "prefix s2 ?Q" by (simp_all add: digits_value_dec)
    with read_quoted_prefix [OF _ c] e' show ?thesis by auto
  qed simp
qed

lemma read_entries_prefix:
  assumes "prefix p (newline # concat (map write_entry es))"
    and "read_entries (length es) p = Inr (es', s)"
  shows "es' = es"
  using assms
proof (induction es arbitrary: p es')
  case (Cons e es)
  from Cons.prems(2) obtain e' s1 fs where
    f: "read_field ''entry'' ''Could not read persisted log entry'' read_entry p = Inr (e', s1)"
    and r: "read_entries (length es) s1 = Inr (fs, s)" and es': "es' = e' # fs"
    by (auto simp: bind_exc_Inr_iff)
  obtain q where p: "p = newline # q" "prefix q (write_entry e @ concat (map write_entry es))"
    using Cons.prems(1) f by (cases p) auto
  with f read_field_entry_prefix [OF p(2)] have "e' = e"
    and s1: "prefix s1 (newline # concat (map write_entry es))"
    by (auto simp: read_field_skip)
  with Cons.IH [OF s1 r] es' show ?case by simp
qed simp

lemma read_vote_Nil [simp]: "read_vote [] = Inl (RuntimeError ''Could not read persisted vote'')"
  by (simp add: read_vote_def)

text \<open>One step over a line break: either nothing is left, or the next line starts.\<close>

lemma prefix_newline:
  assumes "prefix s (newline # X)"
  obtains "s = []" | q where "s = newline # q" and "prefix q X"
  using assms by (cases s) auto

lemma prefix_newline_nonempty:
  assumes "prefix s (newline # X)" and "s \<noteq> []"
  obtains q where "s = newline # q" and "prefix q X"
  using assms by (cases s) auto

lemma parse_state_prefix:
  assumes v: "validate_state st = Inr ()" and len: "length (ps_log_entries st) \<le> log_max_size"
    and p: "prefix p (state_text st)" and r: "parse_state p = Inr st'"
  shows "st' = st"
proof -
  let ?es = "ps_log_entries st"
  let ?R4 = "concat (map write_entry ?es)"
  let ?R3 = "''log_count'' @ CHR '' '' # dec (length ?es) @ newline # ?R4"
  let ?R2 = "''commit_index'' @ CHR '' '' # dec (unat (ps_commit_index st)) @ newline # ?R3"
  let ?R1 = "''voted_for '' @ write_vote (ps_voted_for st) @ newline # ?R2"
  let ?R0 = "''current_term'' @ CHR '' '' # dec (unat (ps_current_term st)) @ newline # ?R1"
  have shape: "state_text st = storage_format @ newline # ?R0"
    by (simp add: state_text_def)
  have f: "newline \<notin> set storage_format" by (simp add: storage_format_def newline_def)
  obtain s0 s1 s2 s3 s4 s5 t vt ci n es where
      line: "read_line p = Some (storage_format, s0)"
    and t: "read_field ''current_term'' ''Could not read persisted current term'' read_u64 s0 = Inr (t, s1)"
    and vt: "read_vote s1 = Inr (vt, s2)"
    and ci: "read_field ''commit_index'' ''Could not read persisted commit index'' read_u64 s2 = Inr (ci, s3)"
    and n: "read_field ''log_count'' ''Could not read persisted log count'' read_u64 s3 = Inr (n, s4)"
    and es: "read_entries (unat n) s4 = Inr (es, s5)"
    and st': "st' = \<lparr>ps_current_term = t, ps_voted_for = vt, ps_log_entries = es, ps_commit_index = ci\<rparr>"
    using r by (fastforce simp: parse_state_def Let_def bind_exc_Inr_iff split: option.splits if_splits)
  have s0: "prefix s0 ?R0"
    using p unfolding shape
  proof (cases rule: prefix_segment)
    case inside
    then have "newline \<notin> set p" using f by (auto dest: set_mono_prefix)
    then have "dropWhile (\<lambda>c. c \<noteq> newline) p = []" by auto
    with line have "s0 = []" by (auto simp only: read_line_def drop_Nil split: if_splits)
    then show ?thesis by simp
  next
    case (beyond q)
    show ?thesis
      using beyond(2)
    proof (cases rule: prefix_newline)
      case 1
      then have "dropWhile (\<lambda>c. c \<noteq> newline) p = []" using beyond(1) f by auto
      with line have "s0 = []" by (auto simp only: read_line_def drop_Nil split: if_splits)
      then show ?thesis by simp
    next
      case (2 q')
      with beyond(1) line show ?thesis by (simp add: read_line_append [OF f])
    qed
  qed
  have s1: "s1 \<noteq> []" using vt by auto
  have s2: "s2 \<noteq> []" using ci by auto
  have s3: "s3 \<noteq> []" using n by auto
  have t': "t = ps_current_term st" and p1: "prefix s1 (newline # ?R1)"
    using read_field_u64_prefix [OF s0 _ _ t] s1
    by (simp_all add: word_unat_eq_iff)
  obtain q1 where q1: "s1 = newline # q1" "prefix q1 ?R1" using p1 s1 by (rule prefix_newline_nonempty)
  have vt': "vt = ps_voted_for st" and p2: "prefix s2 (newline # ?R2)"
    using read_vote_prefix [OF q1(2) vt [unfolded q1(1) read_vote_skip [OF is_space_consts(1)]]] s2
    by simp_all
  obtain q2 where q2: "s2 = newline # q2" "prefix q2 ?R2" using p2 s2 by (rule prefix_newline_nonempty)
  have ci': "ci = ps_commit_index st" and p3: "prefix s3 (newline # ?R3)"
    using read_field_u64_prefix [OF q2(2) _ _ ci [unfolded q2(1) read_field_skip [OF is_space_consts(1)]]]
      s3 by (simp_all add: word_unat_eq_iff)
  obtain q3 where q3: "s3 = newline # q3" "prefix q3 ?R3" using p3 s3 by (rule prefix_newline_nonempty)
  have "length ?es < 2 ^ 64" using len by (rule log_max_size_u64)
  with read_field_u64_prefix [OF q3(2) _ _ n [unfolded q3(1) read_field_skip [OF is_space_consts(1)]]]
  consider "s4 = []" "n = 0 \<longrightarrow> length ?es = 0" | "unat n = length ?es" "prefix s4 (newline # ?R4)"
    by auto
  then have "es = ?es"
  proof cases
    case 1
    then show ?thesis using es by (cases "unat n") (auto simp: word_unat_eq_iff)
  next
    case 2
    then show ?thesis using es read_entries_prefix by simp
  qed
  with st' t' vt' ci' show ?thesis by simp
qed

section \<open>The storage interface\<close>

text \<open>
  What may be stored, without the loops of \<^verbatim>\<open>validate_state\<close>; the second conjunct of
  \<open>storable\<close> is a fact about every vector that exists.
\<close>

definition persistable :: "persistent_state \<Rightarrow> bool" where
  "persistable st \<longleftrightarrow>
     ps_commit_index st \<le> last_index_of (ps_log_entries st) \<and>
     ps_voted_for st \<noteq> Some [] \<and> valid_log (ps_current_term st) (ps_log_entries st)"

definition storable :: "persistent_state \<Rightarrow> bool" where
  "storable st \<longleftrightarrow> persistable st \<and> length (ps_log_entries st) \<le> log_max_size"

lemma validate_state_iff: "validate_state st = Inr () \<longleftrightarrow> persistable st"
proof -
  have "validate_state st = Inr () \<longleftrightarrow>
      ps_commit_index st \<le> last_index_of (ps_log_entries st) \<and> ps_voted_for st \<noteq> Some [] \<and>
      check_log (ps_current_term st) 0 (ps_log_entries st) = None"
    by (auto simp: validate_state_def not_less split: option.splits)
  then show ?thesis by (simp add: persistable_def check_log_valid)
qed

lemma validate_state_cases:
  obtains (valid) "validate_state st = Inr ()" "persistable st"
    | (invalid) e where "validate_state st = Inl e" "\<not> persistable st"
  using validate_state_iff [of st] by (cases "validate_state st") auto

text \<open>
  A client of the storage saves and loads; what it relies on is that the last state saved is
  the state loaded, as long as the disk works.
\<close>

locale durable_store =
  fixes put :: "'p \<Rightarrow> ('f, unit) op"
    and fetch :: "'f \<Rightarrow> exc + 'p"
    and intact :: "'f \<Rightarrow> bool"
    and accepts :: "'p \<Rightarrow> bool"
  assumes put_fetch: "intact f \<Longrightarrow> accepts p \<Longrightarrow> put p f = (Inr (), g) \<longrightarrow> intact g \<and> fetch g = Inr p"
    and put_returns: "intact f \<Longrightarrow> accepts p \<Longrightarrow> \<exists>g. put p f = (Inr (), g)"
begin

lemma put_intact:
  assumes "intact f" and "accepts p"
  obtains g where "put p f = (Inr (), g)" and "intact g" and "fetch g = Inr p"
  using assms put_fetch put_returns by metis

text \<open>After any number of saves, the last one is what a restart reads.\<close>

lemma last_put_fetched:
  assumes "intact f" and "\<forall>p \<in> set (ps @ [q]). accepts p"
  shows "\<exists>g. fold (\<lambda>p f. final (put p f)) (ps @ [q]) f = g \<and> intact g \<and> fetch g = Inr q"
  using assms
proof (induction ps arbitrary: f)
  case Nil
  then show ?case by (auto elim!: put_intact [of f q])
next
  case (Cons p ps)
  obtain g where "put p f = (Inr (), g)" "intact g"
    using Cons.prems by (auto elim!: put_intact [of f p])
  with Cons.IH [of g] Cons.prems show ?case by simp
qed

end

lemma save_healthy:
  assumes "healthy f" and "persistable st"
  shows "save st f = (Inr (), f\<lparr>contents := Some (state_text st)\<rparr>)"
  using assms validate_state_iff [of st] by (simp add: save_def healthy_def Let_def)

lemma load_healthy:
  assumes "healthy f" and "storable st"
  shows "load (f\<lparr>contents := Some (state_text st)\<rparr>) = Inr st"
  using assms by (simp add: load_def healthy_def storable_def parse_state_text validate_state_iff)

text \<open>Whatever the file holds, what is loaded from it could have been stored.\<close>

lemma read_entries_length: "read_entries n s = Inr (es, s') \<Longrightarrow> length es = n"
  by (induction n s arbitrary: es s' rule: read_entries.induct)
     (auto simp: bind_exc_Inr_iff)

lemma load_storable:
  assumes "load f = Inr st"
  shows "storable st"
proof -
  have "persistable st \<and> length (ps_log_entries st) \<le> log_max_size"
    using assms
    by (auto simp: load_def parse_state_def Let_def bind_exc_Inr_iff validate_state_iff reserve_log_def
        dest!: read_entries_length split: option.splits if_splits)
  then show ?thesis by (simp add: storable_def)
qed

text \<open>No file makes it read outside a vector.\<close>

lemma read_field_defined: "read_field label message rd s \<noteq> Inl UndefinedBehaviour"
  by (auto simp: read_field_def require_label_def bind_exc_Inl_iff split: option.splits if_splits)

lemma read_vote_defined: "read_vote s \<noteq> Inl UndefinedBehaviour"
  by (auto simp: read_vote_def read_field_defined bind_exc_Inl_iff split: option.splits if_splits)

lemma read_entries_defined: "read_entries n s \<noteq> Inl UndefinedBehaviour"
  by (induction n s rule: read_entries.induct)
     (auto simp: read_field_defined bind_exc_Inl_iff)

lemma load_defined: "load f \<noteq> Inl UndefinedBehaviour"
proof -
  have "parse_state t \<noteq> Inl UndefinedBehaviour" for t
    by (auto simp: parse_state_def Let_def read_field_defined read_vote_defined read_entries_defined
        reserve_log_def validate_state_def bind_exc_Inl_iff split: option.splits if_splits)
  then show ?thesis by (auto simp: load_def split: option.split)
qed

interpretation state_store: durable_store save load healthy storable
proof
  fix f st g
  assume "healthy f" and "storable st"
  then show "save st f = (Inr (), g) \<longrightarrow> healthy g \<and> load g = Inr st"
    by (auto simp: save_healthy load_healthy storable_def healthy_def)
  show "\<exists>g. save st f = (Inr (), g)"
    using \<open>healthy f\<close> \<open>storable st\<close> by (simp add: save_healthy storable_def)
qed

section \<open>Properties\<close>

text \<open>
  C20: On a working disk, after any sequence of saves of valid states the file loads exactly the
  last one: term, vote, log with its commands byte for byte, and commit index.
\<close>

theorem last_saved_state_is_loaded:
  assumes "healthy f" and "\<forall>p \<in> set (ps @ [st]). storable p"
  shows "load (fold (\<lambda>p f. final (save p f)) (ps @ [st]) f) = Inr st"
  using state_store.last_put_fetched [OF assms] by auto

definition sample_state :: persistent_state where
  "sample_state = \<lparr>ps_current_term = 3, ps_voted_for = Some ''node-2'',
     ps_log_entries = [\<lparr>entry_term = 1, command = ''SET a b''\<rparr>,
                       \<lparr>entry_term = 3, command = [quote, newline, escape]\<rparr>],
     ps_commit_index = 1\<rparr>"

lemma sample_state_storable: "storable sample_state"
  by (simp add: sample_state_def storable_def persistable_def valid_log_def last_index_of_def
      log_terms_def log_max_size_def)

theorem last_saved_state_is_loaded_witness:
  "load (fold (\<lambda>p f. final (save p f)) ([] @ [sample_state])
     \<lparr>contents = None, readable = True, writable = True, capacity = None\<rparr>) = Inr sample_state"
  by (rule last_saved_state_is_loaded) (simp_all add: healthy_def sample_state_storable)

text \<open>
  C21: A save that is cut off, by a full disk or by a crash between truncating and flushing, never
  goes unnoticed as a different state: whatever prefix of the text reached the file, loading it
  either throws or returns the very state that was being saved.
\<close>

theorem torn_write_never_loads_another_state:
  assumes "storable st" and "k \<le> length (state_text st)"
    and "load (f\<lparr>contents := Some (take k (state_text st))\<rparr>) = Inr st'"
  shows "st' = st"
  using assms parse_state_prefix [OF _ _ take_is_prefix]
  by (auto simp: load_def storable_def validate_state_iff split: if_splits)

theorem torn_write_never_loads_another_state_witness:
  "\<exists>st'. load \<lparr>contents = Some (take (length (state_text sample_state)) (state_text sample_state)),
      readable = True, writable = True, capacity = None\<rparr> = Inr st' \<and> st' = sample_state"
proof -
  let ?f = "\<lparr>contents = None, readable = True, writable = True, capacity = None\<rparr>"
  have l: "load (?f\<lparr>contents := Some (take (length (state_text sample_state)) (state_text sample_state))\<rparr>)
      = Inr sample_state"
    using load_healthy [of ?f sample_state] sample_state_storable by (simp add: healthy_def)
  from torn_write_never_loads_another_state [OF sample_state_storable order_refl l] l
  show ?thesis by simp
qed

text \<open>
  C22: A state that breaks the invariants (commit index beyond the log, empty vote, a zero,
  decreasing or future term, an empty command) is rejected before the file is touched, with an
  invalid-argument exception; and no file content whatever makes \<^verbatim>\<open>load\<close> return such a state.
\<close>

theorem storage_only_holds_valid_states:
  "(persistable st \<or> (\<exists>m. save st f = (Inl (InvalidArgument m), f))) \<and>
   (case load f of Inr st' \<Rightarrow> persistable st' | Inl e \<Rightarrow> True)"
proof
  show "persistable st \<or> (\<exists>m. save st f = (Inl (InvalidArgument m), f))"
    using validate_state_iff [of st]
    by (auto simp: save_def validate_state_def split: if_splits option.splits)
  have "load f = Inr st' \<Longrightarrow> persistable st'" for st'
    by (auto simp: load_def parse_state_def Let_def bind_exc_Inr_iff validate_state_iff
        split: option.splits if_splits)
  then show "case load f of Inr st' \<Rightarrow> persistable st' | Inl e \<Rightarrow> True"
    by (simp split: sum.split)
qed

end
