(* ===== verification/Raft_Core.thy ===== *)
theory Raft_Core
  imports Key_Value_Store Raft_Messages Raft_Storage
begin

text \<open>
  \<^verbatim>\<open>src/src/raft_core.cpp\<close>: the class \<^verbatim>\<open>RaftCore\<close>.  The object is a record with the members of the
  class, in their order, and one more field \<open>disk\<close> for the file at \<^verbatim>\<open>storage_path_\<close>, which the
  member functions reach through \<^verbatim>\<open>FileRaftStorage\<close>.  A member function that can throw is an
  operation \<open>(exc + 'a) \<times> 's\<close> of the prelude; the assignments made before a throw persist in the
  object, as in C++.
\<close>

section \<open>What the standard library supplies\<close>

text \<open>
  Three parts of the standard library whose results the standard leaves open are parameters:
  the engine \<^verbatim>\<open>mt19937_64\<close> built from a seed, the draw of \<^verbatim>\<open>uniform_int_distribution\<close> from an
  engine, and the order in which an \<^verbatim>\<open>unordered_set\<close> iterates over inserted strings.
\<close>

record 'g std_lib =
  seed_engine :: "u64 \<Rightarrow> 'g"
  draw_uniform :: "u64 \<Rightarrow> u64 \<Rightarrow> 'g \<Rightarrow> u64 \<times> 'g"
  set_order :: "string list \<Rightarrow> string list"

text \<open>Their documented behaviour, a hypothesis of the theorems that need it.\<close>

definition draws_in_range :: "'g std_lib \<Rightarrow> bool" where
  "draws_in_range lib \<longleftrightarrow>
     (\<forall>lo hi g. lo \<le> hi \<longrightarrow> lo \<le> fst (draw_uniform lib lo hi g) \<and> fst (draw_uniform lib lo hi g) \<le> hi)"

definition iterates_once :: "'g std_lib \<Rightarrow> bool" where
  "iterates_once lib \<longleftrightarrow>
     (\<forall>xs. distinct xs \<longrightarrow> distinct (set_order lib xs) \<and> set (set_order lib xs) = set xs)"

section \<open>The object\<close>

record 'g raft_core =
  node_id :: string
  storage_path :: string
  cluster_members :: "string list"
  log_entries :: "log_entry list"
  commit_index :: u64
  last_applied :: u64
  applied_commands :: "string list"
  key_value_store :: kv_store
  role :: node_role
  current_term :: u64
  voted_for :: "string option"
  leader_id :: "string option"
  votes_received :: "string set"
  current_time_ms :: u64
  min_election_timeout_ms :: u64
  max_election_timeout_ms :: u64
  election_timeout_ms :: u64
  election_deadline_ms :: u64
  random_engine :: 'g
  pending_request_vote_actions :: "request_vote_action list"
  pending_append_entries_actions :: "append_entries_action list"
  next_index :: "string \<rightharpoonup> u64"
  match_index :: "string \<rightharpoonup> u64"
  disk :: state_file

text \<open>\<open>cluster_members\<close> is the set in the order in which it is iterated over.\<close>

section \<open>Queries\<close>

definition last_log_index :: "'g raft_core \<Rightarrow> u64" where
  "last_log_index s = last_index_of (log_entries s)"

definition last_log_term :: "'g raft_core \<Rightarrow> u64" where
  "last_log_term s = last_term_of (log_entries s)"

definition cluster_size :: "'g raft_core \<Rightarrow> nat" where
  "cluster_size s = length (cluster_members s)"

definition majority_size :: "'g raft_core \<Rightarrow> nat" where
  "majority_size s = cluster_size s div 2 + 1"

definition vote_count :: "'g raft_core \<Rightarrow> nat" where
  "vote_count s = card (votes_received s)"

definition next_index_for :: "string \<Rightarrow> 'g raft_core \<Rightarrow> exc + u64" where
  "next_index_for follower s =
     (if role s \<noteq> Leader then Inl (LogicError ''Only a leader has next_index values'')
      else (case next_index s follower of
              None \<Rightarrow> Inl (InvalidArgument ''next_index requested for unknown follower'')
            | Some i \<Rightarrow> Inr i))"

definition match_index_for :: "string \<Rightarrow> 'g raft_core \<Rightarrow> exc + u64" where
  "match_index_for follower s =
     (if role s \<noteq> Leader then Inl (LogicError ''Only a leader has match_index values'')
      else (case match_index s follower of
              None \<Rightarrow> Inl (InvalidArgument ''match_index requested for unknown follower'')
            | Some i \<Rightarrow> Inr i))"

definition election_timeout_expired :: "'g raft_core \<Rightarrow> bool" where
  "election_timeout_expired s \<longleftrightarrow>
     role s \<noteq> Leader \<and> election_deadline_ms s \<le> current_time_ms s"

definition candidate_log_is_up_to_date :: "'g raft_core \<Rightarrow> u64 \<Rightarrow> u64 \<Rightarrow> bool" where
  "candidate_log_is_up_to_date s candidate_last_log_index candidate_last_log_term =
     (if last_log_term s < candidate_last_log_term then True
      else if candidate_last_log_term < last_log_term s then False
      else last_log_index s \<le> candidate_last_log_index)"

definition previous_log_position_matches :: "'g raft_core \<Rightarrow> u64 \<Rightarrow> u64 \<Rightarrow> exc + bool" where
  "previous_log_position_matches s index trm =
     (if index = 0 then Inr (trm = 0)
      else if last_log_index s < index then Inr False
      else bind_exc (vec_at (log_entries s) (index - 1)) (\<lambda>e. Inr (entry_term e = trm)))"

section \<open>Persistence\<close>

definition persistent_part :: "'g raft_core \<Rightarrow> persistent_state" where
  "persistent_part s =
     \<lparr>ps_current_term = current_term s, ps_voted_for = voted_for s,
      ps_log_entries = log_entries s, ps_commit_index = commit_index s\<rparr>"

definition persist_state :: "('g raft_core, unit) op" where
  "persist_state s =
     (if storage_path s = [] then (Inr (), s)
      else (case file_raft_storage (storage_path s) of
              Inl e \<Rightarrow> (Inl e, s)
            | Inr _ \<Rightarrow> (case save (persistent_part s) (disk s) of (r, d) \<Rightarrow> (r, s\<lparr>disk := d\<rparr>))))"

definition restore_persistent_state :: "('g raft_core, unit) op" where
  "restore_persistent_state s =
     (if storage_path s = [] then (Inr (), s)
      else (case file_raft_storage (storage_path s) of
              Inl e \<Rightarrow> (Inl e, s)
            | Inr _ \<Rightarrow>
                (if \<not> file_exists (disk s) then (Inr (), s)
                 else (case load (disk s) of
                         Inl e \<Rightarrow> (Inl e, s)
                       | Inr st \<Rightarrow> (Inr (), s\<lparr>
                           current_term := ps_current_term st,
                           voted_for := ps_voted_for st,
                           log_entries := ps_log_entries st,
                           commit_index := ps_commit_index st,
                           role := Follower,
                           leader_id := None,
                           votes_received := {},
                           next_index := Map.empty,
                           match_index := Map.empty,
                           pending_request_vote_actions := [],
                           pending_append_entries_actions := []\<rparr>)))))"

section \<open>Time\<close>

definition advance_time :: "u64 \<Rightarrow> 'g raft_core \<Rightarrow> 'g raft_core" where
  "advance_time elapsed_ms s = s\<lparr>current_time_ms := current_time_ms s + elapsed_ms\<rparr>"

definition reset_election_deadline :: "'g std_lib \<Rightarrow> 'g raft_core \<Rightarrow> 'g raft_core" where
  "reset_election_deadline lib s =
     (case draw_uniform lib (min_election_timeout_ms s) (max_election_timeout_ms s) (random_engine s) of
        (timeout, engine) \<Rightarrow>
          s\<lparr>random_engine := engine,
            election_timeout_ms := timeout,
            election_deadline_ms := current_time_ms s + timeout\<rparr>)"

section \<open>Applying committed entries\<close>

function apply_committed_entries :: "('g raft_core, unit) op" where
  "apply_committed_entries s =
     (if last_applied s < commit_index s then
        (case vec_at (log_entries s) (last_applied s) of
           Inl e \<Rightarrow> (Inl e, s)
         | Inr entry \<Rightarrow>
             (case (if is_key_value_command (command entry)
                    then kv_apply (command entry) (key_value_store s)
                    else Inr (key_value_store s)) of
                Inl e \<Rightarrow> (Inl e, s)
              | Inr kv \<Rightarrow> apply_committed_entries
                  (s\<lparr>key_value_store := kv,
                     applied_commands := applied_commands s @ [command entry],
                     last_applied := last_applied s + 1\<rparr>)))
      else (Inr (), s))"
  by pat_completeness auto
termination
proof (relation "measure (\<lambda>s. unat (commit_index s - last_applied s))")
  fix s :: "'g raft_core" and entry :: log_entry and kv
  assume "last_applied s < commit_index s"
  then have "unat (commit_index s - (last_applied s + 1)) < unat (commit_index s - last_applied s)"
    by unat_arith
  then show "(s\<lparr>key_value_store := kv, applied_commands := applied_commands s @ [command entry],
      last_applied := last_applied s + 1\<rparr>, s) \<in> measure (\<lambda>s. unat (commit_index s - last_applied s))"
    by simp
qed simp

declare apply_committed_entries.simps [simp del]

section \<open>Building requests\<close>

definition make_request_vote_request :: "'g raft_core \<Rightarrow> exc + request_vote_request" where
  "make_request_vote_request s =
     (if role s \<noteq> Candidate then Inl (LogicError ''Only a candidate can create a vote request'')
      else Inr \<lparr>rv_term = current_term s, candidate_id = node_id s,
                rv_last_log_index = last_log_index s, rv_last_log_term = last_log_term s\<rparr>)"

definition make_heartbeat_request :: "'g raft_core \<Rightarrow> exc + append_entries_request" where
  "make_heartbeat_request s =
     (if role s \<noteq> Leader then Inl (LogicError ''Only a leader can create a heartbeat'')
      else Inr \<lparr>ae_term = current_term s, ae_leader_id = node_id s,
                prev_log_index = last_log_index s, prev_log_term = last_log_term s,
                entries = [], leader_commit = commit_index s\<rparr>)"

text \<open>
  The loop that copies the entries from \<open>i\<close> to \<open>final_index\<close>.  It stops when \<open>i\<close> passes
  \<open>final_index\<close>; the counter cannot wrap around before, since no vector has \<open>2 ^ 64 - 1\<close> elements.
\<close>

function collect_entries :: "log_entry list \<Rightarrow> u64 \<Rightarrow> u64 \<Rightarrow> exc + log_entry list" where
  "collect_entries es i final_index =
     (if final_index < i then Inr []
      else bind_exc (vec_at es (i - 1))
        (\<lambda>e. bind_exc (if i = final_index then Inr [] else collect_entries es (i + 1) final_index)
          (\<lambda>rest. Inr (e # rest))))"
  by pat_completeness auto
termination
proof (relation "measure (\<lambda>(es, i, final_index). unat (final_index - i))")
  fix es :: "log_entry list" and i final_index :: u64
  assume "\<not> final_index < i" and "i \<noteq> final_index"
  then have "unat (final_index - (i + 1)) < unat (final_index - i)" by unat_arith
  then show "((es, i + 1, final_index), (es, i, final_index)) \<in>
      measure (\<lambda>(es, i, final_index). unat (final_index - i))"
    by simp
qed simp

declare collect_entries.simps [simp del]

definition make_append_entries_request :: "'g raft_core \<Rightarrow> string \<Rightarrow> exc + append_entries_request" where
  "make_append_entries_request s follower =
     (if role s \<noteq> Leader
        then Inl (LogicError ''Only a leader can create AppendEntries requests'')
      else (case next_index s follower of
          None \<Rightarrow> Inl (InvalidArgument ''AppendEntries requested for unknown follower'')
        | Some follower_next_index \<Rightarrow>
            (let prev = follower_next_index - 1 in
             bind_exc (if prev = 0 then Inr 0
                       else bind_exc (vec_at (log_entries s) (prev - 1)) (\<lambda>e. Inr (entry_term e)))
               (\<lambda>prev_term.
             bind_exc (collect_entries (log_entries s) follower_next_index (last_log_index s))
               (\<lambda>es.
             Inr \<lparr>ae_term = current_term s, ae_leader_id = node_id s,
                  prev_log_index = prev, prev_log_term = prev_term,
                  entries = es, leader_commit = commit_index s\<rparr>)))))"

section \<open>Queues\<close>

definition queue_request_vote_actions :: "('g raft_core, unit) op" where
  "queue_request_vote_actions s =
     (let s1 = s\<lparr>pending_request_vote_actions := []\<rparr> in
      case make_request_vote_request s1 of
        Inl e \<Rightarrow> (Inl e, s1)
      | Inr request \<Rightarrow>
          (Inr (), s1\<lparr>pending_request_vote_actions :=
             map (\<lambda>m. \<lparr>rv_target = m, rv_request = request\<rparr>)
               (filter (\<lambda>m. m \<noteq> node_id s) (cluster_members s))\<rparr>))"

fun push_append_entries_actions :: "string list \<Rightarrow> ('g raft_core, unit) op" where
  "push_append_entries_actions [] s = (Inr (), s)"
| "push_append_entries_actions (m # ms) s =
     (if m = node_id s then push_append_entries_actions ms s
      else (case make_append_entries_request s m of
              Inl e \<Rightarrow> (Inl e, s)
            | Inr request \<Rightarrow> push_append_entries_actions ms
                (s\<lparr>pending_append_entries_actions := pending_append_entries_actions s @
                     [\<lparr>ae_target = m, ae_request = request\<rparr>]\<rparr>)))"

definition queue_heartbeat_actions :: "('g raft_core, unit) op" where
  "queue_heartbeat_actions s =
     (if role s \<noteq> Leader
        then (Inl (LogicError ''Only a leader can queue AppendEntries actions''), s)
      else push_append_entries_actions (cluster_members s) (s\<lparr>pending_append_entries_actions := []\<rparr>))"

definition take_request_vote_actions :: "'g raft_core \<Rightarrow> request_vote_action list \<times> 'g raft_core" where
  "take_request_vote_actions s =
     (pending_request_vote_actions s, s\<lparr>pending_request_vote_actions := []\<rparr>)"

definition take_append_entries_actions :: "'g raft_core \<Rightarrow> append_entries_action list \<times> 'g raft_core" where
  "take_append_entries_actions s =
     (pending_append_entries_actions s, s\<lparr>pending_append_entries_actions := []\<rparr>)"

section \<open>Changing roles\<close>

definition become_follower :: "u64 \<Rightarrow> ('g raft_core, unit) op" where
  "become_follower new_term s =
     (if new_term \<le> current_term s
        then (Inl (LogicError ''Cannot become follower using an old or equal term''), s)
      else persist_state (s\<lparr>
        current_term := new_term,
        role := Follower,
        voted_for := None,
        leader_id := None,
        votes_received := {},
        pending_request_vote_actions := [],
        pending_append_entries_actions := [],
        next_index := Map.empty,
        match_index := Map.empty\<rparr>))"

definition initialize_leader_replication_state :: "'g raft_core \<Rightarrow> 'g raft_core" where
  "initialize_leader_replication_state s =
     (let others = filter (\<lambda>m. m \<noteq> node_id s) (cluster_members s) in
      s\<lparr>next_index := map_of (map (\<lambda>m. (m, last_log_index s + 1)) others),
        match_index := map_of (map (\<lambda>m. (m, 0)) others)\<rparr>)"

text \<open>The block that \<^verbatim>\<open>start_election\<close> and \<^verbatim>\<open>receive_vote\<close> run on a majority.\<close>

definition become_leader :: "('g raft_core, unit) op" where
  "become_leader s =
     queue_heartbeat_actions (initialize_leader_replication_state (s\<lparr>
       role := Leader,
       leader_id := Some (node_id s),
       pending_request_vote_actions := []\<rparr>))"

section \<open>Elections\<close>

definition start_election :: "'g std_lib \<Rightarrow> ('g raft_core, unit) op" where
  "start_election lib s =
     bind_op persist_state (\<lambda>_.
     bind_op queue_request_vote_actions (\<lambda>_ s.
       if majority_size s \<le> vote_count s then become_leader s else (Inr (), s)))
     (reset_election_deadline lib (s\<lparr>
        current_term := current_term s + 1,
        role := Candidate,
        leader_id := None,
        pending_append_entries_actions := [],
        next_index := Map.empty,
        match_index := Map.empty,
        voted_for := Some (node_id s),
        votes_received := {node_id s}\<rparr>))"

definition tick :: "'g std_lib \<Rightarrow> u64 \<Rightarrow> ('g raft_core, bool) op" where
  "tick lib elapsed_ms s =
     (let s1 = advance_time elapsed_ms s in
      if \<not> election_timeout_expired s1 then (Inr False, s1)
      else bind_op (start_election lib) (\<lambda>_. return_op True) s1)"

definition handle_request_vote ::
    "'g std_lib \<Rightarrow> request_vote_request \<Rightarrow> ('g raft_core, request_vote_response) op" where
  "handle_request_vote lib request s =
     (if candidate_id request \<notin> set (cluster_members s)
        then (Inr \<lparr>rvr_term = current_term s, vote_granted = False\<rparr>, s)
      else if rv_term request < current_term s
        then (Inr \<lparr>rvr_term = current_term s, vote_granted = False\<rparr>, s)
      else bind_op
        (if current_term s < rv_term request then become_follower (rv_term request) else return_op ())
        (\<lambda>_ s.
           let response = \<lparr>rvr_term = current_term s, vote_granted = False\<rparr> in
           if voted_for s \<noteq> None \<and> voted_for s \<noteq> Some (candidate_id request)
             then (Inr response, s)
           else if \<not> candidate_log_is_up_to_date s (rv_last_log_index request) (rv_last_log_term request)
             then (Inr response, s)
           else bind_op persist_state (\<lambda>_. return_op (response\<lparr>vote_granted := True\<rparr>))
             (reset_election_deadline lib (s\<lparr>voted_for := Some (candidate_id request)\<rparr>)))
        s)"

definition receive_vote :: "string \<Rightarrow> request_vote_response \<Rightarrow> ('g raft_core, unit) op" where
  "receive_vote voter response s =
     (if voter \<notin> set (cluster_members s)
        then (Inl (InvalidArgument ''Received a vote from an unknown cluster member''), s)
      else if current_term s < rvr_term response then become_follower (rvr_term response) s
      else if rvr_term response < current_term s then (Inr (), s)
      else if role s \<noteq> Candidate then (Inr (), s)
      else if \<not> vote_granted response then (Inr (), s)
      else
        (let s1 = s\<lparr>votes_received := insert voter (votes_received s)\<rparr> in
         if majority_size s1 \<le> vote_count s1 then become_leader s1 else (Inr (), s1)))"

section \<open>Committing on the leader\<close>

fun count_replicas :: "string \<Rightarrow> (string \<rightharpoonup> u64) \<Rightarrow> u64 \<Rightarrow> string list \<Rightarrow> nat \<Rightarrow> exc + nat" where
  "count_replicas self matches candidate_index [] n = Inr n"
| "count_replicas self matches candidate_index (m # ms) n =
     (if m = self then count_replicas self matches candidate_index ms n
      else (case matches m of
              None \<Rightarrow> Inl (LogicError ''Leader commit calculation is missing a follower'')
            | Some i \<Rightarrow> count_replicas self matches candidate_index ms
                (if candidate_index \<le> i then n + 1 else n)))"

text \<open>
  The backward search of \<^verbatim>\<open>advance_commit_index\<close>: the index it commits, or \<open>None\<close> when the loop
  runs to its end.
\<close>

function search_commit_index :: "'g raft_core \<Rightarrow> u64 \<Rightarrow> exc + u64 option" where
  "search_commit_index s candidate_index =
     (if commit_index s < candidate_index then
        bind_exc (vec_at (log_entries s) (candidate_index - 1)) (\<lambda>e.
          if entry_term e \<noteq> current_term s then search_commit_index s (candidate_index - 1)
          else bind_exc (count_replicas (node_id s) (match_index s) candidate_index (cluster_members s) 1)
            (\<lambda>n. if majority_size s \<le> n then Inr (Some candidate_index)
                 else search_commit_index s (candidate_index - 1)))
      else Inr None)"
  by pat_completeness auto
termination
proof (relation "measure (\<lambda>(s, i). unat i)")
  fix s :: "'g raft_core" and i :: u64
  assume "commit_index s < i"
  then have "unat (i - 1) < unat i" by unat_arith
  then show "((s, i - 1), (s, i)) \<in> measure (\<lambda>(s, i). unat i)"
    and "((s, i - 1), (s, i)) \<in> measure (\<lambda>(s, i). unat i)" by simp_all
qed simp

declare search_commit_index.simps [simp del]

definition advance_commit_index :: "('g raft_core, unit) op" where
  "advance_commit_index s =
     (if role s \<noteq> Leader then (Inr (), s)
      else (case search_commit_index s (last_log_index s) of
              Inl e \<Rightarrow> (Inl e, s)
            | Inr None \<Rightarrow> (Inr (), s)
            | Inr (Some i) \<Rightarrow>
                bind_op apply_committed_entries (\<lambda>_. persist_state) (s\<lparr>commit_index := i\<rparr>)))"

definition append_command :: "string \<Rightarrow> ('g raft_core, u64) op" where
  "append_command cmd s =
     (if role s \<noteq> Leader then (Inl (LogicError ''Only a leader can append client commands''), s)
      else if cmd = [] then (Inl (InvalidArgument ''A client command cannot be empty''), s)
      else
        bind_op advance_commit_index (\<lambda>_.
        bind_op persist_state (\<lambda>_.
        bind_op queue_heartbeat_actions (\<lambda>_ s. (Inr (last_log_index s), s))))
        (s\<lparr>log_entries := log_entries s @ [\<lparr>entry_term = current_term s, command = cmd\<rparr>]\<rparr>))"

definition receive_append_entries_response ::
    "string \<Rightarrow> append_entries_response \<Rightarrow> ('g raft_core, unit) op" where
  "receive_append_entries_response follower response s =
     (if follower \<notin> set (cluster_members s) \<or> follower = node_id s
        then (Inl (InvalidArgument ''Received AppendEntries response from unknown follower''), s)
      else if current_term s < aer_term response then become_follower (aer_term response) s
      else if aer_term response < current_term s then (Inr (), s)
      else if role s \<noteq> Leader then (Inr (), s)
      else (case (next_index s follower, match_index s follower) of
          (Some next, Some matched) \<Rightarrow>
            (if \<not> success response then
               (Inr (), if 1 < next then s\<lparr>next_index := (next_index s)(follower \<mapsto> next - 1)\<rparr> else s)
             else if last_log_index s < matched_index response
               then (Inl (InvalidArgument ''Follower matched index exceeds leader log''), s)
             else
               (let s1 = (if matched < matched_index response
                          then s\<lparr>match_index := (match_index s)(follower \<mapsto> matched_index response)\<rparr>
                          else s);
                    confirmed = matched_index response + 1;
                    s2 = (if next < confirmed
                          then s1\<lparr>next_index := (next_index s1)(follower \<mapsto> confirmed)\<rparr>
                          else s1)
                in advance_commit_index s2))
        | _ \<Rightarrow> (Inl (LogicError ''Leader replication state is missing a follower''), s)))"

section \<open>Replication on a follower\<close>

text \<open>The validation loop over the incoming entries.\<close>

fun entries_acceptable :: "u64 \<Rightarrow> u64 \<Rightarrow> log_entry list \<Rightarrow> bool" where
  "entries_acceptable request_term previous [] = True"
| "entries_acceptable request_term previous (e # es) =
     (if entry_term e = 0 then False
      else if command e = [] then False
      else if request_term < entry_term e then False
      else if entry_term e < previous then False
      else entries_acceptable request_term (entry_term e) es)"

text \<open>
  The loop that compares incoming entries with the log, from \<^verbatim>\<open>incoming_offset\<close> on: \<open>None\<close> when a
  committed entry conflicts, otherwise the log, cut at the first conflict if there is one, and
  the entries still to be appended.
\<close>

fun reconcile :: "u64 \<Rightarrow> u64 \<Rightarrow> log_entry list \<Rightarrow> nat \<Rightarrow> log_entry list \<Rightarrow>
    (log_entry list \<times> log_entry list) option" where
  "reconcile commit prev es offset [] = Some (es, [])"
| "reconcile commit prev es offset (incoming # rest) =
     (let logical_index = prev + of_nat offset + 1;
          vector_index = unat (logical_index - 1)
      in if length es \<le> vector_index then Some (es, incoming # rest)
         else if entry_term (es ! vector_index) \<noteq> entry_term incoming then
           (if logical_index \<le> commit then None else Some (take vector_index es, incoming # rest))
         else reconcile commit prev es (offset + 1) rest)"

text \<open>The role change of a message from a leader of the same term.\<close>

definition follow_leader :: "'g raft_core \<Rightarrow> 'g raft_core" where
  "follow_leader s =
     (if role s \<noteq> Follower then s\<lparr>
        role := Follower,
        votes_received := {},
        pending_request_vote_actions := [],
        pending_append_entries_actions := [],
        next_index := Map.empty,
        match_index := Map.empty\<rparr> else s)"

text \<open>
  The end of a successful request: commit what the leader has committed of the verified part,
  save, and answer.
\<close>

definition commit_and_reply ::
    "append_entries_request \<Rightarrow> ('g raft_core, append_entries_response) op" where
  "commit_and_reply request s =
     (let matched = prev_log_index request + of_nat (length (entries request));
          highest = (if leader_commit request < matched then leader_commit request else matched);
          response = \<lparr>aer_term = current_term s, success = True, matched_index = matched\<rparr>
      in bind_op
           (if commit_index s < leader_commit request \<and> commit_index s < highest
            then (\<lambda>s. apply_committed_entries (s\<lparr>commit_index := highest\<rparr>)) else return_op ())
           (\<lambda>_. bind_op persist_state (\<lambda>_. return_op response)) s)"

definition handle_append_entries ::
    "'g std_lib \<Rightarrow> append_entries_request \<Rightarrow> ('g raft_core, append_entries_response) op" where
  "handle_append_entries lib request s =
     (let reject = (\<lambda>s. \<lparr>aer_term = current_term s, success = False, matched_index = 0\<rparr>) in
      if ae_leader_id request \<notin> set (cluster_members s) then (Inr (reject s), s)
      else if ae_term request < current_term s then (Inr (reject s), s)
      else bind_op
        (if current_term s < ae_term request then become_follower (ae_term request)
         else modify_op follow_leader)
        (\<lambda>_ s.
           let s = reset_election_deadline lib (s\<lparr>leader_id := Some (ae_leader_id request)\<rparr>) in
           case previous_log_position_matches s (prev_log_index request) (prev_log_term request) of
             Inl e \<Rightarrow> (Inl e, s)
           | Inr False \<Rightarrow> (Inr (reject s), s)
           | Inr True \<Rightarrow>
               (if \<not> entries_acceptable (ae_term request) (prev_log_term request) (entries request)
                  then (Inr (reject s), s)
                else (case reconcile (commit_index s) (prev_log_index request) (log_entries s) 0
                             (entries request) of
                        None \<Rightarrow> (Inr (reject s), s)
                      | Some (kept, rest) \<Rightarrow>
                          commit_and_reply request (s\<lparr>log_entries := kept @ rest\<rparr>))))
        s)"

section \<open>Construction\<close>

fun raft_log_message :: "log_fault \<Rightarrow> string" where
  "raft_log_message Zero_Term = ''A log entry must have a non-zero term''"
| "raft_log_message Empty_Command = ''A log entry command cannot be empty''"
| "raft_log_message Decreasing_Term = ''Log entry terms cannot decrease''"
| "raft_log_message Term_Beyond_Current = ''Log entry term cannot exceed the node's current term''"

fun insert_members :: "string list \<Rightarrow> string list \<Rightarrow> exc + string list" where
  "insert_members inserted [] = Inr inserted"
| "insert_members inserted (m # ms) =
     (if m = [] then Inl (InvalidArgument ''Cluster member ID cannot be empty'')
      else if m \<in> set inserted then Inl (InvalidArgument ''Cluster member IDs must be unique'')
      else insert_members (inserted @ [m]) ms)"

definition check_configuration :: "string \<Rightarrow> u64 \<Rightarrow> u64 \<Rightarrow> string list \<Rightarrow> exc + string list" where
  "check_configuration self min_timeout max_timeout members =
     (if self = [] then Inl (InvalidArgument ''Node ID cannot be empty'')
      else if min_timeout = 0
        then Inl (InvalidArgument ''Minimum election timeout must be greater than zero'')
      else if max_timeout < min_timeout
        then Inl (InvalidArgument ''Maximum election timeout cannot be less than minimum'')
      else if members = [] \<or> length members mod 2 = 0
        then Inl (InvalidArgument ''Cluster must contain a non-zero odd number of nodes'')
      else bind_exc (insert_members [] members)
        (\<lambda>inserted.
           if self \<notin> set inserted
             then Inl (InvalidArgument ''Cluster membership must contain this node's ID'')
           else Inr inserted))"

definition check_recovered :: "('g raft_core, unit) op" where
  "check_recovered s =
     (if voted_for s \<noteq> None \<and> the (voted_for s) \<notin> set (cluster_members s)
        then (Inl (InvalidArgument ''Persisted vote refers to an unknown cluster member''), s)
      else if last_log_index s < commit_index s
        then (Inl (InvalidArgument ''Recovered commit index cannot exceed recovered log''), s)
      else (case check_log (current_term s) 0 (log_entries s) of
              Some fault \<Rightarrow> (Inl (InvalidArgument (raft_log_message fault)), s)
            | None \<Rightarrow> (Inr (), s)))"

text \<open>The members' initial values, from the initialiser list and the class definition.\<close>

definition initial_core ::
    "'g std_lib \<Rightarrow> string \<Rightarrow> string list \<Rightarrow> u64 \<Rightarrow> log_entry list \<Rightarrow> u64 \<Rightarrow> u64 \<Rightarrow> u64 \<Rightarrow> string \<Rightarrow>
     state_file \<Rightarrow> 'g raft_core" where
  "initial_core lib self members initial_term initial_log min_timeout max_timeout seed path f =
     \<lparr>node_id = self, storage_path = path, cluster_members = members,
      log_entries = initial_log, commit_index = 0, last_applied = 0,
      applied_commands = [], key_value_store = empty_store,
      role = Follower, current_term = initial_term, voted_for = None, leader_id = None,
      votes_received = {}, current_time_ms = 0,
      min_election_timeout_ms = min_timeout, max_election_timeout_ms = max_timeout,
      election_timeout_ms = 0, election_deadline_ms = 0,
      random_engine = seed_engine lib seed,
      pending_request_vote_actions = [], pending_append_entries_actions = [],
      next_index = Map.empty, match_index = Map.empty, disk = f\<rparr>"

text \<open>
  \<^verbatim>\<open>RaftCore::RaftCore\<close>: the object, or the exception; and the file as the constructor leaves it.
\<close>

definition new_raft_core ::
    "'g std_lib \<Rightarrow> string \<Rightarrow> string list \<Rightarrow> u64 \<Rightarrow> log_entry list \<Rightarrow> u64 \<Rightarrow> u64 \<Rightarrow> u64 \<Rightarrow> string \<Rightarrow>
     state_file \<Rightarrow> (exc + 'g raft_core) \<times> state_file" where
  "new_raft_core lib self members initial_term initial_log min_timeout max_timeout seed path f =
     (case check_configuration self min_timeout max_timeout members of
        Inl e \<Rightarrow> (Inl e, f)
      | Inr inserted \<Rightarrow>
          (case bind_op restore_persistent_state (\<lambda>_.
                bind_op check_recovered (\<lambda>_.
                bind_op apply_committed_entries (\<lambda>_ s.
                  persist_state (reset_election_deadline lib s))))
                (initial_core lib self (set_order lib inserted) initial_term initial_log
                   min_timeout max_timeout seed path f) of
             (Inl e, s) \<Rightarrow> (Inl e, disk s)
           | (Inr _, s) \<Rightarrow> (Inr s, disk s)))"

end
