(* ===== verification/Raft_Core_Specs.thy ===== *)
theory Raft_Core_Specs
  imports Raft_Core
begin

text \<open>
  What the loops and helpers of \<^verbatim>\<open>RaftCore\<close> compute, as closed expressions: saving, applying
  committed entries, building requests, the search for a new commit index, and the comparison
  of incoming entries with the log.  The theories above reason with these equations and never
  unfold a loop again.
\<close>

section \<open>Indexes\<close>

lemma unat_length: "n \<le> log_max_size \<Longrightarrow> unat (of_nat n :: u64) = n"
  using log_max_size_u64 [of n] by (simp add: unat_of_nat)

lemma log_max_size_small: "log_max_size < 2 ^ 63" "Suc log_max_size < 2 ^ 64"
  by (simp_all add: log_max_size_def)

lemma unat_last_index: "length es \<le> log_max_size \<Longrightarrow> unat (last_index_of es) = length es"
  by (simp add: last_index_of_def unat_length)

lemma unat_pred: "(i :: u64) \<noteq> 0 \<Longrightarrow> unat (i - 1) = unat i - 1"
  by unat_arith

lemma unat_Suc_less: "(i :: u64) < j \<Longrightarrow> unat (i + 1) = Suc (unat i)"
  by unat_arith

lemma unat_Suc_small: "unat (i :: u64) \<le> log_max_size \<Longrightarrow> unat (i + 1) = Suc (unat i)"
  by (subst unat_add_lem [THEN iffD1]) (simp_all add: log_max_size_def)

lemma unat_pos: "(i :: u64) \<noteq> 0 \<longleftrightarrow> 0 < unat i"
  by unat_arith

lemma unat_add_small:
  "unat (i :: u64) + n \<le> log_max_size \<Longrightarrow> unat (i + of_nat n) = unat i + n"
  using log_max_size_u64 [of "unat i + n"] log_max_size_u64 [of n]
  by (subst unat_add_lem [THEN iffD1]) (simp_all add: unat_of_nat)

text \<open>The term at a logical index, with the position before the first entry at index 0.\<close>

definition term_at :: "log_entry list \<Rightarrow> nat \<Rightarrow> u64" where
  "term_at es i = (if i = 0 then 0 else entry_term (es ! (i - 1)))"

lemma term_at_0 [simp]: "term_at es 0 = 0"
  by (simp add: term_at_def)

lemma term_at_Suc [simp]: "term_at es (Suc i) = entry_term (es ! i)"
  by (simp add: term_at_def)

lemma term_at_take: "i \<le> n \<Longrightarrow> term_at (take n es) i = term_at es i"
  by (cases i) simp_all

lemma term_at_append: "i \<le> length es \<Longrightarrow> term_at (es @ fs) i = term_at es i"
  by (cases i) (simp_all add: nth_append)

lemma last_term_of_term_at: "last_term_of es = term_at es (length es)"
  by (cases es rule: rev_cases) (simp_all add: last_term_of_def nth_append)

section \<open>Saving\<close>

definition can_persist :: "'g raft_core \<Rightarrow> bool" where
  "can_persist s \<longleftrightarrow>
     storage_path s = [] \<or> healthy (disk s) \<and> persistable (persistent_part s)"

definition saved :: "'g raft_core \<Rightarrow> 'g raft_core" where
  "saved s = (if storage_path s = [] then s
     else s\<lparr>disk := (disk s)\<lparr>contents := Some (state_text (persistent_part s))\<rparr>\<rparr>)"

lemma persist_state_saved: "can_persist s \<Longrightarrow> persist_state s = (Inr (), saved s)"
  by (auto simp: persist_state_def can_persist_def saved_def file_raft_storage_def save_healthy)

lemma persist_state_disk: "\<exists>d. final (persist_state s) = s\<lparr>disk := d\<rparr>"
proof (cases "storage_path s = []")
  case True
  then show ?thesis by (intro exI [of _ "disk s"]) (simp add: persist_state_def)
next
  case False
  then show ?thesis
    by (auto simp: persist_state_def file_raft_storage_def split: prod.splits)
qed

text \<open>Whatever saving does, it keeps every property that does not look at the disk.\<close>

lemma persist_state_keeps:
  assumes "\<And>d. Q (s\<lparr>disk := d\<rparr>)"
  shows "Q (final (persist_state s))"
  using persist_state_disk [of s] assms by auto

lemma saved_select [simp]:
  "node_id (saved s) = node_id s" "storage_path (saved s) = storage_path s"
  "cluster_members (saved s) = cluster_members s" "log_entries (saved s) = log_entries s"
  "commit_index (saved s) = commit_index s" "last_applied (saved s) = last_applied s"
  "applied_commands (saved s) = applied_commands s"
  "key_value_store (saved s) = key_value_store s" "role (saved s) = role s"
  "current_term (saved s) = current_term s" "voted_for (saved s) = voted_for s"
  "leader_id (saved s) = leader_id s" "votes_received (saved s) = votes_received s"
  "current_time_ms (saved s) = current_time_ms s"
  "min_election_timeout_ms (saved s) = min_election_timeout_ms s"
  "max_election_timeout_ms (saved s) = max_election_timeout_ms s"
  "election_timeout_ms (saved s) = election_timeout_ms s"
  "election_deadline_ms (saved s) = election_deadline_ms s"
  "random_engine (saved s) = random_engine s"
  "pending_request_vote_actions (saved s) = pending_request_vote_actions s"
  "pending_append_entries_actions (saved s) = pending_append_entries_actions s"
  "next_index (saved s) = next_index s" "match_index (saved s) = match_index s"
  by (simp_all add: saved_def)

section \<open>The deadline\<close>

lemma reset_election_deadline_shape:
  "\<exists>g t d. reset_election_deadline lib s =
     s\<lparr>random_engine := g, election_timeout_ms := t, election_deadline_ms := d\<rparr>"
  by (auto simp: reset_election_deadline_def split: prod.splits)

lemma reset_select [simp]:
  "node_id (reset_election_deadline lib s) = node_id s"
  "storage_path (reset_election_deadline lib s) = storage_path s"
  "cluster_members (reset_election_deadline lib s) = cluster_members s"
  "log_entries (reset_election_deadline lib s) = log_entries s"
  "commit_index (reset_election_deadline lib s) = commit_index s"
  "last_applied (reset_election_deadline lib s) = last_applied s"
  "applied_commands (reset_election_deadline lib s) = applied_commands s"
  "key_value_store (reset_election_deadline lib s) = key_value_store s"
  "role (reset_election_deadline lib s) = role s"
  "current_term (reset_election_deadline lib s) = current_term s"
  "voted_for (reset_election_deadline lib s) = voted_for s"
  "leader_id (reset_election_deadline lib s) = leader_id s"
  "votes_received (reset_election_deadline lib s) = votes_received s"
  "current_time_ms (reset_election_deadline lib s) = current_time_ms s"
  "min_election_timeout_ms (reset_election_deadline lib s) = min_election_timeout_ms s"
  "max_election_timeout_ms (reset_election_deadline lib s) = max_election_timeout_ms s"
  "pending_request_vote_actions (reset_election_deadline lib s) = pending_request_vote_actions s"
  "pending_append_entries_actions (reset_election_deadline lib s) = pending_append_entries_actions s"
  "next_index (reset_election_deadline lib s) = next_index s"
  "match_index (reset_election_deadline lib s) = match_index s"
  "disk (reset_election_deadline lib s) = disk s"
  by (simp_all add: reset_election_deadline_def split: prod.splits)

section \<open>Applying committed entries\<close>

text \<open>The bookkeeping that \<open>apply_committed_entries\<close> keeps at every point of its loop.\<close>

definition journal_ok :: "'g raft_core \<Rightarrow> bool" where
  "journal_ok s \<longleftrightarrow>
     length (log_entries s) \<le> log_max_size \<and>
     unat (commit_index s) \<le> length (log_entries s) \<and>
     last_applied s \<le> commit_index s \<and>
     applied_commands s = map command (take (unat (last_applied s)) (log_entries s)) \<and>
     kv_replay (applied_commands s) = Inr (key_value_store s)"

text \<open>Every command that reaches the store is one that it accepts.\<close>

definition commands_ok :: "log_entry list \<Rightarrow> bool" where
  "commands_ok es \<longleftrightarrow>
     (\<forall>e \<in> set es. is_key_value_command (command e) \<longrightarrow> well_formed_command (command e))"

lemma commands_ok_append [simp]: "commands_ok (es @ fs) \<longleftrightarrow> commands_ok es \<and> commands_ok fs"
  by (auto simp: commands_ok_def)

lemma commands_ok_take [intro]: "commands_ok es \<Longrightarrow> commands_ok (take n es)"
  by (auto simp: commands_ok_def dest: in_set_takeD)

lemma commands_ok_Nil [simp]: "commands_ok []"
  by (simp add: commands_ok_def)

text \<open>One iteration: the command at \<open>last_applied\<close>, and the state after it.\<close>

lemma apply_entry_step:
  assumes "journal_ok s" and "last_applied s < commit_index s"
  defines "e \<equiv> log_entries s ! unat (last_applied s)"
  defines "r \<equiv> (if is_key_value_command (command e) then kv_apply (command e) (key_value_store s)
              else Inr (key_value_store s))"
  defines "t \<equiv> (\<lambda>kv. s\<lparr>key_value_store := kv, applied_commands := applied_commands s @ [command e],
              last_applied := last_applied s + 1\<rparr>)"
  shows "apply_committed_entries s =
      (case r of Inl x \<Rightarrow> (Inl x, s) | Inr kv \<Rightarrow> apply_committed_entries (t kv))"
    and "r = Inr kv \<Longrightarrow> journal_ok (t kv)"
proof -
  have la: "unat (last_applied s) < unat (commit_index s)" using assms(2) by (simp add: word_less_nat_alt)
  with assms(1) have i: "unat (last_applied s) < length (log_entries s)" by (simp add: journal_ok_def)
  then have "vec_at (log_entries s) (last_applied s) = Inr e" by (simp add: vec_at_def e_def)
  then show "apply_committed_entries s =
      (case r of Inl x \<Rightarrow> (Inl x, s) | Inr kv \<Rightarrow> apply_committed_entries (t kv))"
    using assms(2) by (subst apply_committed_entries.simps) (simp add: r_def t_def split: sum.split)
  assume r: "r = Inr kv"
  have replayed: "kv_replay (applied_commands s) = Inr (key_value_store s)"
    using assms(1) unfolding journal_ok_def by blast
  have n: "unat (last_applied s + 1) = Suc (unat (last_applied s))"
    using assms(2) by (rule unat_Suc_less)
  moreover have "last_applied s + 1 \<le> commit_index s"
    using la n by (simp add: word_le_nat_alt)
  moreover have "kv_replay (applied_commands s @ [command e]) = Inr kv"
    using r kv.replay_snoc [OF replayed, of "command e"] by (simp only: r_def)
  ultimately show "journal_ok (t kv)"
    using assms(1) i by (simp add: journal_ok_def t_def e_def take_Suc_conv_app_nth)
qed

text \<open>
  The loop as a whole: it changes the store, the journal and \<open>last_applied\<close> only, keeps the
  bookkeeping on both exits, never reads outside the log, and returns exactly when it has
  caught up; with well-formed commands it always does.
\<close>

lemma apply_committed_entries_induct:
  fixes s :: "'g raft_core"
  assumes ok: "journal_ok s"
    and base: "\<And>s. journal_ok s \<Longrightarrow> last_applied s = commit_index s \<Longrightarrow> P s (Inr ()) s"
    and fail: "\<And>s m. journal_ok s \<Longrightarrow> \<not> commands_ok (take (unat (commit_index s)) (log_entries s)) \<Longrightarrow>
                 P s (Inl (InvalidArgument m)) s"
    and step: "\<And>s kv c r t. journal_ok s \<Longrightarrow> last_applied s < last_applied s + 1 \<Longrightarrow>
        P (s\<lparr>key_value_store := kv, applied_commands := c, last_applied := last_applied s + 1\<rparr>) r t \<Longrightarrow>
        P s r t"
  shows "P s (fst (apply_committed_entries s)) (final (apply_committed_entries s))"
  using ok
proof (induction s rule: apply_committed_entries.induct)
  case (1 s)
  show ?case
  proof (cases "last_applied s < commit_index s")
    case False
    then show ?thesis
      using base [of s] "1.prems" by (subst (1 2) apply_committed_entries.simps) (auto simp: journal_ok_def)
  next
    case True
    define e where "e = log_entries s ! unat (last_applied s)"
    note st = apply_entry_step [OF "1.prems" True, folded e_def]
    have i: "unat (last_applied s) < length (log_entries s)"
      using True "1.prems" by (auto simp: journal_ok_def word_less_nat_alt)
    then have v: "vec_at (log_entries s) (last_applied s) = Inr e" by (simp add: vec_at_def e_def)
    show ?thesis
    proof (cases "if is_key_value_command (command e) then kv_apply (command e) (key_value_store s)
              else Inr (key_value_store s)")
      case (Inl x)
      then have k: "is_key_value_command (command e)" and a: "kv_apply (command e) (key_value_store s) = Inl x"
        by (auto split: if_splits)
      then obtain m where "x = InvalidArgument m"
        by (auto simp: kv_apply_def validate_key_def Let_def split: if_splits option.splits)
      moreover have "e \<in> set (take (unat (commit_index s)) (log_entries s))"
        using i True unfolding e_def by (auto simp: in_set_conv_nth word_less_nat_alt)
      then have "\<not> commands_ok (take (unat (commit_index s)) (log_entries s))"
        using k a kv_apply_accepts [of "command e" "key_value_store s"]
        by (auto simp: commands_ok_def)
      ultimately show ?thesis using st(1) Inl fail [OF "1.prems"] by simp
    next
      case (Inr kv)
      have "P (s\<lparr>key_value_store := kv, applied_commands := applied_commands s @ [command e],
              last_applied := last_applied s + 1\<rparr>)
          (fst (apply_committed_entries s)) (final (apply_committed_entries s))"
        using "1.IH" [OF True v Inr] st(2) [OF Inr] st(1) Inr by simp
      then show ?thesis using step [OF "1.prems"] True by (metis unat_Suc_less lessI word_less_nat_alt)
    qed
  qed
qed

lemma apply_committed_entries_result:
  assumes "journal_ok s"
  obtains kv c i r where
    "apply_committed_entries s = (r, s\<lparr>key_value_store := kv, applied_commands := c, last_applied := i\<rparr>)"
    and "journal_ok (s\<lparr>key_value_store := kv, applied_commands := c, last_applied := i\<rparr>)"
    and "last_applied s \<le> i"
    and "r = Inr () \<and> i = commit_index s \<or>
      (\<exists>m. r = Inl (InvalidArgument m)) \<and> \<not> commands_ok (take (unat (commit_index s)) (log_entries s))"
proof -
  let ?P = "\<lambda>s r t. \<exists>kv c i. t = s\<lparr>key_value_store := kv, applied_commands := c, last_applied := i\<rparr> \<and>
      journal_ok t \<and> last_applied s \<le> i \<and> (r = Inr () \<and> i = commit_index s \<or>
        (\<exists>m. r = Inl (InvalidArgument m)) \<and> \<not> commands_ok (take (unat (commit_index s)) (log_entries s)))"
  have "?P s (fst (apply_committed_entries s)) (final (apply_committed_entries s))"
  proof (rule apply_committed_entries_induct [OF assms])
    fix s :: "'a raft_core"
    assume "journal_ok s" and "last_applied s = commit_index s"
    then show "?P s (Inr ()) s" 
      by (intro exI [of _ "key_value_store s"] exI [of _ "applied_commands s"]
          exI [of _ "last_applied s"]) simp
  next
    fix s :: "'a raft_core" and m
    assume "journal_ok s" and "\<not> commands_ok (take (unat (commit_index s)) (log_entries s))"
    then show "?P s (Inl (InvalidArgument m)) s" 
      by (intro exI [of _ "key_value_store s"] exI [of _ "applied_commands s"]
          exI [of _ "last_applied s"]) simp
  next
    fix s :: "'a raft_core" and kv c r t
    assume "last_applied s < last_applied s + 1"
      and "?P (s\<lparr>key_value_store := kv, applied_commands := c, last_applied := last_applied s + 1\<rparr>) r t"
    then show "?P s r t" by (auto intro: order_trans [OF less_imp_le])
  qed
  then show thesis using that by (metis prod.collapse)
qed

section \<open>Requests\<close>

lemma collect_entries_drop:
  assumes "length es \<le> log_max_size" and "0 < unat i" and "unat i \<le> Suc (length es)"
  shows "collect_entries es i (last_index_of es) = Inr (drop (unat i - 1) es)"
  using assms(2,3)
proof (induction "Suc (length es) - unat i" arbitrary: i)
  case 0
  then have "last_index_of es < i" using unat_last_index [OF assms(1)] by (simp add: word_less_nat_alt)
  then show ?case using 0 by (subst collect_entries.simps) simp
next
  case (Suc n)
  let ?last = "last_index_of es"
  have last: "unat ?last = length es" by (rule unat_last_index [OF assms(1)])
  from Suc.hyps(2) have le: "unat i \<le> length es" by simp
  then have "\<not> ?last < i" using last by (simp add: word_less_nat_alt)
  moreover have p: "unat (i - 1) = unat i - 1" using Suc.prems by (intro unat_pred) (simp add: unat_pos)
  with le Suc.prems have v: "vec_at es (i - 1) = Inr (es ! (unat i - 1))" by (auto simp: vec_at_def)
  moreover have d: "drop (unat i - 1) es = es ! (unat i - 1) # drop (unat i) es"
    using le Suc.prems Cons_nth_drop_Suc [of "unat i - 1" es] by auto
  moreover have "i = ?last \<longleftrightarrow> unat i = length es" using last by (simp add: word_unat_eq_iff)
  moreover have "collect_entries es (i + 1) ?last = Inr (drop (unat i) es)" if "unat i < length es"
  proof -
    have "unat (i + 1) = Suc (unat i)" using that assms(1) by (intro unat_Suc_small) simp
    then show ?thesis using Suc.hyps(1) [of "i + 1"] Suc.hyps(2) that by simp
  qed
  ultimately show ?case using le by (subst collect_entries.simps) auto
qed

text \<open>
  The request a leader builds for a follower whose next index is \<open>n\<close>: it starts after entry
  \<open>n - 1\<close>, carries that entry's term, and all the rest of the log.
\<close>

definition replication_request :: "'g raft_core \<Rightarrow> nat \<Rightarrow> append_entries_request" where
  "replication_request s n =
     \<lparr>ae_term = current_term s, ae_leader_id = node_id s,
      prev_log_index = of_nat (n - 1), prev_log_term = term_at (log_entries s) (n - 1),
      entries = drop (n - 1) (log_entries s), leader_commit = commit_index s\<rparr>"

lemma make_append_entries_request_eq:
  assumes "role s = Leader" and "next_index s m = Some i"
    and "length (log_entries s) \<le> log_max_size" and "0 < unat i" and "unat i \<le> Suc (length (log_entries s))"
  shows "make_append_entries_request s m = Inr (replication_request s (unat i))"
proof -
  have p: "unat (i - 1) = unat i - 1" using assms(4) by (intro unat_pred) (simp add: unat_pos)
  then have of: "i - 1 = of_nat (unat i - 1)" by (metis ucast_id of_nat_unat)
  have t: "(if i - 1 = 0 then Inr 0 else bind_exc (vec_at (log_entries s) (i - 1 - 1)) (\<lambda>e. Inr (entry_term e)))
      = Inr (term_at (log_entries s) (unat i - 1))"
  proof (cases "unat i - 1")
    case 0
    with p show ?thesis by (simp add: word_unat_eq_iff)
  next
    case (Suc k)
    with p have nz: "i - 1 \<noteq> 0" by (metis nat.distinct(1) unat_0)
    then have "unat (i - 1 - 1) = k" using unat_pred [OF nz] p Suc by simp
    moreover have "k < length (log_entries s)" using Suc assms(5) by simp
    ultimately show ?thesis using Suc nz by (simp add: vec_at_def)
  qed
  show ?thesis
    using assms(1,2)
    by (simp only: make_append_entries_request_def Let_def last_log_index_def replication_request_def
        t collect_entries_drop [OF assms(3-5)] of [symmetric] bind_exc_simps option.case
        simp_thms if_False)
qed

text \<open>The queue of a leader whose replication state is in order.\<close>

definition others :: "'g raft_core \<Rightarrow> string list" where
  "others s = filter (\<lambda>m. m \<noteq> node_id s) (cluster_members s)"

definition next_of :: "'g raft_core \<Rightarrow> string \<Rightarrow> nat" where
  "next_of s m = (case next_index s m of None \<Rightarrow> 0 | Some i \<Rightarrow> unat i)"

definition match_of :: "'g raft_core \<Rightarrow> string \<Rightarrow> nat" where
  "match_of s m = (case match_index s m of None \<Rightarrow> 0 | Some i \<Rightarrow> unat i)"

definition replication_ok :: "'g raft_core \<Rightarrow> bool" where
  "replication_ok s \<longleftrightarrow>
     dom (next_index s) = set (others s) \<and> dom (match_index s) = set (others s) \<and>
     (\<forall>m \<in> set (others s). 0 < next_of s m \<and> next_of s m \<le> Suc (length (log_entries s)) \<and>
        match_of s m \<le> length (log_entries s))"

definition heartbeat_actions :: "'g raft_core \<Rightarrow> append_entries_action list" where
  "heartbeat_actions s =
     map (\<lambda>m. \<lparr>ae_target = m, ae_request = replication_request s (next_of s m)\<rparr>) (others s)"

lemma replication_okE:
  assumes "replication_ok s" and "m \<in> set (others s)"
  obtains i k where "next_index s m = Some i" and "match_index s m = Some k"
    and "next_of s m = unat i" and "match_of s m = unat k"
    and "0 < unat i" and "unat i \<le> Suc (length (log_entries s))" and "unat k \<le> length (log_entries s)"
proof -
  have "m \<in> dom (next_index s)" and "m \<in> dom (match_index s)" using assms by (auto simp: replication_ok_def)
  then obtain i k where ik: "next_index s m = Some i" "match_index s m = Some k" by auto
  then have "next_of s m = unat i" "match_of s m = unat k" by (auto simp: next_of_def match_of_def)
  with that ik assms show thesis by (fastforce simp: replication_ok_def)
qed

lemma push_append_entries_actions_eq:
  assumes "role s = Leader" and "length (log_entries s) \<le> log_max_size" and "replication_ok s"
    and "set ms \<subseteq> set (cluster_members s)"
  shows "push_append_entries_actions ms s = (Inr (), s\<lparr>pending_append_entries_actions :=
      pending_append_entries_actions s @
      map (\<lambda>m. \<lparr>ae_target = m, ae_request = replication_request s (next_of s m)\<rparr>)
        (filter (\<lambda>m. m \<noteq> node_id s) ms)\<rparr>)"
  using assms
proof (induction ms arbitrary: s)
  case (Cons m ms)
  show ?case
  proof (cases "m = node_id s")
    case True
    with Cons show ?thesis by simp
  next
    case False
    with Cons.prems(4) have m: "m \<in> set (others s)" by (simp add: others_def)
    obtain i where "next_index s m = Some i" "next_of s m = unat i" "0 < unat i"
      "unat i \<le> Suc (length (log_entries s))"
      using replication_okE [OF Cons.prems(3) m] by metis
    then have r: "make_append_entries_request s m = Inr (replication_request s (next_of s m))"
      using make_append_entries_request_eq Cons.prems(1,2) by metis
    let ?t = "s\<lparr>pending_append_entries_actions := pending_append_entries_actions s @
      [\<lparr>ae_target = m, ae_request = replication_request s (next_of s m)\<rparr>]\<rparr>"
    have "replication_ok ?t" using Cons.prems(3)
      by (simp add: replication_ok_def others_def next_of_def match_of_def)
    moreover have "replication_request ?t = replication_request s" "next_of ?t = next_of s"
      by (simp_all add: replication_request_def fun_eq_iff next_of_def)
    ultimately show ?thesis
      using Cons.IH [of ?t] Cons.prems False r by simp
  qed
qed simp

lemma queue_heartbeat_actions_eq:
  assumes "role s = Leader" and "length (log_entries s) \<le> log_max_size" and "replication_ok s"
  shows "queue_heartbeat_actions s =
      (Inr (), s\<lparr>pending_append_entries_actions := heartbeat_actions s\<rparr>)"
proof -
  let ?t = "s\<lparr>pending_append_entries_actions := []\<rparr>"
  have "replication_ok ?t" using assms(3)
    by (simp add: replication_ok_def others_def next_of_def match_of_def)
  moreover have "replication_request ?t = replication_request s" "next_of ?t = next_of s"
    by (simp_all add: replication_request_def fun_eq_iff next_of_def)
  ultimately show ?thesis
    using assms push_append_entries_actions_eq [of ?t "cluster_members s"]
    by (simp add: queue_heartbeat_actions_def heartbeat_actions_def others_def)
qed

section \<open>The commit search\<close>

text \<open>The copies of entry \<open>i\<close> the leader knows of, its own included.\<close>

definition replicas :: "'g raft_core \<Rightarrow> nat \<Rightarrow> string set" where
  "replicas s i = insert (node_id s) {m \<in> set (others s). i \<le> match_of s m}"

lemma count_replicas_eq:
  assumes "distinct ms" and "\<And>m. m \<in> set ms \<Longrightarrow> m \<noteq> self \<Longrightarrow> matches m \<noteq> None"
  shows "count_replicas self matches i ms n =
    Inr (n + card {m \<in> set ms. m \<noteq> self \<and> i \<le> the (matches m)})"
  using assms
proof (induction ms arbitrary: n)
  case (Cons m ms)
  let ?A = "{x \<in> set ms. x \<noteq> self \<and> i \<le> the (matches x)}"
  have "{x \<in> set (m # ms). x \<noteq> self \<and> i \<le> the (matches x)} =
      (if m \<noteq> self \<and> i \<le> the (matches m) then insert m ?A else ?A)" by auto
  moreover have "m \<notin> ?A" using Cons.prems(1) by simp
  ultimately show ?case using Cons by (cases "m = self") (auto split: option.split)
qed simp

lemma count_replicas_replicas:
  assumes "distinct (cluster_members s)" and "replication_ok s"
  shows "count_replicas (node_id s) (match_index s) i (cluster_members s) 1 =
    Inr (card (replicas s (unat i)))"
proof -
  have m: "match_index s m \<noteq> None" if "m \<in> set (cluster_members s)" "m \<noteq> node_id s" for m
    using that assms(2) by (auto simp: replication_ok_def others_def)
  have "match_of s m = unat (the (match_index s m))" if "m \<in> set (others s)" for m
    using that replication_okE [OF assms(2), of m] by (metis option.sel)
  then have "replicas s (unat i) = insert (node_id s)
      {m \<in> set (cluster_members s). m \<noteq> node_id s \<and> i \<le> the (match_index s m)}"
    by (auto simp: replicas_def others_def word_le_nat_alt)
  then show ?thesis
    using count_replicas_eq [OF assms(1) m, where i = i and n = 1] by simp
qed

text \<open>An index the leader may commit: newer than what it has, of its own term, on a majority.\<close>

definition committable :: "'g raft_core \<Rightarrow> nat \<Rightarrow> bool" where
  "committable s i \<longleftrightarrow>
     unat (commit_index s) < i \<and> i \<le> length (log_entries s) \<and>
     term_at (log_entries s) i = current_term s \<and> majority_size s \<le> card (replicas s i)"

lemma search_commit_index_step:
  assumes "distinct (cluster_members s)" and "replication_ok s"
    and "commit_index s < i" and "unat i \<le> length (log_entries s)"
  shows "search_commit_index s i =
     (if committable s (unat i) then Inr (Some i) else search_commit_index s (i - 1))"
proof -
  have nz: "i \<noteq> 0" and pos: "0 < unat i" using assms(3) by (auto simp: unat_pos word_less_nat_alt)
  have "vec_at (log_entries s) (i - 1) = Inr (log_entries s ! (unat i - 1))"
    using assms(4) pos by (simp add: vec_at_def unat_pred [OF nz])
  then show ?thesis
    using assms(3,4) pos count_replicas_replicas [OF assms(1,2), of i]
    by (subst search_commit_index.simps) (simp add: committable_def term_at_def word_less_nat_alt)
qed

text \<open>The search returns, and finds the highest committable index.\<close>

lemma search_commit_index_result:
  assumes "distinct (cluster_members s)" and "replication_ok s" and "unat i \<le> length (log_entries s)"
  obtains (found) j where "search_commit_index s i = Inr (Some j)" and "committable s (unat j)"
      and "unat j \<le> unat i" and "\<forall>k. unat j < k \<and> k \<le> unat i \<longrightarrow> \<not> committable s k"
    | (none) "search_commit_index s i = Inr None" and "\<forall>k \<le> unat i. \<not> committable s k"
  using assms(3)
proof (induction "unat i" arbitrary: i thesis)
  case 0
  then have "\<not> commit_index s < i" by (simp add: word_less_nat_alt)
  then have "search_commit_index s i = Inr None" by (subst search_commit_index.simps) simp
  with 0 show ?case by (simp add: committable_def)
next
  case (Suc n)
  show ?case
  proof (cases "commit_index s < i")
    case False
    then have "search_commit_index s i = Inr None" by (subst search_commit_index.simps) simp
    moreover have "\<forall>k \<le> unat i. \<not> committable s k"
      using False by (auto simp: committable_def word_less_nat_alt)
    ultimately show ?thesis by (rule Suc.prems(2))
  next
    case True
    note step = search_commit_index_step [OF assms(1,2) True Suc.prems(3)]
    show ?thesis
    proof (cases "committable s (unat i)")
      case True
      with step show ?thesis by (intro Suc.prems(1) [of i]) auto
    next
      case False
      have p: "unat (i - 1) = n" using Suc.hyps(2) by (subst unat_pred) (auto simp: unat_pos)
      with Suc.prems(3) Suc.hyps(2) have le: "unat (i - 1) \<le> length (log_entries s)" by simp
      have up: "k \<le> unat i \<longleftrightarrow> k \<le> unat (i - 1) \<or> k = unat i" for k
        using p Suc.hyps(2) by auto
      show ?thesis
      proof (rule Suc.hyps(1) [OF p [symmetric] _ _ le])
        fix j assume "search_commit_index s (i - 1) = Inr (Some j)" and "committable s (unat j)"
          and "unat j \<le> unat (i - 1)" and "\<forall>k. unat j < k \<and> k \<le> unat (i - 1) \<longrightarrow> \<not> committable s k"
        then show thesis using Suc.prems(1) [of j] step False up by auto
      next
        assume "search_commit_index s (i - 1) = Inr None" and "\<forall>k \<le> unat (i - 1). \<not> committable s k"
        then show thesis using Suc.prems(2) step False up by auto
      qed
    qed
  qed
qed

section \<open>The follower's side\<close>

lemma previous_log_position_matches_eq:
  assumes "length (log_entries s) \<le> log_max_size"
  shows "previous_log_position_matches s i t =
    Inr (unat i \<le> length (log_entries s) \<and> term_at (log_entries s) (unat i) = t)"
proof (cases "i = 0")
  case False
  have "last_log_index s < i \<longleftrightarrow> length (log_entries s) < unat i"
    using unat_last_index [OF assms] by (simp add: last_log_index_def word_less_nat_alt)
  moreover have "0 < unat i" using False by (simp add: unat_pos)
  ultimately show ?thesis
    using False by (auto simp: previous_log_position_matches_def vec_at_def unat_pred [OF False] term_at_def)
qed (auto simp: previous_log_position_matches_def)

lemma candidate_log_is_up_to_date_iff:
  "candidate_log_is_up_to_date s i t \<longleftrightarrow> position_of (log_entries s) \<le> Log_Position t i"
  by (auto simp: candidate_log_is_up_to_date_def position_of_def less_eq_log_position_def
      last_log_term_def last_log_index_def)

lemma entries_acceptable_iff:
  "entries_acceptable t previous es \<longleftrightarrow>
     valid_log t es \<and> (\<forall>e \<in> set es. previous \<le> entry_term e)"
  by (induction es arbitrary: previous) (auto simp: valid_log_def not_less set_log_terms)

text \<open>
  The comparison loop: the first \<open>k\<close> incoming entries are already in the log; then either there
  are no more, or the log ends, or the next one conflicts and is not committed, and the log is
  cut there.
\<close>

lemma reconcile_result:
  assumes "unat prev + length inc + offset \<le> log_max_size" and "unat prev + offset \<le> length es"
    and "reconcile commit prev es offset inc = Some (kept, rest)"
  obtains k where "k \<le> length inc" and "rest = drop k inc" and "unat prev + offset + k \<le> length es"
    and "\<forall>i < k. entry_term (es ! (unat prev + offset + i)) = entry_term (inc ! i)"
    and "k = length inc \<and> kept = es \<or>
         k < length inc \<and> length es = unat prev + offset + k \<and> kept = es \<or>
         k < length inc \<and> unat prev + offset + k < length es \<and> unat commit \<le> unat prev + offset + k \<and>
           entry_term (es ! (unat prev + offset + k)) \<noteq> entry_term (inc ! k) \<and>
           kept = take (unat prev + offset + k) es"
  using assms
proof (induction commit prev es offset inc arbitrary: thesis rule: reconcile.induct)
  case (1 commit prev es offset)
  then show ?case by simp
next
  case (2 commit prev es offset incoming rest')
  let ?v = "unat prev + offset"
  have li: "unat (prev + of_nat offset) = ?v" using 2(3) by (intro unat_add_small) simp
  have lo: "unat (prev + of_nat offset + 1) = Suc ?v" using 2(3) li by (subst unat_Suc_small) simp_all
  have v: "unat (prev + of_nat offset + 1 - 1) = ?v" using li by simp
  show ?case
  proof (cases "length es \<le> ?v")
    case True
    with 2(5) li have "kept = es" "rest = incoming # rest'" by (simp_all add: Let_def)
    with True 2(2) [of 0] 2(4) show ?thesis by simp
  next
    case False
    show ?thesis
    proof (cases "entry_term (es ! ?v) = entry_term incoming")
      case True
      have r: "reconcile commit prev es (offset + 1) rest' = Some (kept, rest)"
        using 2(5) False True li by (simp add: Let_def)
      show ?thesis
      proof (rule 2(1) [OF refl refl _ _ _ _ _ r])
        fix k
        assume k: "k \<le> length rest'" "rest = drop k rest'" "unat prev + (offset + 1) + k \<le> length es"
          "\<forall>i<k. entry_term (es ! (unat prev + (offset + 1) + i)) = entry_term (rest' ! i)"
          and c: "k = length rest' \<and> kept = es \<or>
           k < length rest' \<and> length es = unat prev + (offset + 1) + k \<and> kept = es \<or>
           k < length rest' \<and> unat prev + (offset + 1) + k < length es \<and>
           unat commit \<le> unat prev + (offset + 1) + k \<and>
           entry_term (es ! (unat prev + (offset + 1) + k)) \<noteq> entry_term (rest' ! k) \<and>
           kept = take (unat prev + (offset + 1) + k) es"
        have "\<forall>i<Suc k. entry_term (es ! (?v + i)) = entry_term ((incoming # rest') ! i)"
          using k(4) True by (auto simp: less_Suc_eq_0_disj)
        with k c show ?thesis by (intro 2(2) [of "Suc k"]) auto
      qed (use 2 False True li in \<open>simp_all add: Let_def\<close>)
    next
      case neq: False
      with 2(5) False li have "\<not> prev + of_nat offset + 1 \<le> commit"
        and "kept = take ?v es" "rest = incoming # rest'"
        by (auto simp: Let_def split: if_splits)
      moreover from this lo have "unat commit \<le> ?v" by (simp add: word_le_nat_alt)
      ultimately show ?thesis using False neq 2(2) [of 0] 2(4) by simp
    qed
  qed
qed

text \<open>
  The loop against a recursive reference: how many incoming entries the log already has, and
  what becomes of the others.
\<close>

fun agreement :: "log_entry list \<Rightarrow> log_entry list \<Rightarrow> nat" where
  "agreement (e # es) (f # fs) = (if entry_term e = entry_term f then Suc (agreement es fs) else 0)"
| "agreement es fs = 0"

lemma agreement_Nil [simp]: "agreement es [] = 0"
  by (cases es) simp_all

lemma agreement_le: "agreement es fs \<le> length es" "agreement es fs \<le> length fs"
  by (induction es fs rule: agreement.induct) simp_all

lemma reconcile_agreement:
  assumes "unat prev + length inc + offset \<le> log_max_size" and "unat prev + offset \<le> length es"
  defines "k \<equiv> agreement (drop (unat prev + offset) es) inc"
  shows "reconcile commit prev es offset inc =
     (if k < length inc \<and> unat prev + offset + k < length es then
        (if unat prev + offset + k < unat commit then None
         else Some (take (unat prev + offset + k) es, drop k inc))
      else Some (es, drop k inc))"
  using assms(1,2) unfolding k_def
proof (induction commit prev es offset inc rule: reconcile.induct)
  case (2 commit prev es offset incoming rest)
  let ?v = "unat prev + offset"
  have li: "unat (prev + of_nat offset) = ?v" using 2(2) by (intro unat_add_small) simp
  have lo: "unat (prev + of_nat offset + 1) = Suc ?v" using 2(2) li by (subst unat_Suc_small) simp_all
  show ?case
  proof (cases "length es \<le> ?v")
    case True
    then show ?thesis using li by (simp add: Let_def)
  next
    case False
    then have d: "drop ?v es = es ! ?v # drop (Suc ?v) es" by (intro Cons_nth_drop_Suc [symmetric]) simp
    show ?thesis
    proof (cases "entry_term (es ! ?v) = entry_term incoming")
      case True
      then show ?thesis
        using 2(1) [OF refl refl] 2(2,3) False li d by (simp add: Let_def)
    next
      case neq: False
      then show ?thesis
        using False li lo d by (auto simp: Let_def word_le_nat_alt)
    qed
  qed
qed simp

text \<open>
  The new log in one formula.  \<open>p\<close> is the verified position and \<open>log'\<close> what the request leaves:
  either the old log, which then agrees with all incoming entries, or the old log up to the
  first disagreement followed by the rest of the entries.
\<close>

lemma reconcile_log:
  assumes "unat prev + length inc \<le> log_max_size" and "unat prev \<le> length es"
    and "reconcile commit prev es 0 inc = Some (kept, rest)"
  obtains (unchanged) "kept @ rest = es" and "unat prev + length inc \<le> length es"
      and "\<forall>i < length inc. entry_term (es ! (unat prev + i)) = entry_term (inc ! i)"
    | (replaced) k where "k < length inc" and "unat prev + k \<le> length es"
      and "kept @ rest = take (unat prev + k) es @ drop k inc"
      and "\<forall>i < k. entry_term (es ! (unat prev + i)) = entry_term (inc ! i)"
      and "unat prev + k = length es \<or> unat commit \<le> unat prev + k \<and>
        entry_term (es ! (unat prev + k)) \<noteq> entry_term (inc ! k)"
proof (rule reconcile_result [OF _ _ assms(3)])
  fix k
  assume "k \<le> length inc" "rest = drop k inc" "unat prev + 0 + k \<le> length es"
    "\<forall>i<k. entry_term (es ! (unat prev + 0 + i)) = entry_term (inc ! i)"
    and "k = length inc \<and> kept = es \<or>
         k < length inc \<and> length es = unat prev + 0 + k \<and> kept = es \<or>
         k < length inc \<and> unat prev + 0 + k < length es \<and> unat commit \<le> unat prev + 0 + k \<and>
           entry_term (es ! (unat prev + 0 + k)) \<noteq> entry_term (inc ! k) \<and>
           kept = take (unat prev + 0 + k) es"
  then show thesis
    using unchanged replaced [of k] by auto
qed (use assms in auto)

lemma reconcile_keeps_committed:
  assumes "unat prev + length inc \<le> log_max_size" and "unat prev \<le> length es"
    and "reconcile commit prev es 0 inc = Some (kept, rest)" and "unat commit \<le> length es"
  shows "take (unat commit) (kept @ rest) = take (unat commit) es"
    and "unat commit \<le> length (kept @ rest)"
  using assms(1-3) by (cases rule: reconcile_log; use assms(4) in auto)+

lemma reconcile_length:
  assumes "unat prev + length inc \<le> log_max_size" and "unat prev \<le> length es"
    and "reconcile commit prev es 0 inc = Some (kept, rest)"
  shows "unat prev + length inc \<le> length (kept @ rest)"
    and "length (kept @ rest) \<le> max (length es) (unat prev + length inc)"
  using assms by (cases rule: reconcile_log; auto)+

lemma reconcile_terms:
  assumes "unat prev + length inc \<le> log_max_size" and "unat prev \<le> length es"
    and "reconcile commit prev es 0 inc = Some (kept, rest)" and "i < length inc"
  shows "entry_term ((kept @ rest) ! (unat prev + i)) = entry_term (inc ! i)"
  using assms(1-3)
proof (cases rule: reconcile_log)
  case (replaced k)
  then show ?thesis using assms(4) by (cases "i < k") (auto simp: nth_append)
qed (use assms(4) in auto)

lemma reconcile_valid_log:
  assumes b: "unat prev + length inc \<le> log_max_size" "unat prev \<le> length es"
    "reconcile commit prev es 0 inc = Some (kept, rest)"
    and es: "valid_log t es" and inc: "valid_log t inc" "\<forall>e \<in> set inc. term_at es (unat prev) \<le> entry_term e"
  shows "valid_log t (kept @ rest)"
  using b
proof (cases rule: reconcile_log)
  case (replaced k)
  have "entry_term e \<le> entry_term f" if e: "e \<in> set (take (unat prev + k) es)" and f: "f \<in> set (drop k inc)" for e f
  proof -
    obtain i where i: "i < unat prev + k" "i < length es" "e = es ! i"
      using e by (auto simp: in_set_conv_nth)
    obtain j' where "j' < length inc - k" "f = inc ! (k + j')"
      using f by (auto simp: in_set_conv_nth)
    then obtain j where j: "k \<le> j" "j < length inc" "f = inc ! j"
      using that [of "k + j'"] by simp
    show ?thesis
    proof (cases "i < unat prev")
      case True
      then have "entry_term e \<le> term_at es (unat prev)"
        using i valid_log_nth_mono [OF es, of i "unat prev - 1"] replaced(2)
        by (cases "unat prev") auto
      also have "\<dots> \<le> entry_term f" using inc(2) j by auto
      finally show ?thesis .
    next
      case False
      then have "entry_term e = entry_term (inc ! (i - unat prev))"
        using i replaced(4) by (metis add_diff_inverse_nat less_diff_conv2 linorder_not_less add.commute)
      also have "\<dots> \<le> entry_term f"
        using valid_log_nth_mono [OF inc(1), of "i - unat prev" j] i j False by auto
      finally show ?thesis .
    qed
  qed
  moreover have "valid_log t (drop k inc)"
    using inc(1) by (metis append_take_drop_id valid_log_append)
  ultimately show ?thesis
    using replaced(3) es by (auto simp: valid_log_append)
qed (use es in auto)

section \<open>What each notion does not depend on\<close>

text \<open>
  Assignments to members a notion does not read leave it alone.  With these equations an
  operation's record updates simplify away, and the notions themselves stay folded.
\<close>

lemma others_frame [simp]:
  "others (s\<lparr>log_entries := x_0\<rparr>) = others s"
  "others (s\<lparr>commit_index := x_1\<rparr>) = others s"
  "others (s\<lparr>last_applied := x_2\<rparr>) = others s"
  "others (s\<lparr>applied_commands := x_3\<rparr>) = others s"
  "others (s\<lparr>key_value_store := x_4\<rparr>) = others s"
  "others (s\<lparr>role := x_5\<rparr>) = others s"
  "others (s\<lparr>current_term := x_6\<rparr>) = others s"
  "others (s\<lparr>voted_for := x_7\<rparr>) = others s"
  "others (s\<lparr>leader_id := x_8\<rparr>) = others s"
  "others (s\<lparr>votes_received := x_9\<rparr>) = others s"
  "others (s\<lparr>current_time_ms := x_10\<rparr>) = others s"
  "others (s\<lparr>election_timeout_ms := x_11\<rparr>) = others s"
  "others (s\<lparr>election_deadline_ms := x_12\<rparr>) = others s"
  "others (s\<lparr>random_engine := x_13\<rparr>) = others s"
  "others (s\<lparr>pending_request_vote_actions := x_14\<rparr>) = others s"
  "others (s\<lparr>pending_append_entries_actions := x_15\<rparr>) = others s"
  "others (s\<lparr>next_index := x_16\<rparr>) = others s"
  "others (s\<lparr>match_index := x_17\<rparr>) = others s"
  "others (s\<lparr>disk := x_18\<rparr>) = others s"
  by (simp_all add: others_def)

lemma cluster_size_frame [simp]:
  "cluster_size (s\<lparr>log_entries := x_0\<rparr>) = cluster_size s"
  "cluster_size (s\<lparr>commit_index := x_1\<rparr>) = cluster_size s"
  "cluster_size (s\<lparr>last_applied := x_2\<rparr>) = cluster_size s"
  "cluster_size (s\<lparr>applied_commands := x_3\<rparr>) = cluster_size s"
  "cluster_size (s\<lparr>key_value_store := x_4\<rparr>) = cluster_size s"
  "cluster_size (s\<lparr>role := x_5\<rparr>) = cluster_size s"
  "cluster_size (s\<lparr>current_term := x_6\<rparr>) = cluster_size s"
  "cluster_size (s\<lparr>voted_for := x_7\<rparr>) = cluster_size s"
  "cluster_size (s\<lparr>leader_id := x_8\<rparr>) = cluster_size s"
  "cluster_size (s\<lparr>votes_received := x_9\<rparr>) = cluster_size s"
  "cluster_size (s\<lparr>current_time_ms := x_10\<rparr>) = cluster_size s"
  "cluster_size (s\<lparr>election_timeout_ms := x_11\<rparr>) = cluster_size s"
  "cluster_size (s\<lparr>election_deadline_ms := x_12\<rparr>) = cluster_size s"
  "cluster_size (s\<lparr>random_engine := x_13\<rparr>) = cluster_size s"
  "cluster_size (s\<lparr>pending_request_vote_actions := x_14\<rparr>) = cluster_size s"
  "cluster_size (s\<lparr>pending_append_entries_actions := x_15\<rparr>) = cluster_size s"
  "cluster_size (s\<lparr>next_index := x_16\<rparr>) = cluster_size s"
  "cluster_size (s\<lparr>match_index := x_17\<rparr>) = cluster_size s"
  "cluster_size (s\<lparr>disk := x_18\<rparr>) = cluster_size s"
  by (simp_all add: cluster_size_def)

lemma majority_size_frame [simp]:
  "majority_size (s\<lparr>log_entries := x_0\<rparr>) = majority_size s"
  "majority_size (s\<lparr>commit_index := x_1\<rparr>) = majority_size s"
  "majority_size (s\<lparr>last_applied := x_2\<rparr>) = majority_size s"
  "majority_size (s\<lparr>applied_commands := x_3\<rparr>) = majority_size s"
  "majority_size (s\<lparr>key_value_store := x_4\<rparr>) = majority_size s"
  "majority_size (s\<lparr>role := x_5\<rparr>) = majority_size s"
  "majority_size (s\<lparr>current_term := x_6\<rparr>) = majority_size s"
  "majority_size (s\<lparr>voted_for := x_7\<rparr>) = majority_size s"
  "majority_size (s\<lparr>leader_id := x_8\<rparr>) = majority_size s"
  "majority_size (s\<lparr>votes_received := x_9\<rparr>) = majority_size s"
  "majority_size (s\<lparr>current_time_ms := x_10\<rparr>) = majority_size s"
  "majority_size (s\<lparr>election_timeout_ms := x_11\<rparr>) = majority_size s"
  "majority_size (s\<lparr>election_deadline_ms := x_12\<rparr>) = majority_size s"
  "majority_size (s\<lparr>random_engine := x_13\<rparr>) = majority_size s"
  "majority_size (s\<lparr>pending_request_vote_actions := x_14\<rparr>) = majority_size s"
  "majority_size (s\<lparr>pending_append_entries_actions := x_15\<rparr>) = majority_size s"
  "majority_size (s\<lparr>next_index := x_16\<rparr>) = majority_size s"
  "majority_size (s\<lparr>match_index := x_17\<rparr>) = majority_size s"
  "majority_size (s\<lparr>disk := x_18\<rparr>) = majority_size s"
  by (simp_all add: majority_size_def cluster_size_def)

lemma vote_count_frame [simp]:
  "vote_count (s\<lparr>log_entries := x_0\<rparr>) = vote_count s"
  "vote_count (s\<lparr>commit_index := x_1\<rparr>) = vote_count s"
  "vote_count (s\<lparr>last_applied := x_2\<rparr>) = vote_count s"
  "vote_count (s\<lparr>applied_commands := x_3\<rparr>) = vote_count s"
  "vote_count (s\<lparr>key_value_store := x_4\<rparr>) = vote_count s"
  "vote_count (s\<lparr>role := x_5\<rparr>) = vote_count s"
  "vote_count (s\<lparr>current_term := x_6\<rparr>) = vote_count s"
  "vote_count (s\<lparr>voted_for := x_7\<rparr>) = vote_count s"
  "vote_count (s\<lparr>leader_id := x_8\<rparr>) = vote_count s"
  "vote_count (s\<lparr>current_time_ms := x_10\<rparr>) = vote_count s"
  "vote_count (s\<lparr>election_timeout_ms := x_11\<rparr>) = vote_count s"
  "vote_count (s\<lparr>election_deadline_ms := x_12\<rparr>) = vote_count s"
  "vote_count (s\<lparr>random_engine := x_13\<rparr>) = vote_count s"
  "vote_count (s\<lparr>pending_request_vote_actions := x_14\<rparr>) = vote_count s"
  "vote_count (s\<lparr>pending_append_entries_actions := x_15\<rparr>) = vote_count s"
  "vote_count (s\<lparr>next_index := x_16\<rparr>) = vote_count s"
  "vote_count (s\<lparr>match_index := x_17\<rparr>) = vote_count s"
  "vote_count (s\<lparr>disk := x_18\<rparr>) = vote_count s"
  by (simp_all add: vote_count_def)

lemma next_of_frame [simp]:
  "next_of (s\<lparr>log_entries := x_0\<rparr>) = next_of s"
  "next_of (s\<lparr>commit_index := x_1\<rparr>) = next_of s"
  "next_of (s\<lparr>last_applied := x_2\<rparr>) = next_of s"
  "next_of (s\<lparr>applied_commands := x_3\<rparr>) = next_of s"
  "next_of (s\<lparr>key_value_store := x_4\<rparr>) = next_of s"
  "next_of (s\<lparr>role := x_5\<rparr>) = next_of s"
  "next_of (s\<lparr>current_term := x_6\<rparr>) = next_of s"
  "next_of (s\<lparr>voted_for := x_7\<rparr>) = next_of s"
  "next_of (s\<lparr>leader_id := x_8\<rparr>) = next_of s"
  "next_of (s\<lparr>votes_received := x_9\<rparr>) = next_of s"
  "next_of (s\<lparr>current_time_ms := x_10\<rparr>) = next_of s"
  "next_of (s\<lparr>election_timeout_ms := x_11\<rparr>) = next_of s"
  "next_of (s\<lparr>election_deadline_ms := x_12\<rparr>) = next_of s"
  "next_of (s\<lparr>random_engine := x_13\<rparr>) = next_of s"
  "next_of (s\<lparr>pending_request_vote_actions := x_14\<rparr>) = next_of s"
  "next_of (s\<lparr>pending_append_entries_actions := x_15\<rparr>) = next_of s"
  "next_of (s\<lparr>match_index := x_17\<rparr>) = next_of s"
  "next_of (s\<lparr>disk := x_18\<rparr>) = next_of s"
  by (simp_all add: next_of_def fun_eq_iff)

lemma match_of_frame [simp]:
  "match_of (s\<lparr>log_entries := x_0\<rparr>) = match_of s"
  "match_of (s\<lparr>commit_index := x_1\<rparr>) = match_of s"
  "match_of (s\<lparr>last_applied := x_2\<rparr>) = match_of s"
  "match_of (s\<lparr>applied_commands := x_3\<rparr>) = match_of s"
  "match_of (s\<lparr>key_value_store := x_4\<rparr>) = match_of s"
  "match_of (s\<lparr>role := x_5\<rparr>) = match_of s"
  "match_of (s\<lparr>current_term := x_6\<rparr>) = match_of s"
  "match_of (s\<lparr>voted_for := x_7\<rparr>) = match_of s"
  "match_of (s\<lparr>leader_id := x_8\<rparr>) = match_of s"
  "match_of (s\<lparr>votes_received := x_9\<rparr>) = match_of s"
  "match_of (s\<lparr>current_time_ms := x_10\<rparr>) = match_of s"
  "match_of (s\<lparr>election_timeout_ms := x_11\<rparr>) = match_of s"
  "match_of (s\<lparr>election_deadline_ms := x_12\<rparr>) = match_of s"
  "match_of (s\<lparr>random_engine := x_13\<rparr>) = match_of s"
  "match_of (s\<lparr>pending_request_vote_actions := x_14\<rparr>) = match_of s"
  "match_of (s\<lparr>pending_append_entries_actions := x_15\<rparr>) = match_of s"
  "match_of (s\<lparr>next_index := x_16\<rparr>) = match_of s"
  "match_of (s\<lparr>disk := x_18\<rparr>) = match_of s"
  by (simp_all add: match_of_def fun_eq_iff)

lemma last_log_index_frame [simp]:
  "last_log_index (s\<lparr>commit_index := x_1\<rparr>) = last_log_index s"
  "last_log_index (s\<lparr>last_applied := x_2\<rparr>) = last_log_index s"
  "last_log_index (s\<lparr>applied_commands := x_3\<rparr>) = last_log_index s"
  "last_log_index (s\<lparr>key_value_store := x_4\<rparr>) = last_log_index s"
  "last_log_index (s\<lparr>role := x_5\<rparr>) = last_log_index s"
  "last_log_index (s\<lparr>current_term := x_6\<rparr>) = last_log_index s"
  "last_log_index (s\<lparr>voted_for := x_7\<rparr>) = last_log_index s"
  "last_log_index (s\<lparr>leader_id := x_8\<rparr>) = last_log_index s"
  "last_log_index (s\<lparr>votes_received := x_9\<rparr>) = last_log_index s"
  "last_log_index (s\<lparr>current_time_ms := x_10\<rparr>) = last_log_index s"
  "last_log_index (s\<lparr>election_timeout_ms := x_11\<rparr>) = last_log_index s"
  "last_log_index (s\<lparr>election_deadline_ms := x_12\<rparr>) = last_log_index s"
  "last_log_index (s\<lparr>random_engine := x_13\<rparr>) = last_log_index s"
  "last_log_index (s\<lparr>pending_request_vote_actions := x_14\<rparr>) = last_log_index s"
  "last_log_index (s\<lparr>pending_append_entries_actions := x_15\<rparr>) = last_log_index s"
  "last_log_index (s\<lparr>next_index := x_16\<rparr>) = last_log_index s"
  "last_log_index (s\<lparr>match_index := x_17\<rparr>) = last_log_index s"
  "last_log_index (s\<lparr>disk := x_18\<rparr>) = last_log_index s"
  by (simp_all add: last_log_index_def)

lemma last_log_term_frame [simp]:
  "last_log_term (s\<lparr>commit_index := x_1\<rparr>) = last_log_term s"
  "last_log_term (s\<lparr>last_applied := x_2\<rparr>) = last_log_term s"
  "last_log_term (s\<lparr>applied_commands := x_3\<rparr>) = last_log_term s"
  "last_log_term (s\<lparr>key_value_store := x_4\<rparr>) = last_log_term s"
  "last_log_term (s\<lparr>role := x_5\<rparr>) = last_log_term s"
  "last_log_term (s\<lparr>current_term := x_6\<rparr>) = last_log_term s"
  "last_log_term (s\<lparr>voted_for := x_7\<rparr>) = last_log_term s"
  "last_log_term (s\<lparr>leader_id := x_8\<rparr>) = last_log_term s"
  "last_log_term (s\<lparr>votes_received := x_9\<rparr>) = last_log_term s"
  "last_log_term (s\<lparr>current_time_ms := x_10\<rparr>) = last_log_term s"
  "last_log_term (s\<lparr>election_timeout_ms := x_11\<rparr>) = last_log_term s"
  "last_log_term (s\<lparr>election_deadline_ms := x_12\<rparr>) = last_log_term s"
  "last_log_term (s\<lparr>random_engine := x_13\<rparr>) = last_log_term s"
  "last_log_term (s\<lparr>pending_request_vote_actions := x_14\<rparr>) = last_log_term s"
  "last_log_term (s\<lparr>pending_append_entries_actions := x_15\<rparr>) = last_log_term s"
  "last_log_term (s\<lparr>next_index := x_16\<rparr>) = last_log_term s"
  "last_log_term (s\<lparr>match_index := x_17\<rparr>) = last_log_term s"
  "last_log_term (s\<lparr>disk := x_18\<rparr>) = last_log_term s"
  by (simp_all add: last_log_term_def)

lemma replication_request_frame [simp]:
  "replication_request (s\<lparr>last_applied := x_2\<rparr>) = replication_request s"
  "replication_request (s\<lparr>applied_commands := x_3\<rparr>) = replication_request s"
  "replication_request (s\<lparr>key_value_store := x_4\<rparr>) = replication_request s"
  "replication_request (s\<lparr>role := x_5\<rparr>) = replication_request s"
  "replication_request (s\<lparr>voted_for := x_7\<rparr>) = replication_request s"
  "replication_request (s\<lparr>leader_id := x_8\<rparr>) = replication_request s"
  "replication_request (s\<lparr>votes_received := x_9\<rparr>) = replication_request s"
  "replication_request (s\<lparr>current_time_ms := x_10\<rparr>) = replication_request s"
  "replication_request (s\<lparr>election_timeout_ms := x_11\<rparr>) = replication_request s"
  "replication_request (s\<lparr>election_deadline_ms := x_12\<rparr>) = replication_request s"
  "replication_request (s\<lparr>random_engine := x_13\<rparr>) = replication_request s"
  "replication_request (s\<lparr>pending_request_vote_actions := x_14\<rparr>) = replication_request s"
  "replication_request (s\<lparr>pending_append_entries_actions := x_15\<rparr>) = replication_request s"
  "replication_request (s\<lparr>next_index := x_16\<rparr>) = replication_request s"
  "replication_request (s\<lparr>match_index := x_17\<rparr>) = replication_request s"
  "replication_request (s\<lparr>disk := x_18\<rparr>) = replication_request s"
  by (simp_all add: replication_request_def fun_eq_iff)

lemma heartbeat_actions_frame [simp]:
  "heartbeat_actions (s\<lparr>last_applied := x_2\<rparr>) = heartbeat_actions s"
  "heartbeat_actions (s\<lparr>applied_commands := x_3\<rparr>) = heartbeat_actions s"
  "heartbeat_actions (s\<lparr>key_value_store := x_4\<rparr>) = heartbeat_actions s"
  "heartbeat_actions (s\<lparr>role := x_5\<rparr>) = heartbeat_actions s"
  "heartbeat_actions (s\<lparr>voted_for := x_7\<rparr>) = heartbeat_actions s"
  "heartbeat_actions (s\<lparr>leader_id := x_8\<rparr>) = heartbeat_actions s"
  "heartbeat_actions (s\<lparr>votes_received := x_9\<rparr>) = heartbeat_actions s"
  "heartbeat_actions (s\<lparr>current_time_ms := x_10\<rparr>) = heartbeat_actions s"
  "heartbeat_actions (s\<lparr>election_timeout_ms := x_11\<rparr>) = heartbeat_actions s"
  "heartbeat_actions (s\<lparr>election_deadline_ms := x_12\<rparr>) = heartbeat_actions s"
  "heartbeat_actions (s\<lparr>random_engine := x_13\<rparr>) = heartbeat_actions s"
  "heartbeat_actions (s\<lparr>pending_request_vote_actions := x_14\<rparr>) = heartbeat_actions s"
  "heartbeat_actions (s\<lparr>pending_append_entries_actions := x_15\<rparr>) = heartbeat_actions s"
  "heartbeat_actions (s\<lparr>match_index := x_17\<rparr>) = heartbeat_actions s"
  "heartbeat_actions (s\<lparr>disk := x_18\<rparr>) = heartbeat_actions s"
  by (simp_all add: heartbeat_actions_def)

lemma replication_ok_frame [simp]:
  "replication_ok (s\<lparr>commit_index := x_1\<rparr>) = replication_ok s"
  "replication_ok (s\<lparr>last_applied := x_2\<rparr>) = replication_ok s"
  "replication_ok (s\<lparr>applied_commands := x_3\<rparr>) = replication_ok s"
  "replication_ok (s\<lparr>key_value_store := x_4\<rparr>) = replication_ok s"
  "replication_ok (s\<lparr>role := x_5\<rparr>) = replication_ok s"
  "replication_ok (s\<lparr>current_term := x_6\<rparr>) = replication_ok s"
  "replication_ok (s\<lparr>voted_for := x_7\<rparr>) = replication_ok s"
  "replication_ok (s\<lparr>leader_id := x_8\<rparr>) = replication_ok s"
  "replication_ok (s\<lparr>votes_received := x_9\<rparr>) = replication_ok s"
  "replication_ok (s\<lparr>current_time_ms := x_10\<rparr>) = replication_ok s"
  "replication_ok (s\<lparr>election_timeout_ms := x_11\<rparr>) = replication_ok s"
  "replication_ok (s\<lparr>election_deadline_ms := x_12\<rparr>) = replication_ok s"
  "replication_ok (s\<lparr>random_engine := x_13\<rparr>) = replication_ok s"
  "replication_ok (s\<lparr>pending_request_vote_actions := x_14\<rparr>) = replication_ok s"
  "replication_ok (s\<lparr>pending_append_entries_actions := x_15\<rparr>) = replication_ok s"
  "replication_ok (s\<lparr>disk := x_18\<rparr>) = replication_ok s"
  by (simp_all add: replication_ok_def)

lemma journal_ok_frame [simp]:
  "journal_ok (s\<lparr>role := x_5\<rparr>) = journal_ok s"
  "journal_ok (s\<lparr>current_term := x_6\<rparr>) = journal_ok s"
  "journal_ok (s\<lparr>voted_for := x_7\<rparr>) = journal_ok s"
  "journal_ok (s\<lparr>leader_id := x_8\<rparr>) = journal_ok s"
  "journal_ok (s\<lparr>votes_received := x_9\<rparr>) = journal_ok s"
  "journal_ok (s\<lparr>current_time_ms := x_10\<rparr>) = journal_ok s"
  "journal_ok (s\<lparr>election_timeout_ms := x_11\<rparr>) = journal_ok s"
  "journal_ok (s\<lparr>election_deadline_ms := x_12\<rparr>) = journal_ok s"
  "journal_ok (s\<lparr>random_engine := x_13\<rparr>) = journal_ok s"
  "journal_ok (s\<lparr>pending_request_vote_actions := x_14\<rparr>) = journal_ok s"
  "journal_ok (s\<lparr>pending_append_entries_actions := x_15\<rparr>) = journal_ok s"
  "journal_ok (s\<lparr>next_index := x_16\<rparr>) = journal_ok s"
  "journal_ok (s\<lparr>match_index := x_17\<rparr>) = journal_ok s"
  "journal_ok (s\<lparr>disk := x_18\<rparr>) = journal_ok s"
  by (simp_all add: journal_ok_def)

lemma persistent_part_frame [simp]:
  "persistent_part (s\<lparr>last_applied := x_2\<rparr>) = persistent_part s"
  "persistent_part (s\<lparr>applied_commands := x_3\<rparr>) = persistent_part s"
  "persistent_part (s\<lparr>key_value_store := x_4\<rparr>) = persistent_part s"
  "persistent_part (s\<lparr>role := x_5\<rparr>) = persistent_part s"
  "persistent_part (s\<lparr>leader_id := x_8\<rparr>) = persistent_part s"
  "persistent_part (s\<lparr>votes_received := x_9\<rparr>) = persistent_part s"
  "persistent_part (s\<lparr>current_time_ms := x_10\<rparr>) = persistent_part s"
  "persistent_part (s\<lparr>election_timeout_ms := x_11\<rparr>) = persistent_part s"
  "persistent_part (s\<lparr>election_deadline_ms := x_12\<rparr>) = persistent_part s"
  "persistent_part (s\<lparr>random_engine := x_13\<rparr>) = persistent_part s"
  "persistent_part (s\<lparr>pending_request_vote_actions := x_14\<rparr>) = persistent_part s"
  "persistent_part (s\<lparr>pending_append_entries_actions := x_15\<rparr>) = persistent_part s"
  "persistent_part (s\<lparr>next_index := x_16\<rparr>) = persistent_part s"
  "persistent_part (s\<lparr>match_index := x_17\<rparr>) = persistent_part s"
  "persistent_part (s\<lparr>disk := x_18\<rparr>) = persistent_part s"
  by (simp_all add: persistent_part_def)

lemma replicas_frame [simp]:
  "replicas (s\<lparr>log_entries := x_0\<rparr>) = replicas s"
  "replicas (s\<lparr>commit_index := x_1\<rparr>) = replicas s"
  "replicas (s\<lparr>last_applied := x_2\<rparr>) = replicas s"
  "replicas (s\<lparr>applied_commands := x_3\<rparr>) = replicas s"
  "replicas (s\<lparr>key_value_store := x_4\<rparr>) = replicas s"
  "replicas (s\<lparr>role := x_5\<rparr>) = replicas s"
  "replicas (s\<lparr>current_term := x_6\<rparr>) = replicas s"
  "replicas (s\<lparr>voted_for := x_7\<rparr>) = replicas s"
  "replicas (s\<lparr>leader_id := x_8\<rparr>) = replicas s"
  "replicas (s\<lparr>votes_received := x_9\<rparr>) = replicas s"
  "replicas (s\<lparr>current_time_ms := x_10\<rparr>) = replicas s"
  "replicas (s\<lparr>election_timeout_ms := x_11\<rparr>) = replicas s"
  "replicas (s\<lparr>election_deadline_ms := x_12\<rparr>) = replicas s"
  "replicas (s\<lparr>random_engine := x_13\<rparr>) = replicas s"
  "replicas (s\<lparr>pending_request_vote_actions := x_14\<rparr>) = replicas s"
  "replicas (s\<lparr>pending_append_entries_actions := x_15\<rparr>) = replicas s"
  "replicas (s\<lparr>next_index := x_16\<rparr>) = replicas s"
  "replicas (s\<lparr>disk := x_18\<rparr>) = replicas s"
  by (simp_all add: replicas_def fun_eq_iff)

end
