(* ===== verification/Raft_Invariant.thy ===== *)
theory Raft_Invariant
  imports Raft_Core_Specs
begin

text \<open>
  The invariant of a \<^verbatim>\<open>RaftCore\<close> object and its preservation by every member function, on every
  exit: a normal return, an early return, and each exception.  With it comes the absence of
  reads outside a vector.  The theory ends with the constructor, which establishes it.
\<close>

section \<open>The invariant\<close>

text \<open>What the constructor checks of the configuration; nothing changes it afterwards.\<close>

definition config_ok :: "'g raft_core \<Rightarrow> bool" where
  "config_ok s \<longleftrightarrow>
     node_id s \<noteq> [] \<and> node_id s \<in> set (cluster_members s) \<and> [] \<notin> set (cluster_members s) \<and>
     distinct (cluster_members s) \<and> odd (length (cluster_members s)) \<and>
     0 < min_election_timeout_ms s \<and> min_election_timeout_ms s \<le> max_election_timeout_ms s"

lemma config_ok_frame [simp]:
  "config_ok (s\<lparr>log_entries := x_0\<rparr>) = config_ok s"
  "config_ok (s\<lparr>commit_index := x_1\<rparr>) = config_ok s"
  "config_ok (s\<lparr>last_applied := x_2\<rparr>) = config_ok s"
  "config_ok (s\<lparr>applied_commands := x_3\<rparr>) = config_ok s"
  "config_ok (s\<lparr>key_value_store := x_4\<rparr>) = config_ok s"
  "config_ok (s\<lparr>role := x_5\<rparr>) = config_ok s"
  "config_ok (s\<lparr>current_term := x_6\<rparr>) = config_ok s"
  "config_ok (s\<lparr>voted_for := x_7\<rparr>) = config_ok s"
  "config_ok (s\<lparr>leader_id := x_8\<rparr>) = config_ok s"
  "config_ok (s\<lparr>votes_received := x_9\<rparr>) = config_ok s"
  "config_ok (s\<lparr>current_time_ms := x_10\<rparr>) = config_ok s"
  "config_ok (s\<lparr>election_timeout_ms := x_11\<rparr>) = config_ok s"
  "config_ok (s\<lparr>election_deadline_ms := x_12\<rparr>) = config_ok s"
  "config_ok (s\<lparr>random_engine := x_13\<rparr>) = config_ok s"
  "config_ok (s\<lparr>pending_request_vote_actions := x_14\<rparr>) = config_ok s"
  "config_ok (s\<lparr>pending_append_entries_actions := x_15\<rparr>) = config_ok s"
  "config_ok (s\<lparr>next_index := x_16\<rparr>) = config_ok s"
  "config_ok (s\<lparr>match_index := x_17\<rparr>) = config_ok s"
  "config_ok (s\<lparr>disk := x_18\<rparr>) = config_ok s"
  by (simp_all add: config_ok_def)

text \<open>The log, the commit index and the application of committed entries.\<close>

definition history_ok :: "'g raft_core \<Rightarrow> bool" where
  "history_ok s \<longleftrightarrow> journal_ok s \<and> valid_log (current_term s) (log_entries s)"

text \<open>What each role implies about votes, leadership and replication progress.\<close>

definition role_ok :: "'g raft_core \<Rightarrow> bool" where
  "role_ok s \<longleftrightarrow>
     (role s = Follower \<longrightarrow>
        votes_received s = {} \<and> next_index s = Map.empty \<and> match_index s = Map.empty \<and>
        pending_request_vote_actions s = [] \<and> pending_append_entries_actions s = []) \<and>
     (role s = Candidate \<longrightarrow>
        current_term s \<noteq> 0 \<and> voted_for s = Some (node_id s) \<and> leader_id s = None \<and>
        node_id s \<in> votes_received s \<and> votes_received s \<subseteq> set (cluster_members s) \<and>
        next_index s = Map.empty \<and> match_index s = Map.empty \<and>
        pending_append_entries_actions s = []) \<and>
     (role s = Leader \<longrightarrow>
        current_term s \<noteq> 0 \<and> voted_for s = Some (node_id s) \<and> leader_id s = Some (node_id s) \<and>
        votes_received s \<subseteq> set (cluster_members s) \<and> majority_size s \<le> vote_count s \<and>
        replication_ok s \<and> pending_request_vote_actions s = [])"

text \<open>Identities the object refers to are members; queued actions go to other members.\<close>

definition references_ok :: "'g raft_core \<Rightarrow> bool" where
  "references_ok s \<longleftrightarrow>
     set_option (voted_for s) \<subseteq> set (cluster_members s) \<and>
     set_option (leader_id s) \<subseteq> set (cluster_members s) \<and>
     (\<forall>a \<in> set (pending_request_vote_actions s). rv_target a \<in> set (others s)) \<and>
     (\<forall>a \<in> set (pending_append_entries_actions s). ae_target a \<in> set (others s))"

definition core_ok :: "'g raft_core \<Rightarrow> bool" where
  "core_ok s \<longleftrightarrow> config_ok s \<and> history_ok s \<and> role_ok s \<and> references_ok s"

lemmas core_ok_defs = core_ok_def history_ok_def role_ok_def references_ok_def

text \<open>Time, the random engine and the disk do not matter to it.\<close>

lemma core_ok_disk [simp]: "core_ok (s\<lparr>disk := d\<rparr>) = core_ok s"
  by (simp add: core_ok_defs)

lemma core_ok_saved [simp]: "core_ok (saved s) = core_ok s"
  by (simp add: saved_def)

lemma core_ok_reset [simp]: "core_ok (reset_election_deadline lib s) = core_ok s"
proof -
  obtain g t d where r: "reset_election_deadline lib s =
      s\<lparr>random_engine := g, election_timeout_ms := t, election_deadline_ms := d\<rparr>"
    using reset_election_deadline_shape [of lib s] by blast
  show ?thesis unfolding r by (simp add: core_ok_defs)
qed

lemma core_ok_advance_time [simp]: "core_ok (advance_time ms s) = core_ok s"
  by (simp add: core_ok_defs advance_time_def)

lemma core_ok_length: "core_ok s \<Longrightarrow> length (log_entries s) \<le> log_max_size"
  by (simp add: core_ok_def history_ok_def journal_ok_def)

lemma core_ok_journal: "core_ok s \<Longrightarrow> journal_ok s"
  by (simp add: core_ok_def history_ok_def)

lemma core_ok_valid_log: "core_ok s \<Longrightarrow> valid_log (current_term s) (log_entries s)"
  by (simp add: core_ok_def history_ok_def)

lemma core_ok_replication: "core_ok s \<Longrightarrow> role s = Leader \<Longrightarrow> replication_ok s"
  by (simp add: core_ok_def role_ok_def)

lemma core_ok_distinct: "core_ok s \<Longrightarrow> distinct (cluster_members s)"
  by (simp add: core_ok_def config_ok_def)

lemma core_ok_commit: "core_ok s \<Longrightarrow> unat (commit_index s) \<le> length (log_entries s)"
  by (simp add: core_ok_def history_ok_def journal_ok_def)

text \<open>A state that satisfies it passes the validation of the storage layer.\<close>

lemma core_ok_persistable: "core_ok s \<Longrightarrow> persistable (persistent_part s)"
  unfolding persistable_def persistent_part_def
  by (auto simp: core_ok_def history_ok_def journal_ok_def references_ok_def config_ok_def
      word_le_nat_alt unat_last_index)

section \<open>Steps every operation is made of\<close>

lemma persist_state_leaves:
  assumes "core_ok s"
  shows "leaves (persist_state s) core_ok"
proof -
  have "core_ok (final (persist_state s))" by (rule persist_state_keeps) (simp add: assms)
  moreover have "fst (persist_state s) \<noteq> Inl UndefinedBehaviour"
    by (auto simp: persist_state_def file_raft_storage_def save_def validate_state_def Let_def
        split: sum.splits option.splits if_splits)
  ultimately show ?thesis by (simp add: leaves_def)
qed

lemma apply_committed_entries_leaves:
  assumes "core_ok s"
  shows "leaves (apply_committed_entries s) core_ok"
proof -
  obtain kv c i r where a: "apply_committed_entries s =
      (r, s\<lparr>key_value_store := kv, applied_commands := c, last_applied := i\<rparr>)"
    and j: "journal_ok (s\<lparr>key_value_store := kv, applied_commands := c, last_applied := i\<rparr>)"
    and "last_applied s \<le> i"
    and r: "r = Inr () \<and> i = commit_index s \<or> (\<exists>m. r = Inl (InvalidArgument m)) \<and> \<not> commands_ok (take (unat (commit_index s)) (log_entries s))"
    using apply_committed_entries_result [OF core_ok_journal [OF assms]] .
  have "core_ok (s\<lparr>key_value_store := kv, applied_commands := c, last_applied := i\<rparr>)"
    using assms j by (simp add: core_ok_defs)
  with a r show ?thesis by (auto simp: leaves_def)
qed

lemma core_ok_later_term:
  assumes "core_ok s" and "current_term s \<le> t" and "set_option v \<subseteq> set (cluster_members s)"
    and "set_option l \<subseteq> set (cluster_members s)"
  shows "core_ok (s\<lparr>current_term := t, role := Follower, voted_for := v, leader_id := l,
    votes_received := {}, pending_request_vote_actions := [], pending_append_entries_actions := [],
    next_index := Map.empty, match_index := Map.empty\<rparr>)"
  using assms valid_log_mono [OF core_ok_valid_log [OF assms(1)] assms(2)]
  by (simp add: core_ok_defs)

lemma become_follower_leaves:
  assumes "core_ok s"
  shows "leaves (become_follower t s) core_ok"
  using assms core_ok_later_term [OF assms, of t None "None"]
  by (auto simp: become_follower_def core_ok_def not_le intro!: persist_state_leaves)

lemma follow_leader_ok:
  assumes "core_ok s"
  shows "core_ok (follow_leader s)"
  using assms by (auto simp: follow_leader_def core_ok_defs)

lemma queue_request_vote_actions_leaves:
  assumes "core_ok s"
  shows "leaves (queue_request_vote_actions s) core_ok"
  using assms
  by (auto simp: queue_request_vote_actions_def make_request_vote_request_def Let_def core_ok_defs
      others_def)

lemma queue_heartbeat_actions_leaves:
  assumes "core_ok s"
  shows "leaves (queue_heartbeat_actions s) core_ok"
proof (cases "role s = Leader")
  case True
  then have "queue_heartbeat_actions s = (Inr (), s\<lparr>pending_append_entries_actions := heartbeat_actions s\<rparr>)"
    using queue_heartbeat_actions_eq core_ok_length core_ok_replication assms by blast
  then show ?thesis
    using assms True by (auto simp: heartbeat_actions_def core_ok_defs)
qed (simp add: queue_heartbeat_actions_def assms)

section \<open>Winning an election\<close>

lemma map_of_others:
  "map_of (map (\<lambda>m. (m, v)) ms) m = (if m \<in> set ms then Some v else None)"
  by (induction ms) auto

lemma initialize_leader_ok:
  assumes "core_ok s" and "role s = Candidate" and "majority_size s \<le> vote_count s"
  shows "core_ok (initialize_leader_replication_state (s\<lparr>role := Leader,
      leader_id := Some (node_id s), pending_request_vote_actions := []\<rparr>))"
proof -
  have "unat (last_log_index s + 1) = Suc (length (log_entries s))"
    using core_ok_length [OF assms(1)] by (simp add: last_log_index_def unat_Suc_small unat_last_index)
  then show ?thesis
    using assms
    by (auto simp: core_ok_defs initialize_leader_replication_state_def Let_def map_of_others
        last_log_index_def dom_def replication_ok_def others_def next_of_def match_of_def)
qed

lemma become_leader_leaves:
  assumes "core_ok s" and "role s = Candidate" and "majority_size s \<le> vote_count s"
  shows "leaves (become_leader s) core_ok"
  unfolding become_leader_def by (rule queue_heartbeat_actions_leaves [OF initialize_leader_ok [OF assms]])

section \<open>The operations\<close>

lemma core_ok_commit_index:
  assumes "core_ok s" and "commit_index s \<le> i" and "unat i \<le> length (log_entries s)"
  shows "core_ok (s\<lparr>commit_index := i\<rparr>)"
proof -
  have "journal_ok (s\<lparr>commit_index := i\<rparr>)"
    using core_ok_journal [OF assms(1)] assms(2,3) by (auto simp: journal_ok_def intro: order_trans)
  then show ?thesis using assms(1) by (simp add: core_ok_defs)
qed

lemma advance_commit_index_cases:
  assumes "core_ok s" and "role s = Leader"
  obtains (none) "advance_commit_index s = (Inr (), s)" and "\<forall>k. \<not> committable s k"
    | (found) i where "advance_commit_index s =
          bind_op apply_committed_entries (\<lambda>_. persist_state) (s\<lparr>commit_index := i\<rparr>)"
        and "committable s (unat i)" and "\<forall>k > unat i. \<not> committable s k"
        and "core_ok (s\<lparr>commit_index := i\<rparr>)"
proof -
  have last: "unat (last_log_index s) = length (log_entries s)"
    using core_ok_length [OF assms(1)] by (simp add: last_log_index_def unat_last_index)
  have beyond: "\<not> committable s k" if "length (log_entries s) < k" for k
    using that by (simp add: committable_def)
  show thesis
  proof (rule search_commit_index_result [OF core_ok_distinct [OF assms(1)]
        core_ok_replication [OF assms] order_eq_refl [OF last]])
    fix j
    assume j: "search_commit_index s (last_log_index s) = Inr (Some j)" "committable s (unat j)"
      "unat j \<le> unat (last_log_index s)"
      "\<forall>k. unat j < k \<and> k \<le> unat (last_log_index s) \<longrightarrow> \<not> committable s k"
    then have "core_ok (s\<lparr>commit_index := j\<rparr>)"
      using assms(1) by (intro core_ok_commit_index) (auto simp: committable_def word_le_nat_alt)
    moreover have "\<forall>k > unat j. \<not> committable s k"
      using j(4) beyond last by (metis not_less)
    ultimately show thesis
      using j found [of j] assms(2) by (simp add: advance_commit_index_def)
  next
    assume "search_commit_index s (last_log_index s) = Inr None"
      and "\<forall>k \<le> unat (last_log_index s). \<not> committable s k"
    moreover from this(2) have "\<forall>k. \<not> committable s k"
      using beyond last by (metis not_less)
    ultimately show thesis
      using none assms(2) by (simp add: advance_commit_index_def)
  qed
qed

lemma advance_commit_index_leaves:
  assumes "core_ok s"
  shows "leaves (advance_commit_index s) core_ok"
proof (cases "role s = Leader")
  case True
  from assms True show ?thesis
    by (cases rule: advance_commit_index_cases)
       (simp_all add: assms leaves_bind apply_committed_entries_leaves persist_state_leaves)
qed (simp add: advance_commit_index_def assms)

lemma core_ok_append:
  assumes "core_ok s" and "role s = Leader" and "cmd \<noteq> []" and "length (log_entries s) < log_max_size"
  shows "core_ok (s\<lparr>log_entries := log_entries s @ [\<lparr>entry_term = current_term s, command = cmd\<rparr>]\<rparr>)"
proof -
  have j: "journal_ok s" and v: "valid_log (current_term s) (log_entries s)"
    and t: "current_term s \<noteq> 0" and r: "replication_ok s"
    using assms(1,2) by (simp_all add: core_ok_defs)
  have "unat (last_applied s) \<le> length (log_entries s)"
    using j by (simp add: journal_ok_def word_le_nat_alt)
  with j assms(4) have "journal_ok (s\<lparr>log_entries := log_entries s @ [\<lparr>entry_term = current_term s, command = cmd\<rparr>]\<rparr>)"
    unfolding journal_ok_def by auto
  moreover have "valid_log (current_term s) (log_entries s @ [\<lparr>entry_term = current_term s, command = cmd\<rparr>])"
    using v t assms(3) by (auto simp: valid_log_def sorted_append set_log_terms)
  moreover have "replication_ok (s\<lparr>log_entries := log_entries s @ [\<lparr>entry_term = current_term s, command = cmd\<rparr>]\<rparr>)"
    using r by (fastforce simp: replication_ok_def)
  ultimately show ?thesis using assms(1,2) by (auto simp: core_ok_defs)
qed

lemma append_command_leaves:
  assumes "core_ok s" and "length (log_entries s) < log_max_size"
  shows "leaves (append_command cmd s) core_ok"
proof (cases "role s = Leader \<and> cmd \<noteq> []")
  case True
  have "leaves (queue_heartbeat_actions t) core_ok" if "core_ok t" for t :: "'a raft_core"
    using that by (rule queue_heartbeat_actions_leaves)
  then show ?thesis
    using True core_ok_append [OF assms(1) _ _ assms(2)]
    by (auto simp: append_command_def intro!: leaves_bind advance_commit_index_leaves
        persist_state_leaves)
qed (auto simp: append_command_def assms)

lemma later_term: "(t :: u64) \<noteq> - 1 \<Longrightarrow> t \<le> t + 1"
  using unat_Suc_less [of t "- 1"] by (simp add: word_order.not_eq_extremum word_le_nat_alt)

text \<open>The state in which a campaign starts, and the campaign itself.\<close>

definition candidacy :: "'g raft_core \<Rightarrow> 'g raft_core" where
  "candidacy s = s\<lparr>current_term := current_term s + 1, role := Candidate, leader_id := None,
     pending_append_entries_actions := [], next_index := Map.empty, match_index := Map.empty,
     voted_for := Some (node_id s), votes_received := {node_id s}\<rparr>"

definition campaign :: "('g raft_core, unit) op" where
  "campaign = bind_op queue_request_vote_actions (\<lambda>_ s.
     if majority_size s \<le> vote_count s then become_leader s else (Inr (), s))"

lemma start_election_eq:
  "start_election lib s = bind_op persist_state (\<lambda>_. campaign) (reset_election_deadline lib (candidacy s))"
  by (simp add: start_election_def candidacy_def campaign_def)

lemma core_ok_candidacy:
  assumes "core_ok s" and "current_term s \<noteq> - 1"
  shows "core_ok (candidacy s)"
proof -
  have nz: "current_term s + 1 \<noteq> 0"
    using assms(2) by (simp add: eq_neg_iff_add_eq_0)
  have v: "valid_log (current_term s + 1) (log_entries s)"
    by (rule valid_log_mono [OF core_ok_valid_log [OF assms(1)] later_term [OF assms(2)]])
  have m: "node_id s \<in> set (cluster_members s)"
    using assms(1) by (simp add: core_ok_def config_ok_def)
  show ?thesis
    unfolding candidacy_def using assms(1) nz v m by (simp add: core_ok_defs)
qed

text \<open>The request votes are queued for every other member.\<close>

definition vote_actions :: "'g raft_core \<Rightarrow> request_vote_action list" where
  "vote_actions s = map (\<lambda>m. \<lparr>rv_target = m, rv_request =
     \<lparr>rv_term = current_term s, candidate_id = node_id s, rv_last_log_index = last_log_index s,
      rv_last_log_term = last_log_term s\<rparr>\<rparr>) (others s)"

lemma queue_request_vote_actions_eq:
  "role s = Candidate \<Longrightarrow> queue_request_vote_actions s =
     (Inr (), s\<lparr>pending_request_vote_actions := vote_actions s\<rparr>)"
  by (simp add: queue_request_vote_actions_def make_request_vote_request_def vote_actions_def others_def)

lemma campaign_eq:
  "role s = Candidate \<Longrightarrow> campaign s =
     (let t = s\<lparr>pending_request_vote_actions := vote_actions s\<rparr>
      in if majority_size s \<le> vote_count s then become_leader t else (Inr (), t))"
  by (simp add: campaign_def queue_request_vote_actions_eq Let_def)

lemma core_ok_vote_actions:
  "core_ok s \<Longrightarrow> role s = Candidate \<Longrightarrow> core_ok (s\<lparr>pending_request_vote_actions := vote_actions s\<rparr>)"
  by (auto simp: core_ok_defs vote_actions_def others_def)

lemma campaign_leaves:
  assumes "core_ok s" and "role s = Candidate"
  shows "leaves (campaign s) core_ok"
  using assms core_ok_vote_actions [OF assms]
  by (auto simp: campaign_eq Let_def intro!: become_leader_leaves)

lemma start_election_leaves:
  assumes "core_ok s" and "current_term s \<noteq> - 1"
  shows "leaves (start_election lib s) core_ok"
proof -
  let ?s1 = "reset_election_deadline lib (candidacy s)"
  have ok: "core_ok ?s1" using core_ok_candidacy [OF assms] by simp
  show ?thesis
    unfolding start_election_eq
  proof (rule leaves_bind [where m = persist_state, OF persist_state_leaves [OF ok]])
    fix a t
    assume "persist_state ?s1 = (Inr a, t)" and "core_ok t"
    moreover from this persist_state_disk [of ?s1] have "role t = Candidate"
      by (auto simp: candidacy_def)
    ultimately show "leaves (campaign t) core_ok" by (simp add: campaign_leaves)
  qed
qed

lemma tick_leaves:
  assumes "core_ok s" and "current_term s \<noteq> - 1"
  shows "leaves (tick lib ms s) core_ok"
proof -
  have "core_ok (advance_time ms s)" using assms(1) by simp
  moreover have "current_term (advance_time ms s) \<noteq> - 1"
    using assms(2) by (simp add: advance_time_def)
  ultimately show ?thesis
    by (auto simp: tick_def Let_def intro!: leaves_bind start_election_leaves)
qed

lemma receive_vote_leaves:
  assumes "core_ok s"
  shows "leaves (receive_vote voter response s) core_ok"
proof -
  let ?s1 = "s\<lparr>votes_received := insert voter (votes_received s)\<rparr>"
  have "core_ok ?s1 \<and> role ?s1 = Candidate" if "role s = Candidate" "voter \<in> set (cluster_members s)"
    using assms that by (auto simp: core_ok_defs)
  then have "leaves (become_leader ?s1) core_ok"
    if "role s = Candidate" "voter \<in> set (cluster_members s)" "majority_size ?s1 \<le> vote_count ?s1"
    using that by (intro become_leader_leaves) auto
  moreover have "core_ok ?s1" if "role s = Candidate" "voter \<in> set (cluster_members s)"
    using assms that by (auto simp: core_ok_defs)
  ultimately show ?thesis
    using assms by (auto simp: receive_vote_def Let_def become_follower_leaves)
qed

lemma handle_request_vote_leaves:
  assumes "core_ok s"
  shows "leaves (handle_request_vote lib request s) core_ok"
proof -
  have vote: "core_ok (t\<lparr>voted_for := Some (candidate_id request)\<rparr>)"
    if "core_ok t" "candidate_id request \<in> set (cluster_members t)"
      "voted_for t = None \<or> voted_for t = Some (candidate_id request)" for t :: "'a raft_core"
    using that by (auto simp: core_ok_defs)
  have m: "cluster_members (final (become_follower (rv_term request) s)) = cluster_members s"
    by (auto simp: become_follower_def intro: persist_state_keeps)
  show ?thesis
  proof (cases "candidate_id request \<notin> set (cluster_members s) \<or> rv_term request < current_term s")
    case True
    then show ?thesis using assms by (auto simp: handle_request_vote_def)
  next
    case False
    then show ?thesis
      unfolding handle_request_vote_def
      using assms m vote
      by (auto simp: Let_def intro!: leaves_bind [where Q = core_ok] become_follower_leaves persist_state_leaves)
  qed
qed

text \<open>Progress values within the log, for a known follower.\<close>

lemma core_ok_match_index:
  assumes "core_ok s" and "role s = Leader" and "m \<in> set (others s)"
    and "unat i \<le> length (log_entries s)"
  shows "core_ok (s\<lparr>match_index := (match_index s)(m \<mapsto> i)\<rparr>)"
proof -
  have "replication_ok (s\<lparr>match_index := (match_index s)(m \<mapsto> i)\<rparr>)"
    using core_ok_replication [OF assms(1,2)] assms(3,4)
    by (auto simp: replication_ok_def next_of_def match_of_def others_def)
  then show ?thesis using assms(1,2) by (auto simp: core_ok_defs)
qed

lemma core_ok_next_index:
  assumes "core_ok s" and "role s = Leader" and "m \<in> set (others s)"
    and "0 < unat i" and "unat i \<le> Suc (length (log_entries s))"
  shows "core_ok (s\<lparr>next_index := (next_index s)(m \<mapsto> i)\<rparr>)"
proof -
  have "replication_ok (s\<lparr>next_index := (next_index s)(m \<mapsto> i)\<rparr>)"
    using core_ok_replication [OF assms(1,2)] assms(3-5)
    by (auto simp: replication_ok_def next_of_def match_of_def others_def)
  then show ?thesis using assms(1,2) by (auto simp: core_ok_defs)
qed

text \<open>The leader's state after a follower has confirmed index \<open>r\<close>.\<close>

lemma core_ok_confirmed:
  fixes s :: "'g raft_core" and i k r :: u64
  assumes "core_ok s" and "role s = Leader" and "m \<in> set (others s)" and "r \<le> last_log_index s"
  defines "s1 \<equiv> if k < r then s\<lparr>match_index := (match_index s)(m \<mapsto> r)\<rparr> else s"
  shows "core_ok (if i < r + 1 then s1\<lparr>next_index := (next_index s1)(m \<mapsto> r + 1)\<rparr> else s1)"
proof -
  have last: "unat (last_log_index s) = length (log_entries s)"
    using core_ok_length [OF assms(1)] by (simp add: last_log_index_def unat_last_index)
  have le: "unat r \<le> length (log_entries s)" using assms(4) last by (simp add: word_le_nat_alt)
  then have c1: "core_ok s1" by (simp add: assms(1) s1_def core_ok_match_index [OF assms(1-3)])
  have s1: "role s1 = Leader" "m \<in> set (others s1)" "log_entries s1 = log_entries s"
    using assms(2,3) by (simp_all add: s1_def)
  have "unat (r + 1) = Suc (unat r)"
    using le core_ok_length [OF assms(1)] by (intro unat_Suc_small) simp
  with le have "core_ok (s1\<lparr>next_index := (next_index s1)(m \<mapsto> r + 1)\<rparr>)"
    by (intro core_ok_next_index [OF c1 s1(1,2)]) (simp_all add: s1(3))
  with c1 show ?thesis by simp
qed

lemma receive_append_entries_response_leaves:
  assumes "core_ok s"
  shows "leaves (receive_append_entries_response m response s) core_ok"
proof (cases "m \<in> set (others s) \<and> aer_term response = current_term s \<and> role s = Leader")
  case False
  then show ?thesis
    using assms by (auto simp: receive_append_entries_response_def become_follower_leaves others_def)
next
  case True
  then have m: "m \<in> set (others s)" and l: "role s = Leader" by simp_all
  obtain i k where ik: "next_index s m = Some i" "match_index s m = Some k"
    "0 < unat i" "unat i \<le> Suc (length (log_entries s))"
    using replication_okE [OF core_ok_replication [OF assms l] m] by metis
  have retry: "core_ok (s\<lparr>next_index := (next_index s)(m \<mapsto> i - 1)\<rparr>)" if "1 < i"
  proof -
    have "0 < unat (i - 1)" and "unat (i - 1) \<le> unat i" using that by unat_arith+
    then show ?thesis using ik by (intro core_ok_next_index [OF assms l m]) auto
  qed
  let ?r = "matched_index response"
  let ?s1 = "if k < ?r then s\<lparr>match_index := (match_index s)(m \<mapsto> ?r)\<rparr> else s"
  let ?s2 = "if i < ?r + 1 then ?s1\<lparr>next_index := (next_index ?s1)(m \<mapsto> ?r + 1)\<rparr> else ?s1"
  have eq: "receive_append_entries_response m response s =
      (if \<not> success response then
         (Inr (), if 1 < i then s\<lparr>next_index := (next_index s)(m \<mapsto> i - 1)\<rparr> else s)
       else if last_log_index s < ?r
         then (Inl (InvalidArgument ''Follower matched index exceeds leader log''), s)
       else advance_commit_index ?s2)"
    using True ik(1,2) by (simp add: receive_append_entries_response_def others_def Let_def)
  show ?thesis
    unfolding eq using assms retry advance_commit_index_leaves [OF core_ok_confirmed [OF assms l m, of ?r i k]]
    by (cases "success response"; cases "last_log_index s < ?r"; cases "1 < i") (simp_all split del: if_split)
qed

text \<open>The first part of \<open>handle_append_entries\<close>: the node follows the sender.\<close>

definition followed :: "'g raft_core \<Rightarrow> u64 \<Rightarrow> 'g raft_core \<Rightarrow> bool" where
  "followed s t u \<longleftrightarrow> core_ok u \<and> role u = Follower \<and> current_term u = t \<and>
     log_entries u = log_entries s \<and> commit_index u = commit_index s \<and>
     cluster_members u = cluster_members s"

lemma followed_reset_leader [simp]:
  "m \<in> set (cluster_members s) \<Longrightarrow> followed s t u \<Longrightarrow>
     followed s t (reset_election_deadline lib (u\<lparr>leader_id := Some m\<rparr>))"
proof -
  assume m: "m \<in> set (cluster_members s)" and f: "followed s t u"
  then have "core_ok (u\<lparr>leader_id := Some m\<rparr>)" by (auto simp: followed_def core_ok_defs)
  with f show ?thesis by (simp add: followed_def)
qed

lemma accept_leader_leaves:
  assumes "core_ok s" and "current_term s \<le> t"
  shows "leaves ((if current_term s < t then become_follower t else modify_op follow_leader) s)
    (followed s t)"
proof (cases "current_term s < t")
  case True
  let ?s1 = "s\<lparr>current_term := t, role := Follower, voted_for := None, leader_id := None,
    votes_received := {}, pending_request_vote_actions := [], pending_append_entries_actions := [],
    next_index := Map.empty, match_index := Map.empty\<rparr>"
  have c: "core_ok ?s1" using core_ok_later_term [OF assms, of None None] by simp
  have "followed s t (final (persist_state ?s1))"
    by (rule persist_state_keeps) (simp add: followed_def c)
  moreover have "fst (persist_state ?s1) \<noteq> Inl UndefinedBehaviour"
    using persist_state_leaves [OF c] by (simp add: leaves_def)
  ultimately show ?thesis using True by (simp add: become_follower_def leaves_def not_le [symmetric])
next
  case False
  then show ?thesis
    using assms follow_leader_ok [OF assms(1)]
    by (auto simp: followed_def follow_leader_def)
qed

lemma commit_and_reply_leaves:
  assumes "core_ok s"
    and "unat (prev_log_index request) + length (entries request) \<le> length (log_entries s)"
  shows "leaves (commit_and_reply request s) core_ok"
proof -
  let ?m = "prev_log_index request + of_nat (length (entries request)) :: u64"
  let ?h = "if leader_commit request < ?m then leader_commit request else ?m"
  have "unat ?m = unat (prev_log_index request) + length (entries request)"
    using assms(2) core_ok_length [OF assms(1)] by (intro unat_add_small) simp
  then have "unat ?h \<le> length (log_entries s)"
    using assms(2) by (auto simp: word_less_nat_alt)
  then have "core_ok (s\<lparr>commit_index := ?h\<rparr>)" if "commit_index s < ?h"
    using that core_ok_commit_index [OF assms(1), of ?h] by simp
  then show ?thesis
    unfolding commit_and_reply_def Let_def
    using assms(1)
    by (intro leaves_bind) (auto intro: apply_committed_entries_leaves leaves_bind persist_state_leaves)
qed

text \<open>Replacing the log by the reconciled one.\<close>

lemma core_ok_reconciled:
  assumes "core_ok s" and "role s = Follower"
    and "length (log_entries s) + length inc \<le> log_max_size" and "unat prev \<le> length (log_entries s)"
    and "entries_acceptable (current_term s) (term_at (log_entries s) (unat prev)) inc"
    and "reconcile (commit_index s) prev (log_entries s) 0 inc = Some (kept, rest)"
  shows "core_ok (s\<lparr>log_entries := kept @ rest\<rparr>)"
    and "unat prev + length inc \<le> length (kept @ rest)"
proof -
  note j = core_ok_journal [OF assms(1)] and v = core_ok_valid_log [OF assms(1)]
  have b: "unat prev + length inc \<le> log_max_size" using assms(3,4) by simp
  note r = b assms(4,6)
  show "unat prev + length inc \<le> length (kept @ rest)" by (rule reconcile_length(1) [OF r])
  have c: "take (unat (commit_index s)) (kept @ rest) = take (unat (commit_index s)) (log_entries s)"
    and cl: "unat (commit_index s) \<le> length (kept @ rest)"
    using reconcile_keeps_committed [OF r core_ok_commit [OF assms(1)]] by simp_all
  have "unat (last_applied s) \<le> unat (commit_index s)"
    using j by (simp add: journal_ok_def word_le_nat_alt)
  then have la: "take (unat (last_applied s)) (kept @ rest) = take (unat (last_applied s)) (log_entries s)"
    using c by (metis min.absorb1 take_take)
  have "length (kept @ rest) \<le> log_max_size"
    using reconcile_length(2) [OF r] assms(3) b by (simp add: max_def split: if_splits)
  moreover have "applied_commands s = map command (take (unat (last_applied s)) (kept @ rest))"
    unfolding la using j unfolding journal_ok_def by blast
  ultimately have "journal_ok (s\<lparr>log_entries := kept @ rest\<rparr>)"
    using j cl unfolding journal_ok_def by (elim conjE) (simp del: take_append)
  moreover have "valid_log (current_term s) (kept @ rest)"
    using assms(5) by (intro reconcile_valid_log [OF r v]) (auto simp: entries_acceptable_iff)
  ultimately show "core_ok (s\<lparr>log_entries := kept @ rest\<rparr>)"
    using assms(1,2) by (auto simp: core_ok_defs)
qed

text \<open>The second part: what follows once the sender is accepted as the leader.\<close>

definition append_verified ::
    "append_entries_request \<Rightarrow> ('g raft_core, append_entries_response) op" where
  "append_verified request s =
     (let reject = \<lparr>aer_term = current_term s, success = False, matched_index = 0\<rparr> in
      case previous_log_position_matches s (prev_log_index request) (prev_log_term request) of
        Inl e \<Rightarrow> (Inl e, s)
      | Inr False \<Rightarrow> (Inr reject, s)
      | Inr True \<Rightarrow>
          (if \<not> entries_acceptable (ae_term request) (prev_log_term request) (entries request)
             then (Inr reject, s)
           else (case reconcile (commit_index s) (prev_log_index request) (log_entries s) 0 (entries request) of
                   None \<Rightarrow> (Inr reject, s)
                 | Some (kept, rest) \<Rightarrow> commit_and_reply request (s\<lparr>log_entries := kept @ rest\<rparr>))))"

lemma handle_append_entries_eq:
  "handle_append_entries lib request s =
     (if ae_leader_id request \<notin> set (cluster_members s) \<or> ae_term request < current_term s
        then (Inr \<lparr>aer_term = current_term s, success = False, matched_index = 0\<rparr>, s)
      else bind_op
        (if current_term s < ae_term request then become_follower (ae_term request) else modify_op follow_leader)
        (\<lambda>_ u. append_verified request
           (reset_election_deadline lib (u\<lparr>leader_id := Some (ae_leader_id request)\<rparr>))) s)"
  by (cases "ae_leader_id request \<in> set (cluster_members s)"; cases "ae_term request < current_term s")
     (simp_all only: handle_append_entries_def append_verified_def Let_def if_True if_False simp_thms
       if_cancel)

lemma append_verified_leaves:
  assumes "core_ok u" and "role u = Follower" and "current_term u = ae_term request"
    and "length (log_entries u) + length (entries request) \<le> log_max_size"
  shows "leaves (append_verified request u) core_ok"
proof -
  let ?prev = "prev_log_index request" and ?inc = "entries request"
  have "leaves (commit_and_reply request (u\<lparr>log_entries := kept @ rest\<rparr>)) core_ok"
    if "unat ?prev \<le> length (log_entries u)"
      "entries_acceptable (ae_term request) (term_at (log_entries u) (unat ?prev)) ?inc"
      "reconcile (commit_index u) ?prev (log_entries u) 0 ?inc = Some (kept, rest)" for kept rest
    using core_ok_reconciled [OF assms(1,2,4) that(1) _ that(3)] that(2)
    by (intro commit_and_reply_leaves) (simp_all add: assms(3))
  then show ?thesis
    using assms(1)
    by (auto simp: append_verified_def Let_def previous_log_position_matches_eq core_ok_length
        split: option.split bool.split)
qed

lemma handle_append_entries_leaves:
  assumes "core_ok s" and "length (log_entries s) + length (entries request) \<le> log_max_size"
  shows "leaves (handle_append_entries lib request s) core_ok"
proof (cases "ae_leader_id request \<notin> set (cluster_members s) \<or> ae_term request < current_term s")
  case True
  then show ?thesis using assms(1) by (auto simp: handle_append_entries_eq)
next
  case False
  let ?first = "if current_term s < ae_term request then become_follower (ae_term request)
    else modify_op follow_leader"
  from False have t: "current_term s \<le> ae_term request" and m: "ae_leader_id request \<in> set (cluster_members s)"
    by auto
  have rest: "leaves (append_verified request
      (reset_election_deadline lib (u\<lparr>leader_id := Some (ae_leader_id request)\<rparr>))) core_ok"
    if "followed s (ae_term request) u" for u :: "'a raft_core"
    using followed_reset_leader [OF m that, of lib] assms(2) unfolding followed_def
    by (intro append_verified_leaves) auto
  have "leaves (bind_op ?first (\<lambda>_ u. append_verified request
      (reset_election_deadline lib (u\<lparr>leader_id := Some (ae_leader_id request)\<rparr>))) s) core_ok"
    by (rule leaves_bind_weak [where m = ?first, OF accept_leader_leaves [OF assms(1) t]])
       (erule rest | simp add: followed_def)+
  then show ?thesis
    using False by (simp add: handle_append_entries_eq)
qed

section \<open>Construction\<close>

lemma insert_members_iff:
  "insert_members acc ms = Inr r \<longleftrightarrow>
     r = acc @ ms \<and> [] \<notin> set ms \<and> distinct ms \<and> set acc \<inter> set ms = {}"
  by (induction acc ms rule: insert_members.induct) auto

lemma check_configuration_iff:
  "check_configuration self lo hi members = Inr inserted \<longleftrightarrow>
     inserted = members \<and> self \<noteq> [] \<and> self \<in> set members \<and> [] \<notin> set members \<and> distinct members \<and>
     odd (length members) \<and> 0 < lo \<and> lo \<le> hi"
proof -
  have "members \<noteq> [] \<and> length members mod 2 \<noteq> 0 \<longleftrightarrow> odd (length members)"
    by (auto simp: odd_iff_mod_2_eq_one)
  moreover have "lo \<noteq> 0 \<longleftrightarrow> 0 < lo" by (simp add: word_neq_0_conv)
  ultimately show ?thesis
    by (auto simp: check_configuration_def bind_exc_Inr_iff insert_members_iff not_less)
qed

text \<open>The persistent part a constructor starts from.\<close>

definition boot_state :: "u64 \<Rightarrow> log_entry list \<Rightarrow> string \<Rightarrow> state_file \<Rightarrow> exc + persistent_state" where
  "boot_state initial_term initial_log path f =
     (if path \<noteq> [] \<and> file_exists f then load f
      else Inr \<lparr>ps_current_term = initial_term, ps_voted_for = None, ps_log_entries = initial_log,
                ps_commit_index = 0\<rparr>)"

definition booted :: "persistent_state \<Rightarrow> 'g raft_core \<Rightarrow> 'g raft_core" where
  "booted st s = s\<lparr>current_term := ps_current_term st, voted_for := ps_voted_for st,
     log_entries := ps_log_entries st, commit_index := ps_commit_index st\<rparr>"

lemma restore_persistent_state_eq:
  fixes lib self members t0 log0 lo hi seed path f
  defines "c \<equiv> initial_core lib self members t0 log0 lo hi seed path f"
  shows "restore_persistent_state c =
     (case boot_state t0 log0 path f of Inl e \<Rightarrow> (Inl e, c) | Inr st \<Rightarrow> (Inr (), booted st c))"
  by (simp add: c_def restore_persistent_state_def boot_state_def booted_def initial_core_def
      file_raft_storage_def split: sum.split)

lemma check_recovered_cases:
  obtains (ok) "check_recovered s = (Inr (), s)" and "set_option (voted_for s) \<subseteq> set (cluster_members s)"
      and "commit_index s \<le> last_log_index s" and "valid_log (current_term s) (log_entries s)"
    | (bad) m where "check_recovered s = (Inl (InvalidArgument m), s)"
      and "\<not> (set_option (voted_for s) \<subseteq> set (cluster_members s) \<and> commit_index s \<le> last_log_index s \<and>
             valid_log (current_term s) (log_entries s))"
proof (cases "set_option (voted_for s) \<subseteq> set (cluster_members s) \<and> commit_index s \<le> last_log_index s \<and>
             valid_log (current_term s) (log_entries s)")
  case True
  moreover from this have "check_recovered s = (Inr (), s)"
    by (cases "voted_for s") (auto simp: check_recovered_def check_log_valid [symmetric] not_less)
  ultimately show thesis using ok by blast
next
  case False
  have "\<exists>m. check_recovered s = (Inl (InvalidArgument m), s)"
    using False
    by (auto simp: check_recovered_def check_log_valid [symmetric] not_less split: option.split)
  with False show thesis using bad by blast
qed

text \<open>
  A constructed node: the invariant holds, the persistent part is the one of the file or of
  the arguments, every committed entry is applied, and the rest starts from scratch.
\<close>

definition fresh_node :: "persistent_state \<Rightarrow> 'g raft_core \<Rightarrow> bool" where
  "fresh_node st s \<longleftrightarrow> core_ok s \<and> role s = Follower \<and> leader_id s = None \<and>
     persistent_part s = st \<and> last_applied s = commit_index s"

lemma persistent_part_reset [simp]:
  "persistent_part (reset_election_deadline lib s) = persistent_part s"
  by (simp add: persistent_part_def)

lemma fresh_node_reset [simp]: "fresh_node st (reset_election_deadline lib s) = fresh_node st s"
  by (simp add: fresh_node_def)

lemma core_ok_booted:
  fixes lib self members t0 log0 lo hi seed path f st
  defines "s \<equiv> booted st (initial_core lib self members t0 log0 lo hi seed path f)"
  assumes "check_configuration self lo hi members = Inr members"
    and "set_option (ps_voted_for st) \<subseteq> set members" and "ps_commit_index st \<le> last_index_of (ps_log_entries st)"
    and "valid_log (ps_current_term st) (ps_log_entries st)" and "length (ps_log_entries st) \<le> log_max_size"
  shows "core_ok s"
proof -
  have "unat (ps_commit_index st) \<le> length (ps_log_entries st)"
    using assms(4) unat_last_index [OF assms(6)] by (simp add: word_le_nat_alt)
  then show ?thesis
    using assms(2-) unfolding s_def booted_def initial_core_def check_configuration_iff core_ok_defs
      config_ok_def journal_ok_def
    by (simp add: others_def)
qed

end
