(* ===== verification/Raft_History.thy ===== *)
theory Raft_History
  imports Raft_Invariant
begin

text \<open>
  The life of a \<^verbatim>\<open>RaftCore\<close> object: the constructor, the calls of its public interface as a step
  relation, the invariant of every reachable object, and what no call ever undoes: terms grow,
  a vote is not changed within its term, and what is committed and applied stays.
\<close>

section \<open>The constructor\<close>

lemma check_configuration_order:
  assumes "iterates_once lib" and "check_configuration self lo hi members = Inr inserted"
  shows "check_configuration self lo hi (set_order lib members) = Inr (set_order lib members)"
proof -
  have m: "distinct members" "odd (length members)"
    using assms(2) by (simp_all add: check_configuration_iff)
  then have o: "distinct (set_order lib members)" "set (set_order lib members) = set members"
    using assms(1) by (auto simp: iterates_once_def)
  then have "length (set_order lib members) = length members"
    using m(1) by (metis distinct_card)
  with o assms(2) show ?thesis by (auto simp: check_configuration_iff)
qed

text \<open>What the constructor requires of the persistent part, besides its own form.\<close>

definition acceptable_boot :: "string list \<Rightarrow> persistent_state \<Rightarrow> bool" where
  "acceptable_boot members st \<longleftrightarrow>
     set_option (ps_voted_for st) \<subseteq> set members \<and>
     ps_commit_index st \<le> last_index_of (ps_log_entries st) \<and>
     valid_log (ps_current_term st) (ps_log_entries st)"

lemma boot_state_length:
  "boot_state t0 log0 path f = Inr st \<Longrightarrow> length log0 \<le> log_max_size \<Longrightarrow>
     length (ps_log_entries st) \<le> log_max_size"
  by (auto simp: boot_state_def storable_def dest: load_storable split: if_splits)

lemma boot_state_defined: "boot_state t0 log0 path f \<noteq> Inl UndefinedBehaviour"
  using load_defined by (auto simp: boot_state_def)

text \<open>The run of the constructor after the configuration has been accepted.\<close>

lemma new_raft_core_run:
  fixes lib self members t0 log0 lo hi seed path f st
  defines "c \<equiv> initial_core lib self (set_order lib members) t0 log0 lo hi seed path f"
  assumes lib: "iterates_once lib" and conf: "check_configuration self lo hi members = Inr members"
    and boot: "boot_state t0 log0 path f = Inr st" and len: "length log0 \<le> log_max_size"
    and acc: "acceptable_boot members st"
  obtains r u where "core_ok u" and "role u = Follower" and "leader_id u = None" and "disk u = f"
    and "persistent_part u = st" and "storage_path u = path"
    and "cluster_members u = set_order lib members" and "node_id u = self"
    and "new_raft_core lib self members t0 log0 lo hi seed path f =
      (case bind_op (\<lambda>_. (r, u)) (\<lambda>_ s. persist_state (reset_election_deadline lib s)) u of
         (Inl e, s) \<Rightarrow> (Inl e, disk s) | (Inr _, s) \<Rightarrow> (Inr s, disk s))"
    and "r = Inr () \<and> last_applied u = commit_index u \<or>
      (\<exists>m. r = Inl (InvalidArgument m)) \<and> \<not> commands_ok (take (unat (ps_commit_index st)) (ps_log_entries st))"
proof -
  let ?s = "booted st c"
  have o: "set (set_order lib members) = set members"
    using lib conf by (simp add: iterates_once_def check_configuration_iff)
  have ok: "core_ok ?s"
    unfolding c_def using check_configuration_order [OF lib conf] acc boot_state_length [OF boot len]
    by (intro core_ok_booted) (simp_all add: acceptable_boot_def o)
  have recovered: "check_recovered ?s = (Inr (), ?s)"
    by (cases rule: check_recovered_cases [of ?s])
       (use acc in \<open>auto simp: acceptable_boot_def booted_def c_def initial_core_def o last_log_index_def\<close>)
  obtain kv cs i r where a: "apply_committed_entries ?s =
      (r, ?s\<lparr>key_value_store := kv, applied_commands := cs, last_applied := i\<rparr>)"
    and j: "journal_ok (?s\<lparr>key_value_store := kv, applied_commands := cs, last_applied := i\<rparr>)"
    and "last_applied ?s \<le> i"
    and r: "r = Inr () \<and> i = commit_index ?s \<or>
      (\<exists>m. r = Inl (InvalidArgument m)) \<and> \<not> commands_ok (take (unat (commit_index ?s)) (log_entries ?s))"
    using apply_committed_entries_result [OF core_ok_journal [OF ok]] .
  let ?u = "?s\<lparr>key_value_store := kv, applied_commands := cs, last_applied := i\<rparr>"
  show thesis
  proof (rule that [of ?u r])
    show "core_ok ?u" using ok j by (simp add: core_ok_defs)
    show "new_raft_core lib self members t0 log0 lo hi seed path f =
      (case bind_op (\<lambda>_. (r, ?u)) (\<lambda>_ s. persist_state (reset_election_deadline lib s)) ?u of
         (Inl e, s) \<Rightarrow> (Inl e, disk s) | (Inr _, s) \<Rightarrow> (Inr s, disk s))"
      using a conf boot restore_persistent_state_eq [of lib self "set_order lib members" t0 log0 lo hi seed path f]
      by (simp add: new_raft_core_def c_def [symmetric] recovered bind_op_def)
    show "r = Inr () \<and> last_applied ?u = commit_index ?u \<or>
      (\<exists>m. r = Inl (InvalidArgument m)) \<and> \<not> commands_ok (take (unat (ps_commit_index st)) (ps_log_entries st))"
      using r by (simp add: booted_def)
  qed (simp_all add: booted_def c_def initial_core_def persistent_part_def)
qed

text \<open>
  Every outcome of the constructor: an exception, or a fresh node with the persistent part it was
  given.
\<close>

lemma new_raft_core_cases:
  assumes lib: "iterates_once lib" and len: "length log0 \<le> log_max_size"
  obtains (rejected) e d where "new_raft_core lib self members t0 log0 lo hi seed path f = (Inl e, d)"
      and "e \<noteq> UndefinedBehaviour"
    | (built) s st where "new_raft_core lib self members t0 log0 lo hi seed path f = (Inr s, disk s)"
      and "check_configuration self lo hi members = Inr members"
      and "boot_state t0 log0 path f = Inr st" and "fresh_node st s" and "storage_path s = path"
      and "cluster_members s = set_order lib members" and "node_id s = self"
proof (cases "check_configuration self lo hi members")
  case (Inl e)
  moreover have "insert_members acc ms \<noteq> Inl UndefinedBehaviour" for acc ms
    by (induction acc ms rule: insert_members.induct) simp_all
  then have "check_configuration self lo hi members \<noteq> Inl UndefinedBehaviour"
    by (auto simp: check_configuration_def bind_exc_Inl_iff)
  ultimately show thesis by (intro rejected) (simp_all add: new_raft_core_def)
next
  case (Inr inserted)
  then have conf: "check_configuration self lo hi members = Inr members" and [simp]: "inserted = members"
    by (simp_all add: check_configuration_iff)
  let ?c = "initial_core lib self (set_order lib members) t0 log0 lo hi seed path f"
  note restore = restore_persistent_state_eq [of lib self "set_order lib members" t0 log0 lo hi seed path f]
  show thesis
  proof (cases "boot_state t0 log0 path f")
    case (Inl e)
    then show thesis
      using conf restore boot_state_defined [of t0 log0 path f]
      by (intro rejected [of e]) (simp_all add: new_raft_core_def bind_op_def)
  next
    case (Inr st)
    have o: "set (set_order lib members) = set members"
      using lib conf by (simp add: iterates_once_def check_configuration_iff)
    show thesis
    proof (cases "acceptable_boot members st")
      case False
      then obtain m where "check_recovered (booted st ?c) = (Inl (InvalidArgument m), booted st ?c)"
        by (cases rule: check_recovered_cases [of "booted st ?c"])
           (auto simp: acceptable_boot_def booted_def initial_core_def o last_log_index_def)
      then show thesis
        using conf restore Inr by (intro rejected [of "InvalidArgument m"]) (simp_all add: new_raft_core_def bind_op_def)
    next
      case True
      obtain r u where u: "core_ok u" "role u = Follower" "leader_id u = None" "persistent_part u = st"
          "storage_path u = path" "cluster_members u = set_order lib members" "node_id u = self"
        and run: "new_raft_core lib self members t0 log0 lo hi seed path f =
          (case bind_op (\<lambda>_. (r, u)) (\<lambda>_ s. persist_state (reset_election_deadline lib s)) u of
             (Inl e, s) \<Rightarrow> (Inl e, disk s) | (Inr _, s) \<Rightarrow> (Inr s, disk s))"
        and r: "r = Inr () \<and> last_applied u = commit_index u \<or> (\<exists>m. r = Inl (InvalidArgument m))"
        by (rule new_raft_core_run [OF lib conf Inr len True], rule that) (assumption | blast)+
      let ?v = "reset_election_deadline lib u"
      have nub: "fst (persist_state ?v) \<noteq> Inl UndefinedBehaviour"
        using persist_state_leaves [of ?v] u(1) by (simp add: leaves_def)
      have f: "fresh_node st (final (persist_state ?v)) \<and> storage_path (final (persist_state ?v)) = path \<and>
          cluster_members (final (persist_state ?v)) = set_order lib members \<and>
          node_id (final (persist_state ?v)) = self" if "last_applied u = commit_index u"
        by (rule persist_state_keeps) (simp add: fresh_node_def u that)
      show thesis
      proof (cases r)
        case (Inl e)
        with r show thesis by (intro rejected [of e "disk u"]) (auto simp: run)
      next
        case r': (Inr x)
        show thesis
        proof (cases "persist_state ?v")
          case (Pair res w)
          show thesis
          proof (cases res)
            case (Inl e)
            with Pair r' nub show thesis by (intro rejected [of e "disk w"]) (auto simp: run bind_op_def)
          next
            case (Inr y)
            with Pair r r' f show thesis
              by (intro built [of w st] conf \<open>boot_state t0 log0 path f = Inr st\<close>) (simp_all add: run bind_op_def)
          qed
        qed
      qed
    qed
  qed
qed

text \<open>When nothing is wrong with the configuration, the state and the disk, it returns.\<close>

lemma new_raft_core_succeeds:
  assumes lib: "iterates_once lib" and len: "length log0 \<le> log_max_size"
    and conf: "check_configuration self lo hi members = Inr members"
    and boot: "boot_state t0 log0 path f = Inr st" "acceptable_boot members st"
    and cmds: "commands_ok (take (unat (ps_commit_index st)) (ps_log_entries st))"
    and hd: "path = [] \<or> healthy f"
  obtains s where "new_raft_core lib self members t0 log0 lo hi seed path f = (Inr s, disk s)"
    and "fresh_node st s" and "storage_path s = path" and "node_id s = self"
    and "cluster_members s = set_order lib members"
    and "disk s = (if path = [] then f else f\<lparr>contents := Some (state_text st)\<rparr>)"
proof -
  obtain r u where u: "core_ok u" "role u = Follower" "leader_id u = None" "persistent_part u = st"
      "storage_path u = path" "cluster_members u = set_order lib members" "node_id u = self" "disk u = f"
    and run: "new_raft_core lib self members t0 log0 lo hi seed path f =
      (case bind_op (\<lambda>_. (r, u)) (\<lambda>_ s. persist_state (reset_election_deadline lib s)) u of
         (Inl e, s) \<Rightarrow> (Inl e, disk s) | (Inr _, s) \<Rightarrow> (Inr s, disk s))"
    and r: "r = Inr ()" "last_applied u = commit_index u"
    by (rule new_raft_core_run [OF lib conf boot(1) len boot(2)], rule that) (assumption | use cmds in blast)+
  let ?v = "reset_election_deadline lib u"
  have "can_persist ?v"
    using hd core_ok_persistable [OF u(1)] u by (simp add: can_persist_def persistent_part_def)
  then have "new_raft_core lib self members t0 log0 lo hi seed path f = (Inr (saved ?v), disk (saved ?v))"
    by (simp add: run r persist_state_saved bind_op_def)
  moreover have "fresh_node st (saved ?v)"
    using u r by (simp add: fresh_node_def persistent_part_def)
  moreover have "disk (saved ?v) = (if path = [] then f else f\<lparr>contents := Some (state_text st)\<rparr>)"
    using u by (simp add: saved_def persistent_part_def)
  ultimately show thesis by (intro that [of "saved ?v"]) (simp_all add: u)
qed

section \<open>The calls\<close>

text \<open>The member functions that change the object, without their results.\<close>

datatype core_call =
    Tick u64
  | Start_Election
  | Advance_Time u64
  | Handle_Request_Vote request_vote_request
  | Receive_Vote string request_vote_response
  | Take_Request_Vote_Actions
  | Append_Command string
  | Queue_Heartbeat_Actions
  | Take_Append_Entries_Actions
  | Handle_Append_Entries append_entries_request
  | Receive_Append_Entries_Response string append_entries_response

definition discard :: "(exc + 'a) \<times> 's \<Rightarrow> (exc + unit) \<times> 's" where
  "discard r = (case r of (Inl e, s) \<Rightarrow> (Inl e, s) | (Inr _, s) \<Rightarrow> (Inr (), s))"

fun call :: "'g std_lib \<Rightarrow> core_call \<Rightarrow> ('g raft_core, unit) op" where
  "call lib (Tick ms) s = discard (tick lib ms s)"
| "call lib Start_Election s = start_election lib s"
| "call lib (Advance_Time ms) s = (Inr (), advance_time ms s)"
| "call lib (Handle_Request_Vote request) s = discard (handle_request_vote lib request s)"
| "call lib (Receive_Vote voter response) s = receive_vote voter response s"
| "call lib Take_Request_Vote_Actions s = (Inr (), snd (take_request_vote_actions s))"
| "call lib (Append_Command cmd) s = discard (append_command cmd s)"
| "call lib Queue_Heartbeat_Actions s = queue_heartbeat_actions s"
| "call lib Take_Append_Entries_Actions s = (Inr (), snd (take_append_entries_actions s))"
| "call lib (Handle_Append_Entries request) s = discard (handle_append_entries lib request s)"
| "call lib (Receive_Append_Entries_Response follower response) s =
     receive_append_entries_response follower response s"

text \<open>
  The two bounds of the machine: a term that can still be incremented, and a log that can still
  grow.
\<close>

definition within_bounds :: "core_call \<Rightarrow> 'g raft_core \<Rightarrow> bool" where
  "within_bounds c s = (case c of
       Tick _ \<Rightarrow> current_term s \<noteq> - 1
     | Start_Election \<Rightarrow> current_term s \<noteq> - 1
     | Append_Command _ \<Rightarrow> length (log_entries s) < log_max_size
     | Handle_Append_Entries request \<Rightarrow>
         length (log_entries s) + length (entries request) \<le> log_max_size
     | _ \<Rightarrow> True)"

lemma leaves_discard [simp]: "leaves (discard r) Q \<longleftrightarrow> leaves r Q"
  by (auto simp: discard_def leaves_def split: prod.splits sum.splits)

lemma discard_final [simp]: "final (discard r) = final r"
  by (auto simp: discard_def split: prod.splits sum.splits)

lemma call_leaves:
  assumes "core_ok s" and "within_bounds c s"
  shows "leaves (call lib c s) core_ok"
proof (cases c)
  case Take_Request_Vote_Actions
  then show ?thesis using assms(1) by (auto simp: take_request_vote_actions_def core_ok_defs)
next
  case Take_Append_Entries_Actions
  then show ?thesis using assms(1) by (auto simp: take_append_entries_actions_def core_ok_defs)
qed (use assms in \<open>simp_all add: within_bounds_def tick_leaves start_election_leaves
    handle_request_vote_leaves receive_vote_leaves append_command_leaves queue_heartbeat_actions_leaves
    handle_append_entries_leaves receive_append_entries_response_leaves\<close>)

text \<open>One call, on whichever exit; and the objects that arise from a constructor by calls.\<close>

inductive core_step :: "'g std_lib \<Rightarrow> 'g raft_core \<Rightarrow> 'g raft_core \<Rightarrow> bool" for lib where
  core_step: "within_bounds c s \<Longrightarrow> core_step lib s (final (call lib c s))"

inductive_cases core_stepE: "core_step lib s t"

inductive core_reachable :: "'g std_lib \<Rightarrow> 'g raft_core \<Rightarrow> bool" for lib where
  constructed: "length log0 \<le> log_max_size \<Longrightarrow>
    new_raft_core lib self members t0 log0 lo hi seed path f = (Inr s, d) \<Longrightarrow> core_reachable lib s"
| called: "core_reachable lib s \<Longrightarrow> core_step lib s t \<Longrightarrow> core_reachable lib t"

lemma core_step_ok: "core_step lib s t \<Longrightarrow> core_ok s \<Longrightarrow> core_ok t"
  using call_leaves by (auto simp: leaves_def elim!: core_stepE)

lemma core_reachable_ok:
  assumes "core_reachable lib s" and "iterates_once lib"
  shows "core_ok s"
  using assms(1)
proof induction
  case (constructed log0 self members t0 lo hi seed path f s d)
  then show ?case
    by (cases rule: new_raft_core_cases [OF assms(2) constructed(1), of self members t0 lo hi seed path f])
       (auto simp: fresh_node_def)
next
  case (called s t)
  then show ?case by (blast intro: core_step_ok)
qed

section \<open>What no call undoes\<close>

definition advances :: "'g raft_core \<Rightarrow> 'g raft_core \<Rightarrow> bool" where
  "advances s t \<longleftrightarrow>
     node_id t = node_id s \<and> cluster_members t = cluster_members s \<and> storage_path t = storage_path s \<and>
     current_term s \<le> current_term t \<and>
     (current_term t = current_term s \<and> voted_for s \<noteq> None \<longrightarrow> voted_for t = voted_for s) \<and>
     commit_index s \<le> commit_index t \<and>
     take (unat (commit_index s)) (log_entries t) = take (unat (commit_index s)) (log_entries s) \<and>
     last_applied s \<le> last_applied t"

lemma advances_refl [simp]: "advances s s"
  by (simp add: advances_def)

lemma advances_trans:
  assumes "advances s t" and "advances t u"
  shows "advances s u"
proof -
  have c: "unat (commit_index s) \<le> unat (commit_index t)"
    using assms(1) by (simp add: advances_def word_le_nat_alt)
  have "take (unat (commit_index s)) (log_entries u) =
      take (unat (commit_index s)) (take (unat (commit_index t)) (log_entries u))"
    using c by (simp add: min_absorb1)
  also have "\<dots> = take (unat (commit_index s)) (take (unat (commit_index t)) (log_entries t))"
    using assms(2) by (simp add: advances_def)
  also have "\<dots> = take (unat (commit_index s)) (log_entries t)"
    using c by (simp add: min_absorb1)
  finally show ?thesis
    using assms unfolding advances_def by (metis antisym order_trans)
qed

text \<open>Both together, on every exit of an operation that starts in \<open>s\<close>.\<close>

definition progress :: "'g raft_core \<Rightarrow> 'g raft_core \<Rightarrow> bool" where
  "progress s t \<longleftrightarrow> core_ok t \<and> advances s t"

lemma progressI: "leaves r core_ok \<Longrightarrow> advances s (final r) \<Longrightarrow> leaves r (progress s)"
  by (simp add: leaves_def progress_def)

lemma progress_refl [simp]: "progress s s \<longleftrightarrow> core_ok s"
  by (simp add: progress_def)

lemma progress_from:
  assumes "advances s s'" and "leaves r (progress s')"
  shows "leaves r (progress s)"
  using assms(2) by (rule leaves_mono) (auto simp: progress_def intro: advances_trans [OF assms(1)])

lemma progress_bind:
  assumes "leaves (m s) (progress s)" and "\<And>a t. m s = (Inr a, t) \<Longrightarrow> core_ok t \<Longrightarrow> leaves (k a t) (progress t)"
  shows "leaves (bind_op m k s) (progress s)"
proof (rule leaves_bind [where m = m, OF assms(1)])
  fix a t assume "m s = (Inr a, t)" and "progress s t"
  then show "leaves (k a t) (progress s)"
    by (intro progress_from [of s t] assms(2)) (simp_all add: progress_def)
qed

lemma persist_state_progress:
  assumes "core_ok s"
  shows "leaves (persist_state s) (progress s)"
proof (rule progressI [OF persist_state_leaves [OF assms]])
  show "advances s (final (persist_state s))"
    by (rule persist_state_keeps) (simp add: advances_def)
qed

lemma apply_committed_entries_progress:
  assumes "core_ok s"
  shows "leaves (apply_committed_entries s) (progress s)"
proof (rule progressI [OF apply_committed_entries_leaves [OF assms]])
  show "advances s (final (apply_committed_entries s))"
    by (rule apply_committed_entries_result [OF core_ok_journal [OF assms]]) (simp add: advances_def)
qed

lemma become_follower_progress:
  assumes "core_ok s"
  shows "leaves (become_follower t s) (progress s)"
proof (rule progressI [OF become_follower_leaves [OF assms]])
  show "advances s (final (become_follower t s))"
  proof (cases "t \<le> current_term s")
    case False
    obtain d where "final (become_follower t s) = s\<lparr>current_term := t, role := Follower, voted_for := None,
        leader_id := None, votes_received := {}, pending_request_vote_actions := [],
        pending_append_entries_actions := [], next_index := Map.empty, match_index := Map.empty, disk := d\<rparr>"
      using False persist_state_disk by (auto simp: become_follower_def)
    with False show ?thesis by (auto simp: advances_def)
  qed (simp add: become_follower_def)
qed

lemma queue_request_vote_actions_progress:
  assumes "core_ok s"
  shows "leaves (queue_request_vote_actions s) (progress s)"
proof (rule progressI [OF queue_request_vote_actions_leaves [OF assms]])
  show "advances s (final (queue_request_vote_actions s))"
    by (simp add: queue_request_vote_actions_def Let_def advances_def split: sum.split)
qed

lemma queue_heartbeat_actions_progress:
  assumes "core_ok s"
  shows "leaves (queue_heartbeat_actions s) (progress s)"
proof (rule progressI [OF queue_heartbeat_actions_leaves [OF assms]])
  show "advances s (final (queue_heartbeat_actions s))"
  proof (cases "role s = Leader")
    case True
    show ?thesis
      using queue_heartbeat_actions_eq [OF True core_ok_length [OF assms] core_ok_replication [OF assms True]]
      by (simp add: advances_def)
  qed (simp add: queue_heartbeat_actions_def)
qed

lemma become_leader_progress:
  assumes "core_ok s" and "role s = Candidate" and "majority_size s \<le> vote_count s"
  shows "leaves (become_leader s) (progress s)"
  unfolding become_leader_def
  by (rule progress_from [OF _ queue_heartbeat_actions_progress [OF initialize_leader_ok [OF assms]]])
     (simp add: advances_def initialize_leader_replication_state_def Let_def)

lemma advance_commit_index_progress:
  assumes "core_ok s"
  shows "leaves (advance_commit_index s) (progress s)"
proof (cases "role s = Leader")
  case True
  from assms True show ?thesis
  proof (cases rule: advance_commit_index_cases)
    case (found i)
    have "commit_index s \<le> i" using found(2) by (simp add: committable_def word_le_nat_alt)
    then have "advances s (s\<lparr>commit_index := i\<rparr>)" by (simp add: advances_def)
    then show ?thesis
      unfolding found(1)
      by (rule progress_from)
         (intro progress_bind apply_committed_entries_progress persist_state_progress found(4))
  qed (simp add: assms)
qed (simp add: advance_commit_index_def assms)

lemma append_command_progress:
  assumes "core_ok s" and "length (log_entries s) < log_max_size"
  shows "leaves (append_command cmd s) (progress s)"
proof (cases "role s = Leader \<and> cmd \<noteq> []")
  case True
  let ?s1 = "s\<lparr>log_entries := log_entries s @ [\<lparr>entry_term = current_term s, command = cmd\<rparr>]\<rparr>"
  have "advances s ?s1" using core_ok_commit [OF assms(1)] by (simp add: advances_def)
  moreover have "leaves (bind_op queue_heartbeat_actions (\<lambda>_ s. (Inr (last_log_index s), s)) t) (progress t)"
    if "core_ok t" for t :: "'a raft_core"
    using that by (intro progress_bind queue_heartbeat_actions_progress) simp_all
  moreover have "core_ok ?s1" using True core_ok_append [OF assms(1) _ _ assms(2)] by blast
  ultimately show ?thesis
    using True unfolding append_command_def
    by (auto intro!: progress_from [of s ?s1] progress_bind [where m = advance_commit_index]
        progress_bind [where m = persist_state] advance_commit_index_progress persist_state_progress)
qed (auto simp: append_command_def assms)

lemma campaign_progress:
  assumes "core_ok s" and "role s = Candidate"
  shows "leaves (campaign s) (progress s)"
proof -
  let ?t = "s\<lparr>pending_request_vote_actions := vote_actions s\<rparr>"
  have ok: "core_ok ?t" by (rule core_ok_vote_actions [OF assms])
  moreover have "advances s ?t" by (simp add: advances_def)
  moreover from ok have "leaves (become_leader ?t) (progress s)" if "majority_size s \<le> vote_count s"
    using that assms(2) by (intro progress_from [OF \<open>advances s ?t\<close>] become_leader_progress) simp_all
  ultimately show ?thesis
    using assms(2) by (auto simp: campaign_eq Let_def progress_def [of s ?t])
qed

lemma start_election_progress:
  assumes "core_ok s" and "current_term s \<noteq> - 1"
  shows "leaves (start_election lib s) (progress s)"
proof -
  let ?s1 = "reset_election_deadline lib (candidacy s)"
  have "current_term s < current_term s + 1"
    using later_term [OF assms(2)] by (simp add: order_less_le)
  then have "advances s ?s1" by (simp add: advances_def candidacy_def)
  moreover have "leaves (bind_op persist_state (\<lambda>_. campaign) ?s1) (progress ?s1)"
  proof (rule progress_bind [where m = persist_state, OF persist_state_progress])
    show "core_ok ?s1" using core_ok_candidacy [OF assms] by simp
    fix a t
    assume "persist_state ?s1 = (Inr a, t)" and "core_ok t"
    moreover from this persist_state_disk [of ?s1] have "role t = Candidate"
      by (auto simp: candidacy_def)
    ultimately show "leaves (campaign t) (progress t)" by (simp add: campaign_progress)
  qed
  ultimately show ?thesis unfolding start_election_eq by (rule progress_from)
qed

lemma tick_progress:
  assumes "core_ok s" and "current_term s \<noteq> - 1"
  shows "leaves (tick lib ms s) (progress s)"
proof -
  let ?s1 = "advance_time ms s"
  have ok: "core_ok ?s1" using assms(1) by simp
  have t: "current_term ?s1 \<noteq> - 1" using assms(2) by (simp add: advance_time_def)
  have a: "advances s ?s1" by (simp add: advances_def advance_time_def)
  have "leaves (bind_op (start_election lib) (\<lambda>_. return_op True) ?s1) (progress s)"
    by (intro progress_from [OF a] progress_bind start_election_progress ok t) simp
  with a ok show ?thesis
    by (auto simp: tick_def Let_def progress_def [of s ?s1])
qed

lemma receive_vote_progress:
  assumes "core_ok s"
  shows "leaves (receive_vote voter response s) (progress s)"
proof -
  let ?s1 = "s\<lparr>votes_received := insert voter (votes_received s)\<rparr>"
  have a: "advances s ?s1" by (simp add: advances_def)
  have ok: "core_ok ?s1 \<and> role ?s1 = Candidate" if "role s = Candidate" "voter \<in> set (cluster_members s)"
    using assms that by (auto simp: core_ok_defs)
  then have "leaves (become_leader ?s1) (progress s)"
    if "role s = Candidate" "voter \<in> set (cluster_members s)" "majority_size ?s1 \<le> vote_count ?s1"
    using that by (intro progress_from [OF a] become_leader_progress) auto
  then show ?thesis
    using assms a ok by (auto simp: receive_vote_def Let_def become_follower_progress progress_def [of s ?s1])
qed

lemma handle_request_vote_progress:
  assumes "core_ok s"
  shows "leaves (handle_request_vote lib request s) (progress s)"
proof (rule progressI [OF handle_request_vote_leaves [OF assms]])
  let ?c = "candidate_id request"
  have vote: "advances t (final (bind_op persist_state (\<lambda>_. return_op r)
      (reset_election_deadline lib (t\<lparr>voted_for := Some ?c\<rparr>))))"
    if "voted_for t = None \<or> voted_for t = Some ?c" for t :: "'a raft_core" and r :: request_vote_response
  proof (rule bind_op_final)
    show "advances t (final (persist_state (reset_election_deadline lib (t\<lparr>voted_for := Some ?c\<rparr>))))"
      by (rule persist_state_keeps) (use that in \<open>auto simp: advances_def\<close>)
  qed simp
  have first: "advances s (final ((if current_term s < rv_term request
      then become_follower (rv_term request) else return_op ()) s))"
    using become_follower_progress [OF assms] by (simp add: leaves_def progress_def)
  show "advances s (final (handle_request_vote lib request s))"
  proof (cases "?c \<notin> set (cluster_members s) \<or> rv_term request < current_term s")
    case True
    then show ?thesis by (auto simp: handle_request_vote_def)
  next
    case False
    let ?m = "if current_term s < rv_term request then become_follower (rv_term request) else return_op ()"
    have "advances s (final (bind_op (if current_term s < rv_term request
        then become_follower (rv_term request) else return_op ())
      (\<lambda>_ s. let response = \<lparr>rvr_term = current_term s, vote_granted = False\<rparr> in
           if voted_for s \<noteq> None \<and> voted_for s \<noteq> Some ?c then (Inr response, s)
           else if \<not> candidate_log_is_up_to_date s (rv_last_log_index request) (rv_last_log_term request)
             then (Inr response, s)
           else bind_op persist_state (\<lambda>_. return_op (response\<lparr>vote_granted := True\<rparr>))
             (reset_election_deadline lib (s\<lparr>voted_for := Some ?c\<rparr>))) s))"
      by (rule bind_op_final [where m = ?m and Q = "advances s", OF first]) (auto simp: Let_def intro: advances_trans [OF _ vote])
    with False show ?thesis by (simp add: handle_request_vote_def)
  qed
qed

lemma receive_append_entries_response_progress:
  assumes "core_ok s"
  shows "leaves (receive_append_entries_response m response s) (progress s)"
proof (rule progressI [OF receive_append_entries_response_leaves [OF assms]])
  let ?r = "matched_index response"
  show "advances s (final (receive_append_entries_response m response s))"
  proof (cases "m \<in> set (others s) \<and> aer_term response = current_term s \<and> role s = Leader \<and>
      success response \<and> ?r \<le> last_log_index s")
    case True
    then have m: "m \<in> set (others s)" and l: "role s = Leader" and le: "?r \<le> last_log_index s" by simp_all
    obtain i k where ik: "next_index s m = Some i" "match_index s m = Some k"
      using replication_okE [OF core_ok_replication [OF assms l] m] by metis
    let ?s1 = "if k < ?r then s\<lparr>match_index := (match_index s)(m \<mapsto> ?r)\<rparr> else s"
    let ?s2 = "if i < ?r + 1 then ?s1\<lparr>next_index := (next_index ?s1)(m \<mapsto> ?r + 1)\<rparr> else ?s1"
    have eq: "receive_append_entries_response m response s = advance_commit_index ?s2"
      using True ik by (simp add: receive_append_entries_response_def others_def Let_def not_less [symmetric])
    have "core_ok ?s2" by (rule core_ok_confirmed [OF assms l m le])
    then have "leaves (advance_commit_index ?s2) (progress ?s2)" by (rule advance_commit_index_progress)
    moreover have "advances s ?s2" by (simp add: advances_def)
    ultimately show ?thesis
      unfolding eq by (auto simp: leaves_def progress_def intro: advances_trans)
  next
    case False
    have "advances s (final (become_follower (aer_term response) s))"
      using become_follower_progress [OF assms] by (simp add: leaves_def progress_def)
    with False show ?thesis
      by (auto simp: receive_append_entries_response_def others_def not_less split: option.split)
         (auto simp: advances_def)
  qed
qed

lemma follow_leader_advances: "advances s (follow_leader s)"
  by (simp add: advances_def follow_leader_def)

lemma commit_and_reply_progress:
  assumes "core_ok s"
    and "unat (prev_log_index request) + length (entries request) \<le> length (log_entries s)"
  shows "leaves (commit_and_reply request s) (progress s)"
proof (rule progressI [OF commit_and_reply_leaves [OF assms]])
  let ?m = "prev_log_index request + of_nat (length (entries request)) :: u64"
  let ?h = "if leader_commit request < ?m then leader_commit request else ?m"
  let ?first = "if commit_index s < leader_commit request \<and> commit_index s < ?h
      then (\<lambda>s. apply_committed_entries (s\<lparr>commit_index := ?h\<rparr>)) else return_op ()"
  have "advances s (final (apply_committed_entries (s\<lparr>commit_index := ?h\<rparr>)))" if "commit_index s < ?h"
  proof -
    have "unat ?m = unat (prev_log_index request) + length (entries request)"
      using assms(2) core_ok_length [OF assms(1)] by (intro unat_add_small) simp
    then have "unat ?h \<le> length (log_entries s)"
      using assms(2) by (auto simp: word_less_nat_alt)
    then have "core_ok (s\<lparr>commit_index := ?h\<rparr>)"
      using that core_ok_commit_index [OF assms(1), of ?h] by simp
    moreover have "advances s (s\<lparr>commit_index := ?h\<rparr>)" using that by (simp add: advances_def)
    ultimately show ?thesis
      using apply_committed_entries_progress advances_trans by (metis leaves_def progress_def)
  qed
  then have first: "advances s (final (?first s))" by auto
  have save: "advances t (final (bind_op persist_state (\<lambda>_. return_op r) t))"
    for t :: "'a raft_core" and r :: append_entries_response
    by (rule bind_op_final) (auto intro: persist_state_keeps simp: advances_def)
  show "advances s (final (commit_and_reply request s))"
    unfolding commit_and_reply_def Let_def
    by (rule bind_op_final [where m = ?first and Q = "advances s", OF first]) (rule advances_trans [OF _ save])
qed

lemma handle_append_entries_progress:
  assumes "core_ok s" and "length (log_entries s) + length (entries request) \<le> log_max_size"
  shows "leaves (handle_append_entries lib request s) (progress s)"
proof (rule progressI [OF handle_append_entries_leaves [OF assms]])
  show "advances s (final (handle_append_entries lib request s))"
  proof (cases "ae_leader_id request \<notin> set (cluster_members s) \<or> ae_term request < current_term s")
    case True
    then show ?thesis by (auto simp: handle_append_entries_def Let_def)
  next
    case False
    then have t: "current_term s \<le> ae_term request" and m: "ae_leader_id request \<in> set (cluster_members s)"
      by auto
    let ?first = "if current_term s < ae_term request then become_follower (ae_term request)
         else modify_op follow_leader"
    let ?next = "\<lambda>u. reset_election_deadline lib (u\<lparr>leader_id := Some (ae_leader_id request)\<rparr>)"
    have first: "advances s (final (?first s))"
      using become_follower_progress [OF assms(1)] follow_leader_advances [of s]
      by (auto simp: leaves_def progress_def)
    have rest: "advances u (final (append_verified request u))" if f: "followed s (ae_term request) u" for u :: "'a raft_core"
    proof -
      have u: "core_ok u" "role u = Follower" "current_term u = ae_term request"
        and len: "length (log_entries u) + length (entries request) \<le> log_max_size"
        using f assms(2) by (simp_all add: followed_def)
      have "advances u (final (commit_and_reply request (u\<lparr>log_entries := kept @ rest\<rparr>)))"
        if p: "unat (prev_log_index request) \<le> length (log_entries u)"
          and e: "entries_acceptable (ae_term request) (term_at (log_entries u) (unat (prev_log_index request))) (entries request)"
          and r: "reconcile (commit_index u) (prev_log_index request) (log_entries u) 0 (entries request) = Some (kept, rest)"
        for kept rest
      proof -
        note k = core_ok_reconciled [OF u(1,2) len p _ r, unfolded u(3), OF e]
        have b: "unat (prev_log_index request) + length (entries request) \<le> log_max_size" using len p by simp
        have "advances u (u\<lparr>log_entries := kept @ rest\<rparr>)"
          using reconcile_keeps_committed(1) [OF b p r core_ok_commit [OF u(1)]] by (simp add: advances_def)
        moreover have "leaves (commit_and_reply request (u\<lparr>log_entries := kept @ rest\<rparr>))
            (progress (u\<lparr>log_entries := kept @ rest\<rparr>))"
          using k by (intro commit_and_reply_progress) simp_all
        ultimately show ?thesis by (auto simp: leaves_def progress_def intro: advances_trans)
      qed
      then show ?thesis
        using u(1) by (auto simp: append_verified_def Let_def previous_log_position_matches_eq core_ok_length
            split: option.split bool.split)
    qed
    have "advances u (final (append_verified request (?next u)))" if "followed s (ae_term request) u" for u :: "'a raft_core"
      using rest [OF followed_reset_leader [OF m that]]
      by (rule advances_trans [rotated]) (simp add: advances_def)
    moreover have "followed s (ae_term request) (final (?first s))"
      using accept_leader_leaves [OF assms(1) t] by (simp add: leaves_def)
    ultimately have "advances s (final (bind_op ?first (\<lambda>_ u. append_verified request (?next u)) s))"
      using first by (auto simp: bind_op_def intro: advances_trans split: prod.splits sum.splits)
    then show ?thesis using False by (simp add: handle_append_entries_eq)
  qed
qed

text \<open>Every call, and every sequence of calls.\<close>

lemma call_progress:
  assumes "core_ok s" and "within_bounds c s"
  shows "leaves (call lib c s) (progress s)"
proof (cases c)
  case Take_Request_Vote_Actions
  with call_leaves [OF assms, of lib] show ?thesis
    by (intro progressI) (simp_all add: take_request_vote_actions_def advances_def)
next
  case Take_Append_Entries_Actions
  with call_leaves [OF assms, of lib] show ?thesis
    by (intro progressI) (simp_all add: take_append_entries_actions_def advances_def)
next
  case (Advance_Time ms)
  with call_leaves [OF assms, of lib] show ?thesis
    by (intro progressI) (simp_all add: advance_time_def advances_def)
qed (use assms in \<open>simp_all add: within_bounds_def tick_progress start_election_progress
    handle_request_vote_progress receive_vote_progress append_command_progress
    queue_heartbeat_actions_progress handle_append_entries_progress
    receive_append_entries_response_progress\<close>)

lemma core_steps_progress:
  assumes "(core_step lib)\<^sup>*\<^sup>* s t" and "core_ok s"
  shows "progress s t"
  using assms
proof (induction rule: rtranclp_induct)
  case (step t u)
  then have "progress t u"
    using call_progress by (auto simp: progress_def leaves_def elim!: core_stepE)
  with step show ?case by (auto simp: progress_def intro: advances_trans)
qed simp

end
