(* ===== verification/Raft_Results.thy ===== *)
theory Raft_Results
  imports Raft_History
begin

text \<open>
  The two request handlers and the operations of a leader in closed form, for an object whose
  invariant holds and whose disk works: what is returned, and the whole state afterwards.
\<close>

section \<open>A working disk\<close>

definition working :: "'g raft_core \<Rightarrow> bool" where
  "working s \<longleftrightarrow> storage_path s = [] \<or> healthy (disk s)"

text \<open>The file holds the persistent part of the object.\<close>

definition synced :: "'g raft_core \<Rightarrow> bool" where
  "synced s \<longleftrightarrow> storage_path s \<noteq> [] \<longrightarrow>
     healthy (disk s) \<and> contents (disk s) = Some (state_text (persistent_part s))"

lemma persistent_part_saved [simp]: "persistent_part (saved s) = persistent_part s"
  by (simp add: persistent_part_def)

lemma saved_notions [simp]:
  "replication_ok (saved s) = replication_ok s" "heartbeat_actions (saved s) = heartbeat_actions s"
  "others (saved s) = others s" "majority_size (saved s) = majority_size s"
  by (simp_all add: saved_def)

lemma working_saved [simp]: "working (saved s) = working s"
  by (auto simp: working_def saved_def healthy_def)

lemma synced_saved [simp]: "synced (saved s) = working s"
  by (auto simp: synced_def saved_def healthy_def working_def persistent_part_def)

lemma synced_working: "synced s \<Longrightarrow> working s"
  by (auto simp: synced_def working_def)

lemma working_frame [simp]:
  "working (s\<lparr>log_entries := x_0\<rparr>) = working s"
  "working (s\<lparr>commit_index := x_1\<rparr>) = working s"
  "working (s\<lparr>last_applied := x_2\<rparr>) = working s"
  "working (s\<lparr>applied_commands := x_3\<rparr>) = working s"
  "working (s\<lparr>key_value_store := x_4\<rparr>) = working s"
  "working (s\<lparr>role := x_5\<rparr>) = working s"
  "working (s\<lparr>current_term := x_6\<rparr>) = working s"
  "working (s\<lparr>voted_for := x_7\<rparr>) = working s"
  "working (s\<lparr>leader_id := x_8\<rparr>) = working s"
  "working (s\<lparr>votes_received := x_9\<rparr>) = working s"
  "working (s\<lparr>current_time_ms := x_10\<rparr>) = working s"
  "working (s\<lparr>election_timeout_ms := x_11\<rparr>) = working s"
  "working (s\<lparr>election_deadline_ms := x_12\<rparr>) = working s"
  "working (s\<lparr>random_engine := x_13\<rparr>) = working s"
  "working (s\<lparr>pending_request_vote_actions := x_14\<rparr>) = working s"
  "working (s\<lparr>pending_append_entries_actions := x_15\<rparr>) = working s"
  "working (s\<lparr>next_index := x_16\<rparr>) = working s"
  "working (s\<lparr>match_index := x_17\<rparr>) = working s"
  by (simp_all add: working_def)

lemma working_reset [simp]: "working (reset_election_deadline lib s) = working s"
  by (simp add: working_def)

lemma persist_working: "core_ok s \<Longrightarrow> working s \<Longrightarrow> persist_state s = (Inr (), saved s)"
  by (rule persist_state_saved) (auto simp: can_persist_def working_def core_ok_persistable)

lemma bind_persist_working:
  "core_ok s \<Longrightarrow> working s \<Longrightarrow> bind_op persist_state k s = k () (saved s)"
  by (simp add: persist_working)

text \<open>A restart from a synced file finds the persistent part.\<close>

lemma synced_load: "core_ok s \<Longrightarrow> synced s \<Longrightarrow> storage_path s \<noteq> [] \<Longrightarrow> load (disk s) = Inr (persistent_part s)"
proof -
  assume a: "core_ok s" "synced s" "storage_path s \<noteq> []"
  then have h: "healthy (disk s)" and c: "contents (disk s) = Some (state_text (persistent_part s))"
    by (simp_all add: synced_def)
  have "storable (persistent_part s)"
    using core_ok_persistable [OF a(1)] core_ok_length [OF a(1)]
    by (simp add: storable_def persistent_part_def)
  then have "load ((disk s)\<lparr>contents := Some (state_text (persistent_part s))\<rparr>) = Inr (persistent_part s)"
    using load_healthy h by blast
  moreover have "(disk s)\<lparr>contents := Some (state_text (persistent_part s))\<rparr> = disk s"
    using c by (cases "disk s") simp
  ultimately show ?thesis by simp
qed

section \<open>Following\<close>

definition demoted :: "u64 \<Rightarrow> 'g raft_core \<Rightarrow> 'g raft_core" where
  "demoted t s = s\<lparr>current_term := t, role := Follower, voted_for := None, leader_id := None,
     votes_received := {}, pending_request_vote_actions := [], pending_append_entries_actions := [],
     next_index := Map.empty, match_index := Map.empty\<rparr>"

lemma core_ok_demoted: "core_ok s \<Longrightarrow> current_term s \<le> t \<Longrightarrow> core_ok (demoted t s)"
  unfolding demoted_def by (rule core_ok_later_term) simp_all

lemma become_follower_working:
  assumes "core_ok s" and "working s" and "current_term s < t"
  shows "become_follower t s = (Inr (), saved (demoted t s))"
proof -
  have "persist_state (demoted t s) = (Inr (), saved (demoted t s))"
    using assms by (intro persist_working core_ok_demoted) (simp_all add: working_def demoted_def)
  then show ?thesis using assms(3) by (simp add: become_follower_def demoted_def not_le [symmetric])
qed

lemma demoted_select [simp]:
  "current_term (demoted t s) = t" "role (demoted t s) = Follower" "voted_for (demoted t s) = None"
  "log_entries (demoted t s) = log_entries s" "commit_index (demoted t s) = commit_index s"
  "cluster_members (demoted t s) = cluster_members s" "node_id (demoted t s) = node_id s"
  "last_applied (demoted t s) = last_applied s" "working (demoted t s) = working s"
  "storage_path (demoted t s) = storage_path s" "leader_id (demoted t s) = None"
  "pending_request_vote_actions (demoted t s) = []" "pending_append_entries_actions (demoted t s) = []"
  by (simp_all add: demoted_def working_def)

text \<open>What a message of term \<open>t\<close> makes of a node whose term is not later.\<close>

definition in_term :: "u64 \<Rightarrow> 'g raft_core \<Rightarrow> 'g raft_core" where
  "in_term t s = (if current_term s < t then saved (demoted t s) else s)"

lemma core_ok_in_term: "core_ok s \<Longrightarrow> core_ok (in_term t s)"
  by (simp add: in_term_def core_ok_demoted)

lemma in_term_select [simp]:
  "current_term (in_term t s) = max (current_term s) t" "log_entries (in_term t s) = log_entries s"
  "commit_index (in_term t s) = commit_index s" "cluster_members (in_term t s) = cluster_members s"
  "node_id (in_term t s) = node_id s" "working (in_term t s) = working s"
  "last_applied (in_term t s) = last_applied s" "storage_path (in_term t s) = storage_path s"
  by (auto simp: in_term_def max_def)

lemma synced_in_term: "synced s \<Longrightarrow> synced (in_term t s)"
  by (auto simp: in_term_def dest: synced_working)

section \<open>Voting\<close>

definition grants :: "'g raft_core \<Rightarrow> request_vote_request \<Rightarrow> bool" where
  "grants s request \<longleftrightarrow>
     (voted_for s = None \<or> voted_for s = Some (candidate_id request)) \<and>
     position_of (log_entries s) \<le> Log_Position (rv_last_log_term request) (rv_last_log_index request)"

definition voted :: "'g std_lib \<Rightarrow> string \<Rightarrow> 'g raft_core \<Rightarrow> 'g raft_core" where
  "voted lib m s = saved (reset_election_deadline lib (s\<lparr>voted_for := Some m\<rparr>))"

lemma core_ok_voted:
  "core_ok s \<Longrightarrow> m \<in> set (cluster_members s) \<Longrightarrow> voted_for s = None \<or> voted_for s = Some m \<Longrightarrow>
     core_ok (voted lib m s)"
proof -
  assume "core_ok s" "m \<in> set (cluster_members s)" "voted_for s = None \<or> voted_for s = Some m"
  then have "core_ok (s\<lparr>voted_for := Some m\<rparr>)" by (auto simp: core_ok_defs)
  then show ?thesis by (simp add: voted_def)
qed

lemma handle_request_vote_working:
  assumes "core_ok s" and "working s"
  shows "handle_request_vote lib request s =
    (if candidate_id request \<notin> set (cluster_members s) \<or> rv_term request < current_term s
       then (Inr \<lparr>rvr_term = current_term s, vote_granted = False\<rparr>, s)
     else (let u = in_term (rv_term request) s in
       if grants u request
         then (Inr \<lparr>rvr_term = rv_term request, vote_granted = True\<rparr>, voted lib (candidate_id request) u)
       else (Inr \<lparr>rvr_term = rv_term request, vote_granted = False\<rparr>, u)))"
proof (cases "candidate_id request \<notin> set (cluster_members s) \<or> rv_term request < current_term s")
  case True
  then show ?thesis by (auto simp: handle_request_vote_def)
next
  case False
  let ?c = "candidate_id request" and ?t = "rv_term request"
  let ?u = "in_term ?t s"
  have first: "(if current_term s < ?t then become_follower ?t else return_op ()) s = (Inr (), ?u)"
    using become_follower_working [OF assms] by (simp add: in_term_def)
  have t: "current_term ?u = ?t" using False by (auto simp: max_def)
  have p: "persist_state (reset_election_deadline lib (?u\<lparr>voted_for := Some ?c\<rparr>)) = (Inr (), voted lib ?c ?u)"
    if "grants ?u request"
  proof -
    have "core_ok (?u\<lparr>voted_for := Some ?c\<rparr>)"
      using core_ok_voted [OF core_ok_in_term [OF assms(1)], of ?c ?t lib] False that
      by (simp add: voted_def grants_def)
    moreover have "working (?u\<lparr>voted_for := Some ?c\<rparr>)"
      using assms(2) in_term_select(6) [of ?t s] unfolding working_def by simp
    ultimately show ?thesis by (simp add: voted_def persist_working)
  qed
  have "handle_request_vote lib request s = bind_op
        (if current_term s < ?t then become_follower ?t else return_op ())
        (\<lambda>_ s.
           let response = \<lparr>rvr_term = current_term s, vote_granted = False\<rparr> in
           if voted_for s \<noteq> None \<and> voted_for s \<noteq> Some ?c
             then (Inr response, s)
           else if \<not> candidate_log_is_up_to_date s (rv_last_log_index request) (rv_last_log_term request)
             then (Inr response, s)
           else bind_op persist_state (\<lambda>_. return_op (response\<lparr>vote_granted := True\<rparr>))
             (reset_election_deadline lib (s\<lparr>voted_for := Some ?c\<rparr>))) s"
    using False by (simp add: handle_request_vote_def)
  also have "\<dots> = (if grants ?u request
         then (Inr \<lparr>rvr_term = ?t, vote_granted = True\<rparr>, voted lib ?c ?u)
       else (Inr \<lparr>rvr_term = ?t, vote_granted = False\<rparr>, ?u))"
    using t p unfolding bind_op_Inr [of "if current_term s < ?t then become_follower ?t else return_op ()", OF first]
    by (auto simp: Let_def grants_def candidate_log_is_up_to_date_iff)
  finally show ?thesis using False by (simp add: Let_def)
qed

section \<open>Applying\<close>

text \<open>The state in which every committed entry is applied.\<close>

definition caught_up :: "'g raft_core \<Rightarrow> 'g raft_core" where
  "caught_up s = final (apply_committed_entries s)"

lemma apply_committed_entries_working:
  assumes "core_ok s" and "commands_ok (take (unat (commit_index s)) (log_entries s))"
  shows "apply_committed_entries s = (Inr (), caught_up s)"
    and "\<exists>kv. caught_up s = s\<lparr>key_value_store := kv,
           applied_commands := map command (take (unat (commit_index s)) (log_entries s)),
           last_applied := commit_index s\<rparr> \<and>
         kv_replay (map command (take (unat (commit_index s)) (log_entries s))) = Inr kv"
proof -
  obtain kv c i r where a: "apply_committed_entries s =
      (r, s\<lparr>key_value_store := kv, applied_commands := c, last_applied := i\<rparr>)"
    and j: "journal_ok (s\<lparr>key_value_store := kv, applied_commands := c, last_applied := i\<rparr>)"
    and "last_applied s \<le> i"
    and r: "r = Inr () \<and> i = commit_index s \<or>
      (\<exists>m. r = Inl (InvalidArgument m)) \<and> \<not> commands_ok (take (unat (commit_index s)) (log_entries s))"
    using apply_committed_entries_result [OF core_ok_journal [OF assms(1)]] .
  then show "apply_committed_entries s = (Inr (), caught_up s)"
    using assms(2) by (simp add: caught_up_def)
  have i: "i = commit_index s" using r assms(2) by blast
  have "c = map command (take (unat i) (log_entries s))" and "kv_replay c = Inr kv"
    using j unfolding journal_ok_def by (elim conjE, simp)+
  then show "\<exists>kv. caught_up s = s\<lparr>key_value_store := kv,
           applied_commands := map command (take (unat (commit_index s)) (log_entries s)),
           last_applied := commit_index s\<rparr> \<and>
         kv_replay (map command (take (unat (commit_index s)) (log_entries s))) = Inr kv"
    unfolding caught_up_def a i by auto
qed

lemma caught_up_shape: "\<exists>kv c i. caught_up s = s\<lparr>key_value_store := kv, applied_commands := c, last_applied := i\<rparr>"
  if "core_ok s"
  using apply_committed_entries_result [OF core_ok_journal [OF that]] unfolding caught_up_def
  by (metis snd_conv)

lemma core_ok_caught_up: "core_ok s \<Longrightarrow> core_ok (caught_up s)"
  using apply_committed_entries_leaves [of s] by (simp add: caught_up_def leaves_def)

lemma caught_up_select [simp]:
  assumes "core_ok s"
  shows "node_id (caught_up s) = node_id s" "storage_path (caught_up s) = storage_path s"
    "cluster_members (caught_up s) = cluster_members s" "log_entries (caught_up s) = log_entries s"
    "commit_index (caught_up s) = commit_index s" "role (caught_up s) = role s"
    "current_term (caught_up s) = current_term s" "voted_for (caught_up s) = voted_for s"
    "leader_id (caught_up s) = leader_id s" "votes_received (caught_up s) = votes_received s"
    "next_index (caught_up s) = next_index s" "match_index (caught_up s) = match_index s"
    "pending_request_vote_actions (caught_up s) = pending_request_vote_actions s"
    "pending_append_entries_actions (caught_up s) = pending_append_entries_actions s"
    "disk (caught_up s) = disk s" "persistent_part (caught_up s) = persistent_part s"
    "working (caught_up s) = working s"
  using caught_up_shape [OF assms] by (auto simp: working_def)

section \<open>Appending to a follower\<close>

text \<open>The commit index a follower takes over, and the state after it.\<close>

definition verified_commit :: "append_entries_request \<Rightarrow> u64 \<Rightarrow> u64" where
  "verified_commit request c =
     max c (min (leader_commit request) (prev_log_index request + of_nat (length (entries request))))"

definition committed_to :: "u64 \<Rightarrow> 'g raft_core \<Rightarrow> 'g raft_core" where
  "committed_to c s = (if c = commit_index s then s else caught_up (s\<lparr>commit_index := c\<rparr>))"

lemma committed_to_select [simp]:
  assumes "core_ok s" and "commit_index s \<le> c" and "unat c \<le> length (log_entries s)"
  shows "core_ok (committed_to c s)" "node_id (committed_to c s) = node_id s"
    "storage_path (committed_to c s) = storage_path s"
    "cluster_members (committed_to c s) = cluster_members s" "log_entries (committed_to c s) = log_entries s"
    "commit_index (committed_to c s) = c" "role (committed_to c s) = role s"
    "current_term (committed_to c s) = current_term s" "voted_for (committed_to c s) = voted_for s"
    "leader_id (committed_to c s) = leader_id s" "votes_received (committed_to c s) = votes_received s"
    "next_index (committed_to c s) = next_index s" "match_index (committed_to c s) = match_index s"
    "pending_request_vote_actions (committed_to c s) = pending_request_vote_actions s"
    "pending_append_entries_actions (committed_to c s) = pending_append_entries_actions s"
    "working (committed_to c s) = working s"
  using core_ok_commit_index [OF assms] assms(1)
  by (auto simp: committed_to_def core_ok_caught_up working_def)

lemma commit_and_reply_working:
  assumes "core_ok s" and "working s"
    and "unat (prev_log_index request) + length (entries request) \<le> length (log_entries s)"
    and "commands_ok (log_entries s)"
  defines "c \<equiv> verified_commit request (commit_index s)"
  shows "commit_and_reply request s =
      (Inr \<lparr>aer_term = current_term s, success = True,
            matched_index = prev_log_index request + of_nat (length (entries request))\<rparr>,
       saved (committed_to c s))"
    and "commit_index s \<le> c" and "unat c \<le> length (log_entries s)"
proof -
  let ?m = "prev_log_index request + of_nat (length (entries request)) :: u64"
  let ?h = "if leader_commit request < ?m then leader_commit request else ?m"
  have h: "?h = min (leader_commit request) ?m" by (simp add: min_def not_less less_le)
  have m: "unat ?m = unat (prev_log_index request) + length (entries request)"
    using assms(3) core_ok_length [OF assms(1)] by (intro unat_add_small) simp
  show le: "commit_index s \<le> c" by (simp add: c_def verified_commit_def)
  have "unat ?h \<le> length (log_entries s)"
    using assms(3) m by (auto simp: word_less_nat_alt)
  then show len: "unat c \<le> length (log_entries s)"
    using core_ok_commit [OF assms(1)] by (simp add: c_def verified_commit_def h max_def)
  have ok: "core_ok (s\<lparr>commit_index := c\<rparr>)" by (rule core_ok_commit_index [OF assms(1) le len])
  have first: "(if commit_index s < leader_commit request \<and> commit_index s < ?h
        then (\<lambda>s. apply_committed_entries (s\<lparr>commit_index := ?h\<rparr>)) else return_op ()) s =
      (Inr (), committed_to c s)"
  proof (cases "commit_index s < ?h")
    case True
    then have c: "c = ?h"
      using max_absorb2 [OF less_imp_le [OF True]] unfolding h by (simp only: c_def verified_commit_def)
    have "commit_index s < leader_commit request" using True unfolding h by simp
    moreover have "apply_committed_entries (s\<lparr>commit_index := c\<rparr>) = (Inr (), committed_to c s)"
    proof -
      have "c \<noteq> commit_index s" using True c by auto
      then show ?thesis
        using apply_committed_entries_working(1) [OF ok] commands_ok_take [OF assms(4)]
        by (simp add: committed_to_def)
    qed
    ultimately show ?thesis using True c by simp
  next
    case False
    then have "c = commit_index s"
      using max_absorb1 [of ?h "commit_index s"] unfolding h not_less by (simp only: c_def verified_commit_def)
    with False show ?thesis by (simp add: committed_to_def)
  qed
  have p: "persist_state (committed_to c s) = (Inr (), saved (committed_to c s))"
    using assms(1,2) le len by (intro persist_working) simp_all
  show "commit_and_reply request s =
      (Inr \<lparr>aer_term = current_term s, success = True, matched_index = ?m\<rparr>, saved (committed_to c s))"
    unfolding commit_and_reply_def Let_def
      bind_op_Inr [where m = "if commit_index s < leader_commit request \<and> commit_index s < ?h
        then (\<lambda>s. apply_committed_entries (s\<lparr>commit_index := ?h\<rparr>)) else return_op ()", OF first]
      bind_op_Inr [where m = persist_state, OF p]
    by simp
qed

text \<open>The node once it has accepted the sender as leader.\<close>

definition under_leader :: "'g std_lib \<Rightarrow> append_entries_request \<Rightarrow> 'g raft_core \<Rightarrow> 'g raft_core" where
  "under_leader lib request s = reset_election_deadline lib
     ((if current_term s < ae_term request then saved (demoted (ae_term request) s) else follow_leader s)
       \<lparr>leader_id := Some (ae_leader_id request)\<rparr>)"

lemma follow_leader_select [simp]:
  "current_term (follow_leader s) = current_term s" "voted_for (follow_leader s) = voted_for s"
  "log_entries (follow_leader s) = log_entries s" "commit_index (follow_leader s) = commit_index s"
  "node_id (follow_leader s) = node_id s" "cluster_members (follow_leader s) = cluster_members s"
  "storage_path (follow_leader s) = storage_path s" "disk (follow_leader s) = disk s"
  "role (follow_leader s) = Follower" "last_applied (follow_leader s) = last_applied s"
  by (cases "role s"; simp add: follow_leader_def)+

lemma under_leader_select [simp]:
  "log_entries (under_leader lib request s) = log_entries s"
  "commit_index (under_leader lib request s) = commit_index s"
  "node_id (under_leader lib request s) = node_id s"
  "cluster_members (under_leader lib request s) = cluster_members s"
  "storage_path (under_leader lib request s) = storage_path s"
  "role (under_leader lib request s) = Follower"
  "last_applied (under_leader lib request s) = last_applied s"
  "leader_id (under_leader lib request s) = Some (ae_leader_id request)"
  "working (under_leader lib request s) = working s"
  "current_term s \<le> ae_term request \<Longrightarrow> current_term (under_leader lib request s) = ae_term request"
  "voted_for (under_leader lib request s) = (if current_term s < ae_term request then None else voted_for s)"
  by (auto simp: under_leader_def working_def saved_def healthy_def demoted_def)

lemma synced_under_leader: "synced s \<Longrightarrow> synced (under_leader lib request s)"
proof -
  assume s: "synced s"
  have "synced (u\<lparr>leader_id := x\<rparr>) = synced u" for u :: "'a raft_core" and x by (simp add: synced_def)
  moreover have "synced (reset_election_deadline lib u) = synced u" for u :: "'a raft_core"
    by (simp add: synced_def)
  moreover have "synced (follow_leader s)" using s by (simp add: synced_def persistent_part_def)
  ultimately show ?thesis using synced_working [OF s] by (simp add: under_leader_def)
qed

lemma core_ok_under_leader:
  assumes "core_ok s" and "current_term s \<le> ae_term request"
    and "ae_leader_id request \<in> set (cluster_members s)"
  shows "core_ok (under_leader lib request s)"
proof -
  let ?u = "if current_term s < ae_term request then saved (demoted (ae_term request) s) else follow_leader s"
  have "core_ok ?u" using core_ok_demoted [OF assms(1,2)] follow_leader_ok [OF assms(1)] by simp
  moreover have "role ?u = Follower" "cluster_members ?u = cluster_members s" by auto
  ultimately have "core_ok (?u\<lparr>leader_id := Some (ae_leader_id request)\<rparr>)"
    using assms(3) by (auto simp: core_ok_defs)
  then show ?thesis by (simp add: under_leader_def)
qed

text \<open>The new log, when the request is accepted.\<close>

definition reconciled_log :: "append_entries_request \<Rightarrow> 'g raft_core \<Rightarrow> log_entry list option" where
  "reconciled_log request s =
     (if unat (prev_log_index request) \<le> length (log_entries s) \<and>
         term_at (log_entries s) (unat (prev_log_index request)) = prev_log_term request \<and>
         entries_acceptable (ae_term request) (prev_log_term request) (entries request)
      then map_option (\<lambda>(kept, rest). kept @ rest)
        (reconcile (commit_index s) (prev_log_index request) (log_entries s) 0 (entries request))
      else None)"

lemma reconciled_log_SomeE:
  assumes "reconciled_log request s = Some es"
  obtains kept rest where "es = kept @ rest"
    and "unat (prev_log_index request) \<le> length (log_entries s)"
    and "term_at (log_entries s) (unat (prev_log_index request)) = prev_log_term request"
    and "entries_acceptable (ae_term request) (prev_log_term request) (entries request)"
    and "reconcile (commit_index s) (prev_log_index request) (log_entries s) 0 (entries request) = Some (kept, rest)"
  using assms by (auto simp: reconciled_log_def split: if_splits)

lemma reconciled_commands_ok:
  assumes "reconciled_log request s = Some es"
    and "length (log_entries s) + length (entries request) \<le> log_max_size"
    and "commands_ok (log_entries s)" and "commands_ok (entries request)"
  shows "commands_ok es"
proof (rule reconciled_log_SomeE [OF assms(1)])
  fix kept rest
  assume es: "es = kept @ rest" and p: "unat (prev_log_index request) \<le> length (log_entries s)"
    and r: "reconcile (commit_index s) (prev_log_index request) (log_entries s) 0 (entries request) = Some (kept, rest)"
  have b: "unat (prev_log_index request) + length (entries request) \<le> log_max_size" using p assms(2) by simp
  from b p r show ?thesis
  proof (cases rule: reconcile_log)
    case unchanged
    then show ?thesis using es assms(3) by simp
  next
    case (replaced k)
    have "commands_ok (drop k (entries request))"
      using assms(4) by (auto simp: commands_ok_def dest: in_set_dropD)
    then show ?thesis using replaced(3) es assms(3) by (auto intro: commands_ok_take)
  qed
qed

lemma reconciled_log_ok:
  assumes "core_ok s" and "current_term s \<le> ae_term request"
    and "ae_leader_id request \<in> set (cluster_members s)" and "reconciled_log request s = Some es"
    and "length (log_entries s) + length (entries request) \<le> log_max_size"
  shows "core_ok (under_leader lib request s\<lparr>log_entries := es\<rparr>)"
    and "unat (prev_log_index request) + length (entries request) \<le> length es"
proof -
  let ?u = "under_leader lib request s"
  have ok: "core_ok ?u" by (rule core_ok_under_leader [OF assms(1-3)])
  have ct: "current_term ?u = ae_term request" using assms(2) by simp
  obtain kept rest where k: "es = kept @ rest" and p: "unat (prev_log_index request) \<le> length (log_entries s)"
    and pt: "term_at (log_entries s) (unat (prev_log_index request)) = prev_log_term request"
    and a: "entries_acceptable (ae_term request) (prev_log_term request) (entries request)"
    and r: "reconcile (commit_index s) (prev_log_index request) (log_entries s) 0 (entries request) = Some (kept, rest)"
    by (rule reconciled_log_SomeE [OF assms(4)])
  have "entries_acceptable (current_term ?u) (term_at (log_entries ?u) (unat (prev_log_index request))) (entries request)"
    using a pt ct by simp
  moreover have "reconcile (commit_index ?u) (prev_log_index request) (log_entries ?u) 0 (entries request) = Some (kept, rest)"
    using r by simp
  ultimately show "core_ok (?u\<lparr>log_entries := es\<rparr>)"
    and "unat (prev_log_index request) + length (entries request) \<le> length es"
    using core_ok_reconciled [OF ok, of "entries request" "prev_log_index request" kept rest] p assms(5) k
    by simp_all
qed

definition appended :: "'g std_lib \<Rightarrow> append_entries_request \<Rightarrow> log_entry list \<Rightarrow> 'g raft_core \<Rightarrow> 'g raft_core" where
  "appended lib request es s = saved (committed_to (verified_commit request (commit_index s))
     (under_leader lib request s\<lparr>log_entries := es\<rparr>))"

lemma handle_append_entries_accepted:
  assumes "core_ok s" and "working s" and "current_term s \<le> ae_term request"
    and "ae_leader_id request \<in> set (cluster_members s)"
  shows "handle_append_entries lib request s = append_verified request (under_leader lib request s)"
proof -
  let ?first = "if current_term s < ae_term request then become_follower (ae_term request)
    else modify_op follow_leader"
  have "?first s = (Inr (), if current_term s < ae_term request
      then saved (demoted (ae_term request) s) else follow_leader s)"
    using become_follower_working [OF assms(1,2)] by simp
  then show ?thesis
    using assms(3,4) by (simp add: handle_append_entries_eq bind_op_Inr [where m = ?first] under_leader_def not_le [symmetric])
qed

lemma handle_append_entries_working:
  assumes "core_ok s" and "working s"
    and "length (log_entries s) + length (entries request) \<le> log_max_size"
    and "commands_ok (log_entries s)" and "commands_ok (entries request)"
  shows "handle_append_entries lib request s =
    (if ae_leader_id request \<notin> set (cluster_members s) \<or> ae_term request < current_term s
       then (Inr \<lparr>aer_term = current_term s, success = False, matched_index = 0\<rparr>, s)
     else (case reconciled_log request s of
         None \<Rightarrow> (Inr \<lparr>aer_term = ae_term request, success = False, matched_index = 0\<rparr>,
                  under_leader lib request s)
       | Some es \<Rightarrow> (Inr \<lparr>aer_term = ae_term request, success = True,
             matched_index = prev_log_index request + of_nat (length (entries request))\<rparr>,
             appended lib request es s)))"
proof (cases "ae_leader_id request \<notin> set (cluster_members s) \<or> ae_term request < current_term s")
  case True
  then show ?thesis by (auto simp: handle_append_entries_eq)
next
  case False
  then have t: "current_term s \<le> ae_term request" and l: "ae_leader_id request \<in> set (cluster_members s)"
    by auto
  let ?u = "under_leader lib request s"
  have "handle_append_entries lib request s = append_verified request ?u"
    by (rule handle_append_entries_accepted [OF assms(1,2) t l])
  moreover have ok: "core_ok ?u" by (rule core_ok_under_leader [OF assms(1) t l])
  moreover have v: "append_verified request ?u = (case reconciled_log request s of
         None \<Rightarrow> (Inr \<lparr>aer_term = ae_term request, success = False, matched_index = 0\<rparr>, ?u)
       | Some es \<Rightarrow> commit_and_reply request (?u\<lparr>log_entries := es\<rparr>))"
    using t core_ok_length [OF ok]
    by (auto simp: append_verified_def Let_def previous_log_position_matches_eq reconciled_log_def
        split: option.split bool.split)
  moreover have "commit_and_reply request (?u\<lparr>log_entries := es\<rparr>) =
      (Inr \<lparr>aer_term = ae_term request, success = True,
         matched_index = prev_log_index request + of_nat (length (entries request))\<rparr>,
       appended lib request es s)" if es: "reconciled_log request s = Some es" for es
    using commit_and_reply_working [of "?u\<lparr>log_entries := es\<rparr>" request] reconciled_log_ok(1) [OF assms(1) t l es assms(3), of lib]
      reconciled_log_ok(2) [OF assms(1) t l es assms(3)]
      reconciled_commands_ok [OF es assms(3-5)] assms(2) t
    by (simp add: appended_def)
  ultimately show ?thesis using False by (simp split: option.split)
qed

section \<open>Committing on the leader\<close>

text \<open>The leader's progress table after a follower has confirmed index \<open>r\<close>.\<close>

definition confirmed :: "string \<Rightarrow> u64 \<Rightarrow> u64 \<Rightarrow> u64 \<Rightarrow> 'g raft_core \<Rightarrow> 'g raft_core" where
  "confirmed m r i k s =
     (let s1 = if k < r then s\<lparr>match_index := (match_index s)(m \<mapsto> r)\<rparr> else s
      in if i < r + 1 then s1\<lparr>next_index := (next_index s1)(m \<mapsto> r + 1)\<rparr> else s1)"

lemma core_ok_confirmed_by:
  "core_ok s \<Longrightarrow> role s = Leader \<Longrightarrow> m \<in> set (others s) \<Longrightarrow> r \<le> last_log_index s \<Longrightarrow>
     core_ok (confirmed m r i k s)"
  unfolding confirmed_def Let_def by (rule core_ok_confirmed)

definition highest_committable :: "'g raft_core \<Rightarrow> u64 \<Rightarrow> bool" where
  "highest_committable s i \<longleftrightarrow> committable s (unat i) \<and> (\<forall>k > unat i. \<not> committable s k)"

text \<open>A leader has committed all that it may commit.\<close>

definition settled :: "'g raft_core \<Rightarrow> bool" where
  "settled s \<longleftrightarrow> (\<forall>k. \<not> committable s k)"

lemma committable_cong:
  assumes "commit_index t = commit_index s" and "log_entries t = log_entries s" and "current_term t = current_term s"
    and "match_index t = match_index s" and "cluster_members t = cluster_members s" and "node_id t = node_id s"
  shows "committable t = committable s"
  using assms by (simp add: committable_def replicas_def others_def match_of_def majority_size_def cluster_size_def fun_eq_iff)

lemma settled_saved [simp]: "settled (saved s) = settled s"
  using committable_cong [of "saved s" s] by (simp add: settled_def)

lemma settled_committed_to:
  assumes "core_ok s" and "highest_committable s i" and "unat i \<le> length (log_entries s)"
  shows "settled (committed_to i s)"
proof -
  have "commit_index s \<le> i" using assms(2) by (simp add: highest_committable_def committable_def word_le_nat_alt)
  note sel = committed_to_select [OF assms(1) this assms(3)]
  have "committable (committed_to i s) = committable (s\<lparr>commit_index := i\<rparr>)"
    by (rule committable_cong) (simp_all add: sel)
  moreover have "\<not> committable (s\<lparr>commit_index := i\<rparr>) k" for k
    using assms(2)
    by (auto simp: highest_committable_def committable_def replicas_def others_def match_of_def majority_size_def
        cluster_size_def)
  ultimately show ?thesis by (simp add: settled_def)
qed

lemma advance_commit_index_working:
  assumes "core_ok s" and "working s" and "commands_ok (log_entries s)" and "role s = Leader"
  obtains (none) "advance_commit_index s = (Inr (), s)" and "\<forall>k. \<not> committable s k"
    | (found) i where "advance_commit_index s = (Inr (), saved (committed_to i s))"
        and "highest_committable s i" and "commit_index s < i" and "unat i \<le> length (log_entries s)"
  using assms(1,4)
proof (cases rule: advance_commit_index_cases)
  case (found i)
  let ?s = "s\<lparr>commit_index := i\<rparr>"
  have c: "commit_index s < i" "unat i \<le> length (log_entries s)"
    using found(2) by (simp_all add: committable_def word_less_nat_alt)
  have a: "apply_committed_entries ?s = (Inr (), caught_up ?s)"
    using apply_committed_entries_working(1) [OF found(4)] commands_ok_take [OF assms(3)] by simp
  have p: "persist_state (caught_up ?s) = (Inr (), saved (caught_up ?s))"
    using found(4) assms(2) by (intro persist_working) (simp_all add: core_ok_caught_up working_def)
  have "advance_commit_index s = (Inr (), saved (committed_to i s))"
    unfolding found(1) using a p c(1) by (simp add: committed_to_def bind_op_def)
  with found(2,3) c that(2) [of i] show thesis by (simp add: highest_committable_def)
qed (rule that(1))

lemma append_command_working:
  assumes "core_ok s" and "working s" and "role s = Leader" and "cmd \<noteq> []"
    and "length (log_entries s) < log_max_size"
    and "commands_ok (log_entries s @ [\<lparr>entry_term = current_term s, command = cmd\<rparr>])"
  defines "s1 \<equiv> s\<lparr>log_entries := log_entries s @ [\<lparr>entry_term = current_term s, command = cmd\<rparr>]\<rparr>"
  obtains c where "append_command cmd s =
        (Inr (of_nat (Suc (length (log_entries s)))),
         saved (committed_to c s1)\<lparr>pending_append_entries_actions := heartbeat_actions (committed_to c s1)\<rparr>)"
    and "commit_index s \<le> c" and "unat c \<le> Suc (length (log_entries s))"
    and "c \<noteq> commit_index s \<Longrightarrow> highest_committable s1 c" and "core_ok (committed_to c s1)"
    and "settled (committed_to c s1)"
proof -
  have ok: "core_ok s1" unfolding s1_def by (rule core_ok_append [OF assms(1,3-5)])
  have w: "working s1" and l: "role s1 = Leader" and c: "commands_ok (log_entries s1)"
    and n: "length (log_entries s1) = Suc (length (log_entries s))" "commit_index s1 = commit_index s"
    using assms(2,3,6) by (simp_all add: s1_def)
  have end': "append_command cmd s =
        (Inr (of_nat (Suc (length (log_entries s)))),
         saved (committed_to c s1)\<lparr>pending_append_entries_actions := heartbeat_actions (committed_to c s1)\<rparr>)"
    if adv: "advance_commit_index s1 = (Inr (), t)" and t: "saved t = saved (committed_to c s1)"
      and okt: "core_ok t" "working t" "role t = Leader" "log_entries t = log_entries s1"
    for c t
  proof -
    have h: "heartbeat_actions (saved u) = heartbeat_actions u" for u :: "'a raft_core"
      by (simp add: saved_def)
    have q: "queue_heartbeat_actions (saved t) =
        (Inr (), saved t\<lparr>pending_append_entries_actions := heartbeat_actions (saved t)\<rparr>)"
      using okt(3) core_ok_length [OF okt(1)] core_ok_replication [OF okt(1,3)]
      by (intro queue_heartbeat_actions_eq) simp_all
    have "append_command cmd s = bind_op queue_heartbeat_actions (\<lambda>_ s. (Inr (last_log_index s), s)) (saved t)"
      using assms(3,4) adv okt(1,2)
      by (simp add: append_command_def s1_def [symmetric] bind_op_Inr [where m = advance_commit_index] bind_persist_working)
    also have "\<dots> = (Inr (last_log_index t), saved t\<lparr>pending_append_entries_actions := heartbeat_actions (saved t)\<rparr>)"
      using q by (simp add: last_log_index_def)
    finally show ?thesis
      using okt(4) n(1) h unfolding t by (simp add: last_log_index_def last_index_of_def)
  qed
  from ok w c l show thesis
  proof (cases rule: advance_commit_index_working)
    case none
    then show thesis
      using end' [of s1 "commit_index s"] ok w l n core_ok_commit [OF assms(1)]
      by (intro that [of "commit_index s"]) (simp_all add: committed_to_def settled_def)
  next
    case (found i)
    have i: "commit_index s1 \<le> i" using found(3) by simp
    note sel = committed_to_select [OF ok i found(4)]
    have "saved (saved (committed_to i s1)) = saved (committed_to i s1)" by (simp add: saved_def persistent_part_def)
    then show thesis
      using end' [OF found(1)] found sel w l n settled_committed_to [OF ok found(2,4)]
      by (intro that [of i]) simp_all
  qed
qed

end
