(* ===== verification/Raft_Durability.thy ===== *)
theory Raft_Durability
  imports Raft_Results
begin

text \<open>
  What a node has promised is on its disk: every call that returns leaves the file with the
  persistent part of the object, and a node constructed from that file is the old node without
  its volatile state.
\<close>

section \<open>The file after a call\<close>

lemma synced_frame [simp]:
  "synced (s\<lparr>last_applied := x_2\<rparr>) = synced s"
  "synced (s\<lparr>applied_commands := x_3\<rparr>) = synced s"
  "synced (s\<lparr>key_value_store := x_4\<rparr>) = synced s"
  "synced (s\<lparr>role := x_5\<rparr>) = synced s"
  "synced (s\<lparr>leader_id := x_8\<rparr>) = synced s"
  "synced (s\<lparr>votes_received := x_9\<rparr>) = synced s"
  "synced (s\<lparr>current_time_ms := x_10\<rparr>) = synced s"
  "synced (s\<lparr>election_timeout_ms := x_11\<rparr>) = synced s"
  "synced (s\<lparr>election_deadline_ms := x_12\<rparr>) = synced s"
  "synced (s\<lparr>random_engine := x_13\<rparr>) = synced s"
  "synced (s\<lparr>pending_request_vote_actions := x_14\<rparr>) = synced s"
  "synced (s\<lparr>pending_append_entries_actions := x_15\<rparr>) = synced s"
  "synced (s\<lparr>next_index := x_16\<rparr>) = synced s"
  "synced (s\<lparr>match_index := x_17\<rparr>) = synced s"
  by (simp_all add: synced_def)

text \<open>The state is on disk if the operation returned.\<close>

definition durable :: "(exc + 'a) \<times> 'g raft_core \<Rightarrow> bool" where
  "durable r \<longleftrightarrow> (returns r \<longrightarrow> synced (final r))"

lemma durable_Inr [simp]: "durable (Inr a, s) \<longleftrightarrow> synced s"
  by (simp add: durable_def)

lemma durable_Inl [simp]: "durable (Inl e, s)"
  by (simp add: durable_def)

lemma durable_discard [simp]: "durable (discard r) = durable r"
  by (auto simp: durable_def discard_def returns_def split: prod.splits sum.splits)

lemma durable_bind:
  assumes "\<And>a t. m s = (Inr a, t) \<Longrightarrow> durable (k a t)"
  shows "durable (bind_op m k s)"
  using assms by (auto simp: bind_op_def split: prod.splits sum.splits)

lemma persist_state_durable: "core_ok s \<Longrightarrow> working s \<Longrightarrow> durable (persist_state s)"
  by (simp add: persist_working)

lemma queue_heartbeat_actions_durable:
  assumes "core_ok s" and "synced s"
  shows "durable (queue_heartbeat_actions s)"
proof (cases "role s = Leader")
  case True
  show ?thesis
    using queue_heartbeat_actions_eq [OF True core_ok_length [OF assms(1)] core_ok_replication [OF assms(1) True]]
      assms(2) by simp
qed (simp add: queue_heartbeat_actions_def)

lemma become_leader_durable:
  assumes "core_ok s" and "role s = Candidate" and "majority_size s \<le> vote_count s" and "synced s"
  shows "durable (become_leader s)"
  unfolding become_leader_def
  using assms(4)
  by (intro queue_heartbeat_actions_durable initialize_leader_ok assms)
     (simp add: initialize_leader_replication_state_def Let_def)

lemma campaign_durable:
  assumes "core_ok s" and "role s = Candidate" and "synced s"
  shows "durable (campaign s)"
  using assms core_ok_vote_actions [OF assms(1,2)]
  by (auto simp: campaign_eq Let_def intro!: become_leader_durable)

lemma start_election_durable:
  assumes "core_ok s" and "current_term s \<noteq> - 1" and "working s"
  shows "durable (start_election lib s)"
proof -
  let ?s1 = "reset_election_deadline lib (candidacy s)"
  have ok: "core_ok ?s1" using core_ok_candidacy [OF assms(1,2)] by simp
  have w: "working ?s1" using assms(3) by (simp add: candidacy_def)
  have c: "role ?s1 = Candidate" by (simp add: candidacy_def)
  show ?thesis
    unfolding start_election_eq bind_persist_working [OF ok w]
    using ok w c by (intro campaign_durable) simp_all
qed

lemma become_follower_durable:
  assumes "core_ok s" and "working s"
  shows "durable (become_follower t s)"
proof (cases "current_term s < t")
  case True
  show ?thesis by (simp add: become_follower_working [OF assms True] assms(2))
qed (simp add: become_follower_def not_less)

lemma apply_committed_entries_keeps_working:
  assumes "core_ok s" and "working s" and "apply_committed_entries s = (r, t)"
  shows "core_ok t \<and> working t"
  using assms(2) core_ok_caught_up [OF assms(1)] caught_up_select(17) [OF assms(1)] assms(3)
  by (simp add: caught_up_def)

lemma advance_commit_index_durable:
  assumes "core_ok s" and "synced s"
  shows "durable (advance_commit_index s)"
proof (cases "role s = Leader")
  case True
  from assms(1) True show ?thesis
  proof (cases rule: advance_commit_index_cases)
    case (found i)
    have w: "working (s\<lparr>commit_index := i\<rparr>)" using synced_working [OF assms(2)] by simp
    show ?thesis
      unfolding found(1)
    proof (rule durable_bind)
      fix a t
      assume "apply_committed_entries (s\<lparr>commit_index := i\<rparr>) = (Inr a, t)"
      then show "durable (persist_state t)"
        using apply_committed_entries_keeps_working [OF found(4) w] by (blast intro: persist_state_durable)
    qed
  qed (simp add: assms)
qed (simp add: advance_commit_index_def assms)

lemma append_command_durable:
  assumes "core_ok s" and "working s" and "length (log_entries s) < log_max_size"
  shows "durable (append_command cmd s)"
proof (cases "role s = Leader \<and> cmd \<noteq> []")
  case True
  let ?s1 = "s\<lparr>log_entries := log_entries s @ [\<lparr>entry_term = current_term s, command = cmd\<rparr>]\<rparr>"
  have ok: "core_ok ?s1" using True core_ok_append [OF assms(1) _ _ assms(3)] by blast
  have w: "working t" if "advance_commit_index ?s1 = (Inr a, t)" for a t
  proof -
    have r: "role ?s1 = Leader" using True by simp
    from ok r show ?thesis
    proof (cases rule: advance_commit_index_cases)
      case none
      with that assms(2) show ?thesis by auto
    next
      case (found i)
      have w1: "working (?s1\<lparr>commit_index := i\<rparr>)" using assms(2) by simp
      obtain u where u: "apply_committed_entries (?s1\<lparr>commit_index := i\<rparr>) = (Inr (), u)" "persist_state u = (Inr a, t)"
        using \<open>advance_commit_index ?s1 = (Inr a, t)\<close> unfolding found(1) by (rule bind_op_cases) auto
      then have "core_ok u \<and> working u"
        using apply_committed_entries_keeps_working [OF found(4) w1] by blast
      with u(2) show ?thesis by (auto simp: persist_working)
    qed
  qed
  have "durable (bind_op advance_commit_index (\<lambda>_. bind_op persist_state (\<lambda>_.
      bind_op queue_heartbeat_actions (\<lambda>_ s. (Inr (last_log_index s), s)))) ?s1)"
  proof (rule durable_bind)
    fix a t
    assume t: "advance_commit_index ?s1 = (Inr a, t)"
    then have okt: "core_ok t" using advance_commit_index_leaves [OF ok] by simp
    have "synced (final (queue_heartbeat_actions (saved t)))" if "returns (queue_heartbeat_actions (saved t))"
      using queue_heartbeat_actions_durable [of "saved t"] okt w [OF t] that by (simp add: durable_def)
    then have "durable (bind_op queue_heartbeat_actions (\<lambda>_ s. (Inr (last_log_index s), s)) (saved t))"
      by (intro durable_bind) (simp add: returns_def)
    then show "durable (bind_op persist_state (\<lambda>_.
      bind_op queue_heartbeat_actions (\<lambda>_ s. (Inr (last_log_index s), s))) t)"
      unfolding bind_persist_working [OF okt w [OF t]] .
  qed
  with True show ?thesis by (simp add: append_command_def)
qed (auto simp: append_command_def)

lemma commit_and_reply_durable:
  assumes "core_ok s" and "working s"
    and "unat (prev_log_index request) + length (entries request) \<le> length (log_entries s)"
  shows "durable (commit_and_reply request s)"
proof -
  let ?m = "prev_log_index request + of_nat (length (entries request)) :: u64"
  let ?h = "if leader_commit request < ?m then leader_commit request else ?m"
  let ?first = "if commit_index s < leader_commit request \<and> commit_index s < ?h
      then (\<lambda>s. apply_committed_entries (s\<lparr>commit_index := ?h\<rparr>)) else return_op ()"
  have "core_ok t \<and> working t" if t: "?first s = (Inr a, t)" for a t
  proof (cases "commit_index s < leader_commit request \<and> commit_index s < ?h")
    case True
    have "unat ?m = unat (prev_log_index request) + length (entries request)"
      using assms(3) core_ok_length [OF assms(1)] by (intro unat_add_small) simp
    then have "unat ?h \<le> length (log_entries s)" using assms(3) by (auto simp: word_less_nat_alt)
    then have "core_ok (s\<lparr>commit_index := ?h\<rparr>)"
      using core_ok_commit_index [OF assms(1) less_imp_le [OF conjunct2 [OF True]]] by blast
    moreover have "working (s\<lparr>commit_index := ?h\<rparr>)" using assms(2) by simp
    moreover have "apply_committed_entries (s\<lparr>commit_index := ?h\<rparr>) = (Inr a, t)" using t True by simp
    ultimately show ?thesis by (rule apply_committed_entries_keeps_working)
  next
    case False
    then have "t = s" using t by (auto split: if_splits)
    with assms(1,2) show ?thesis by simp
  qed
  then show ?thesis
    unfolding commit_and_reply_def Let_def
    by (intro durable_bind [where m = ?first]) (simp add: bind_persist_working)
qed

lemma handle_append_entries_durable:
  assumes "core_ok s" and "synced s"
    and "length (log_entries s) + length (entries request) \<le> log_max_size"
  shows "durable (handle_append_entries lib request s)"
proof (cases "ae_leader_id request \<notin> set (cluster_members s) \<or> ae_term request < current_term s")
  case True
  then show ?thesis using assms(2) by (auto simp: handle_append_entries_eq)
next
  case False
  then have t: "current_term s \<le> ae_term request" and l: "ae_leader_id request \<in> set (cluster_members s)"
    by auto
  let ?u = "under_leader lib request s"
  have ok: "core_ok ?u" by (rule core_ok_under_leader [OF assms(1) t l])
  have ct: "current_term ?u = ae_term request" using t by simp
  have sy: "synced ?u" by (rule synced_under_leader [OF assms(2)])
  have len: "length (log_entries ?u) + length (entries request) \<le> log_max_size" using assms(3) by simp
  have "durable (commit_and_reply request (?u\<lparr>log_entries := kept @ rest\<rparr>))"
    if p: "unat (prev_log_index request) \<le> length (log_entries ?u)"
      and e: "entries_acceptable (ae_term request) (term_at (log_entries ?u) (unat (prev_log_index request))) (entries request)"
      and r: "reconcile (commit_index ?u) (prev_log_index request) (log_entries ?u) 0 (entries request) = Some (kept, rest)"
    for kept rest
    using core_ok_reconciled [OF ok _ len p _ r, unfolded ct, OF _ e] synced_working [OF sy]
    by (intro commit_and_reply_durable) simp_all
  then have "durable (append_verified request ?u)"
    using sy core_ok_length [OF ok]
    by (auto simp: append_verified_def Let_def previous_log_position_matches_eq split: option.split bool.split)
  moreover have "handle_append_entries lib request s = append_verified request ?u"
    using False handle_append_entries_accepted [OF assms(1) synced_working [OF assms(2)] t l] by blast
  ultimately show ?thesis by simp
qed

text \<open>Every call: the promise of a returned call survives a crash.\<close>

lemma call_durable:
  assumes "core_ok s" and "synced s" and "within_bounds c s"
  shows "durable (call lib c s)"
proof (cases c)
  case (Tick ms)
  have "durable (start_election lib (advance_time ms s))"
  proof (rule start_election_durable)
    show "core_ok (advance_time ms s)" using assms(1) by simp
    show "current_term (advance_time ms s) \<noteq> - 1" "working (advance_time ms s)"
      using assms(2,3) Tick by (simp_all add: within_bounds_def advance_time_def synced_working)
  qed
  then have "durable (bind_op (start_election lib) (\<lambda>_. return_op True) (advance_time ms s))"
    by (intro durable_bind) (simp add: durable_def returns_def)
  then show ?thesis using Tick assms(2) by (simp add: tick_def Let_def advance_time_def)
next
  case Start_Election
  then show ?thesis using assms by (simp add: within_bounds_def start_election_durable synced_working)
next
  case (Handle_Request_Vote request)
  then show ?thesis
    using assms by (auto simp: handle_request_vote_working synced_working Let_def synced_in_term voted_def)
next
  case (Receive_Vote voter response)
  let ?s1 = "s\<lparr>votes_received := insert voter (votes_received s)\<rparr>"
  have "core_ok ?s1" if "role s = Candidate" "voter \<in> set (cluster_members s)"
    using assms(1) that by (auto simp: core_ok_defs)
  then have "durable (become_leader ?s1)"
    if "role s = Candidate" "voter \<in> set (cluster_members s)" "majority_size ?s1 \<le> vote_count ?s1"
    using that assms(2) by (intro become_leader_durable) simp_all
  then show ?thesis
    using Receive_Vote assms
    by (auto simp: receive_vote_def Let_def become_follower_durable synced_working)
next
  case (Append_Command cmd)
  then show ?thesis using assms by (simp add: within_bounds_def append_command_durable synced_working)
next
  case (Handle_Append_Entries request)
  then show ?thesis using assms by (simp add: within_bounds_def handle_append_entries_durable)
next
  case (Receive_Append_Entries_Response m response)
  show ?thesis
  proof (cases "m \<in> set (others s) \<and> aer_term response = current_term s \<and> role s = Leader \<and>
      success response \<and> matched_index response \<le> last_log_index s")
    case True
    then have m: "m \<in> set (others s)" and l: "role s = Leader"
      and le: "matched_index response \<le> last_log_index s" by simp_all
    obtain i k where ik: "next_index s m = Some i" "match_index s m = Some k"
      using replication_okE [OF core_ok_replication [OF assms(1) l] m] by metis
    let ?s2 = "confirmed m (matched_index response) i k s"
    have "receive_append_entries_response m response s = advance_commit_index ?s2"
      using True ik
      by (simp add: receive_append_entries_response_def others_def Let_def not_less [symmetric] confirmed_def)
    moreover have "core_ok ?s2" by (rule core_ok_confirmed_by [OF assms(1) l m le])
    moreover have "synced ?s2" using assms(2) by (simp add: confirmed_def Let_def)
    ultimately show ?thesis using Receive_Append_Entries_Response by (simp add: advance_commit_index_durable)
  next
    case False
    with assms show ?thesis using Receive_Append_Entries_Response
      by (auto simp: receive_append_entries_response_def others_def not_less become_follower_durable
          synced_working split: option.split)
  qed
qed (use assms in \<open>simp_all add: advance_time_def take_request_vote_actions_def
    take_append_entries_actions_def queue_heartbeat_actions_durable\<close>)

section \<open>Restarting\<close>

text \<open>
  The constructor run on the file of a node, with the same configuration; the initial term and
  log it is given do not matter.
\<close>

lemma restart_result:
  assumes s: "core_ok s" "synced s" "storage_path s \<noteq> []" and lib: "iterates_once lib"
    and conf: "check_configuration (node_id s) lo hi members = Inr members"
      "set members = set (cluster_members s)"
    and len: "length log0 \<le> log_max_size"
    and cmds: "commands_ok (take (unat (commit_index s)) (log_entries s))"
  obtains t where "new_raft_core lib (node_id s) members t0 log0 lo hi seed (storage_path s) (disk s) = (Inr t, disk t)"
    and "fresh_node (persistent_part s) t" and "synced t" and "node_id t = node_id s"
    and "storage_path t = storage_path s" and "set (cluster_members t) = set (cluster_members s)"
    and "cluster_members t = set_order lib members"
proof -
  have h: "healthy (disk s)" using s(2,3) by (simp add: synced_def)
  have boot: "boot_state t0 log0 (storage_path s) (disk s) = Inr (persistent_part s)"
    using synced_load [OF s] s(2,3)
    by (simp add: boot_state_def file_exists_def synced_def healthy_def)
  have "set_option (voted_for s) \<subseteq> set (cluster_members s)" using s(1) by (simp add: core_ok_defs)
  moreover have "commit_index s \<le> last_index_of (log_entries s)"
    using core_ok_commit [OF s(1)] unat_last_index [OF core_ok_length [OF s(1)]]
    by (simp add: word_le_nat_alt)
  ultimately have acc: "acceptable_boot members (persistent_part s)"
    using core_ok_valid_log [OF s(1)] conf(2) by (simp add: acceptable_boot_def persistent_part_def)
  have o: "set (set_order lib members) = set members"
    using lib conf(1) by (simp add: iterates_once_def check_configuration_iff)
  have pc: "commands_ok (take (unat (ps_commit_index (persistent_part s))) (ps_log_entries (persistent_part s)))"
    using cmds by (simp add: persistent_part_def)
  have hd: "storage_path s = [] \<or> healthy (disk s)" using h by simp
  show thesis
  proof (rule new_raft_core_succeeds [OF lib len conf(1) boot acc pc hd])
    fix t
    assume t: "new_raft_core lib (node_id s) members t0 log0 lo hi seed (storage_path s) (disk s) = (Inr t, disk t)"
      "fresh_node (persistent_part s) t" "storage_path t = storage_path s" "node_id t = node_id s"
      "cluster_members t = set_order lib members"
      "disk t = (if storage_path s = [] then disk s
        else disk s\<lparr>contents := Some (state_text (persistent_part s))\<rparr>)"
    then have "synced t"
      using h s(3) by (simp add: synced_def healthy_def fresh_node_def)
    with t o conf(2) show thesis by (intro that) simp_all
  qed
qed

end
