(* ===== verification/Raft_Properties.thy ===== *)
theory Raft_Properties
  imports Raft_Durability
begin

text \<open>
  The properties of a single \<^verbatim>\<open>RaftCore\<close> object, with a concrete standard library and concrete
  nodes on which their hypotheses hold.
\<close>

section \<open>Concrete nodes\<close>

text \<open>An engine that counts, a draw that takes the lower bound, and iteration in insertion order.\<close>

definition sample_lib :: "u64 std_lib" where
  "sample_lib = \<lparr>seed_engine = (\<lambda>s. s), draw_uniform = (\<lambda>lo hi g. (lo, g + 1)), set_order = (\<lambda>xs. xs)\<rparr>"

lemma sample_lib_ok [simp]: "iterates_once sample_lib" "draws_in_range sample_lib"
  by (simp_all add: sample_lib_def iterates_once_def draws_in_range_def)

definition sample_disk :: state_file where
  "sample_disk = \<lparr>contents = None, readable = True, writable = True, capacity = None\<rparr>"

definition sample_members :: "string list" where
  "sample_members = [''a'', ''b'', ''c'']"

definition sample_log :: "log_entry list" where
  "sample_log = [\<lparr>entry_term = 1, command = ''SET x 1''\<rparr>, \<lparr>entry_term = 2, command = ''SET y 2''\<rparr>]"

text \<open>A follower of term 2 with two entries, none of them committed.\<close>

definition sample_follower :: "u64 raft_core" where
  "sample_follower = (initial_core sample_lib ''a'' sample_members 2 sample_log 150 300 7 ''state'' sample_disk)"

text \<open>The same node as the leader of term 2, after \<^verbatim>\<open>b\<close> has confirmed both entries.\<close>

definition sample_leader :: "u64 raft_core" where
  "sample_leader = sample_follower\<lparr>role := Leader, voted_for := Some ''a'', leader_id := Some ''a'',
     votes_received := {''a'', ''b''},
     next_index := [''b'' \<mapsto> 3, ''c'' \<mapsto> 3], match_index := [''b'' \<mapsto> 2, ''c'' \<mapsto> 0]\<rparr>"

lemma sample_log_ok [simp]: "valid_log 2 sample_log" "commands_ok sample_log" "length sample_log = 2"
proof -
  have "well_formed_command ''SET x 1''" "well_formed_command ''SET y 2''"
    using well_formed_set [of "''x''" "''1''"] well_formed_set [of "''y''" "''2''"]
    by (simp_all add: valid_key_def)
  then show "commands_ok sample_log" by (simp add: sample_log_def commands_ok_def)
qed (simp_all add: sample_log_def valid_log_def log_terms_def)

lemma sample_configuration [simp]: "check_configuration ''a'' 150 300 sample_members = Inr sample_members"
  by (simp add: check_configuration_iff sample_members_def)

lemma sample_follower_select [simp]:
  "role sample_follower = Follower" "node_id sample_follower = ''a''"
  "cluster_members sample_follower = sample_members" "log_entries sample_follower = sample_log"
  "commit_index sample_follower = 0" "current_term sample_follower = 2" "voted_for sample_follower = None"
  "last_applied sample_follower = 0" "storage_path sample_follower = ''state''"
  "disk sample_follower = sample_disk" "min_election_timeout_ms sample_follower = 150"
  "max_election_timeout_ms sample_follower = 300" "current_time_ms sample_follower = 0"
  by (simp_all add: sample_follower_def initial_core_def sample_lib_def)

lemma sample_leader_select [simp]:
  "role sample_leader = Leader" "node_id sample_leader = ''a''"
  "cluster_members sample_leader = sample_members" "log_entries sample_leader = sample_log"
  "commit_index sample_leader = 0" "current_term sample_leader = 2"
  "storage_path sample_leader = ''state''" "disk sample_leader = sample_disk"
  "next_index sample_leader = [''b'' \<mapsto> 3, ''c'' \<mapsto> 3]" "match_index sample_leader = [''b'' \<mapsto> 2, ''c'' \<mapsto> 0]"
  by (simp_all add: sample_leader_def)

lemma sample_disk_ok [simp]: "healthy sample_disk"
  by (simp add: sample_disk_def healthy_def)

lemma sample_follower_ok [simp]: "core_ok sample_follower" "working sample_follower"
proof -
  have "booted \<lparr>ps_current_term = 2, ps_voted_for = None, ps_log_entries = sample_log, ps_commit_index = 0\<rparr>
      sample_follower = sample_follower"
    by (simp add: booted_def)
  moreover have "core_ok (booted \<lparr>ps_current_term = 2, ps_voted_for = None, ps_log_entries = sample_log,
      ps_commit_index = 0\<rparr> sample_follower)"
    unfolding sample_follower_def
    by (rule core_ok_booted) (simp_all add: log_max_size_def)
  ultimately show "core_ok sample_follower" by simp
qed (simp add: working_def)

lemma sample_others [simp]: "others sample_follower = [''b'', ''c'']" "others sample_leader = [''b'', ''c'']"
  by (simp_all add: others_def sample_members_def)

lemma sample_majority [simp]: "majority_size sample_follower = 2" "majority_size sample_leader = 2"
  by (simp_all add: majority_size_def cluster_size_def sample_members_def)

lemma sample_leader_ok [simp]: "core_ok sample_leader" "working sample_leader"
proof -
  have "replication_ok sample_leader"
    by (auto simp: replication_ok_def next_of_def match_of_def)
  moreover have "majority_size sample_leader \<le> vote_count sample_leader"
    by (simp add: vote_count_def) (simp add: sample_leader_def)
  ultimately show "core_ok sample_leader"
    using sample_follower_ok(1)
    by (auto simp: core_ok_defs sample_leader_def sample_members_def)
qed (simp add: working_def)

text \<open>A node as the constructor returns it, with an empty file.\<close>

lemma sample_node:
  obtains s where "new_raft_core sample_lib ''a'' sample_members 2 sample_log 150 300 7 ''state'' sample_disk = (Inr s, disk s)"
    and "core_reachable sample_lib s" and "core_ok s" and "synced s" and "storage_path s = ''state''"
    and "node_id s = ''a''" and "cluster_members s = sample_members" and "current_term s = 2"
    and "log_entries s = sample_log" and "commit_index s = 0" and "voted_for s = None"
proof -
  let ?st = "\<lparr>ps_current_term = 2, ps_voted_for = None, ps_log_entries = sample_log, ps_commit_index = 0\<rparr>"
  show thesis
  proof (rule new_raft_core_succeeds [of sample_lib sample_log "''a''" 150 300 sample_members 2 "''state''" sample_disk ?st 7])
    fix s
    assume s: "new_raft_core sample_lib ''a'' sample_members 2 sample_log 150 300 7 ''state'' sample_disk = (Inr s, disk s)"
      "fresh_node ?st s" "storage_path s = ''state''" "node_id s = ''a''"
      "cluster_members s = set_order sample_lib sample_members"
      "disk s = (if ''state'' = [] then sample_disk else sample_disk\<lparr>contents := Some (state_text ?st)\<rparr>)"
    then have "synced s"
      using sample_disk_ok by (auto simp: synced_def fresh_node_def healthy_def)
    moreover have "core_reachable sample_lib s"
      using s(1) by (rule constructed [rotated]) (simp add: log_max_size_def)
    ultimately show thesis
      using s by (intro that) (auto simp: fresh_node_def persistent_part_def sample_lib_def)
  qed (simp_all add: boot_state_def file_exists_def sample_disk_def acceptable_boot_def healthy_def log_max_size_def)
qed

section \<open>Invariants and history\<close>

text \<open>
  C6: Every object that a constructor returned and that any calls of the public interface, with
  any arguments, have changed, on normal returns as on exceptions, satisfies the invariant of the
  class (configuration, log, commit index, role, votes, progress tables, queues), and no further
  call reads outside a vector.
\<close>

theorem reachable_core_invariant:
  assumes "iterates_once lib" and "core_reachable lib s" and "within_bounds c s"
  shows "core_ok s \<and> fst (call lib c s) \<noteq> Inl UndefinedBehaviour"
  using core_reachable_ok [OF assms(2,1)] call_leaves [OF core_reachable_ok [OF assms(2,1)] assms(3)]
  by (simp add: leaves_def)

theorem reachable_core_invariant_witness:
  "\<exists>s. core_reachable sample_lib s \<and> core_ok s \<and> fst (call sample_lib (Tick 400) s) \<noteq> Inl UndefinedBehaviour"
proof (rule sample_node)
  fix s :: "u64 raft_core"
  assume "core_reachable sample_lib s" and "current_term s = 2"
  then show ?thesis
    using reachable_core_invariant [of sample_lib s "Tick 400"] by (auto simp: within_bounds_def)
qed

text \<open>
  C7: What a node has learned it never unlearns while it runs.  From any reachable object through
  any sequence of calls: the term does not decrease, a vote is not changed within its term, the
  commit index does not decrease, the committed part of the log stays the same, and the
  commands already applied stay applied, in the same order.
\<close>

theorem calls_never_undo:
  assumes "iterates_once lib" and "core_reachable lib s" and "(core_step lib)\<^sup>*\<^sup>* s t"
  shows "current_term s \<le> current_term t \<and>
    (current_term t \<noteq> current_term s \<or> voted_for s = None \<or> voted_for t = voted_for s) \<and>
    commit_index s \<le> commit_index t \<and>
    take (unat (commit_index s)) (log_entries t) = take (unat (commit_index s)) (log_entries s) \<and>
    prefix (applied_commands s) (applied_commands t)"
proof -
  have s: "core_ok s" by (rule core_reachable_ok [OF assms(2,1)])
  have p: "core_ok t" "advances s t"
    using core_steps_progress [OF assms(3) s] by (simp_all add: progress_def)
  have js: "applied_commands s = map command (take (unat (last_applied s)) (log_entries s))"
    and jt: "applied_commands t = map command (take (unat (last_applied t)) (log_entries t))"
    and l: "unat (last_applied s) \<le> unat (commit_index s)" "unat (last_applied s) \<le> unat (last_applied t)"
    using core_ok_journal [OF s] core_ok_journal [OF p(1)] p(2)
    unfolding journal_ok_def advances_def by (simp_all add: word_le_nat_alt)
  have "take (unat (last_applied s)) (log_entries t) = take (unat (last_applied s)) (log_entries s)"
    using p(2) l(1) unfolding advances_def by (metis min.absorb1 take_take)
  then have "applied_commands s = take (unat (last_applied s)) (applied_commands t)"
    using l(2) unfolding js jt by (simp add: take_map min_absorb1)
  then have "prefix (applied_commands s) (applied_commands t)" by (metis take_is_prefix)
  with p(2) show ?thesis unfolding advances_def by blast
qed

theorem calls_never_undo_witness:
  "\<exists>s t. (core_step sample_lib)\<^sup>*\<^sup>* s t \<and> current_term s = 2 \<and> current_term s \<le> current_term t"
proof (rule sample_node)
  fix s :: "u64 raft_core"
  assume r: "core_reachable sample_lib s" and t: "current_term s = 2"
  have "core_step sample_lib s (final (call sample_lib Start_Election s))"
    using t by (intro core_step) (simp add: within_bounds_def)
  then have "(core_step sample_lib)\<^sup>*\<^sup>* s (final (call sample_lib Start_Election s))" by blast
  then show ?thesis
    using calls_never_undo [OF _ r] t sample_lib_ok(1) by blast
qed

text \<open>
  C19: The key-value store of a reachable node is always the result of replaying, from the empty
  store, the commands of the first \<open>last_applied\<close> log entries; these are committed, and the
  commit index lies within the log.
\<close>

theorem store_is_replay_of_the_log:
  assumes "iterates_once lib" and "core_reachable lib s"
  shows "kv_replay (map command (take (unat (last_applied s)) (log_entries s))) = Inr (key_value_store s) \<and>
    last_applied s \<le> commit_index s \<and> unat (commit_index s) \<le> length (log_entries s)"
  using core_ok_journal [OF core_reachable_ok [OF assms(2,1)]] unfolding journal_ok_def by metis

theorem store_is_replay_of_the_log_witness:
  "\<exists>s. core_reachable sample_lib s \<and> log_entries s = sample_log \<and>
     kv_replay (map command (take (unat (last_applied s)) (log_entries s))) = Inr (key_value_store s)"
proof (rule sample_node)
  fix s :: "u64 raft_core"
  assume "core_reachable sample_lib s" and "log_entries s = sample_log"
  then show ?thesis using store_is_replay_of_the_log [of sample_lib s] by auto
qed

section \<open>Durability\<close>

text \<open>
  C14: On a working disk, when a call returns, the file holds the term, the vote, the log and the
  commit index the object has then: whatever the node answers, it has saved before.
\<close>

theorem returned_calls_are_durable:
  assumes "core_ok s" and "synced s" and "storage_path s \<noteq> []" and "within_bounds c s"
    and "call lib c s = (Inr (), t)"
  shows "load (disk t) = Inr (persistent_part t)"
proof -
  have "core_ok t" "advances s t"
    using call_progress [OF assms(1,4), of lib] assms(5) by (simp_all add: progress_def)
  moreover have "synced t" using call_durable [OF assms(1,2,4), of lib] assms(5) by simp
  ultimately show ?thesis using assms(3) by (intro synced_load) (simp_all add: advances_def)
qed

theorem returned_calls_are_durable_witness:
  "\<exists>s t. call sample_lib (Advance_Time 5) s = (Inr (), t) \<and> load (disk t) = Inr (persistent_part t)"
proof (rule sample_node)
  fix s :: "u64 raft_core"
  assume s: "core_ok s" "synced s" "storage_path s = ''state''"
  have "call sample_lib (Advance_Time 5) s = (Inr (), advance_time 5 s)" by simp
  with returned_calls_are_durable [OF s(1,2) _ _ this] s(3) show ?thesis
    by (auto simp: within_bounds_def)
qed

text \<open>
  C15: A node that crashes between two calls and is constructed again on its file comes back as a
  follower with the same term, vote, log and commit index, with every committed entry applied,
  whatever initial term and log the constructor is given; if the old object had applied all of
  them too, the store is the same.  The entries must be ones the store accepts.
\<close>

theorem restart_recovers:
  assumes "core_ok s" and "synced s" and "storage_path s \<noteq> []" and "iterates_once lib"
    and "check_configuration (node_id s) lo hi members = Inr members"
    and "set members = set (cluster_members s)" and "length log0 \<le> log_max_size"
    and "commands_ok (take (unat (commit_index s)) (log_entries s))"
  shows "\<exists>t. new_raft_core lib (node_id s) members t0 log0 lo hi seed (storage_path s) (disk s) = (Inr t, disk t) \<and>
    core_ok t \<and> role t = Follower \<and> persistent_part t = persistent_part s \<and>
    last_applied t = commit_index s \<and>
    (last_applied s \<noteq> commit_index s \<or> key_value_store t = key_value_store s)"
proof (rule restart_result [OF assms])
  fix t
  assume new: "new_raft_core lib (node_id s) members t0 log0 lo hi seed (storage_path s) (disk s) = (Inr t, disk t)"
    and f: "fresh_node (persistent_part s) t"
  then have t: "core_ok t" "role t = Follower" "persistent_part t = persistent_part s" "last_applied t = commit_index t"
    by (simp_all add: fresh_node_def)
  then have c: "commit_index t = commit_index s" "log_entries t = log_entries s"
    by (simp_all add: persistent_part_def)
  have "kv_replay (map command (take (unat (last_applied t)) (log_entries t))) = Inr (key_value_store t)"
    using core_ok_journal [OF t(1)] unfolding journal_ok_def by metis
  moreover have "kv_replay (map command (take (unat (last_applied s)) (log_entries s))) = Inr (key_value_store s)"
    using core_ok_journal [OF assms(1)] unfolding journal_ok_def by metis
  ultimately have "key_value_store t = key_value_store s" if "last_applied s = commit_index s"
    using that t(4) c by simp
  with new t c show ?thesis by auto
qed

theorem restart_recovers_witness:
  "\<exists>(s :: u64 raft_core) t. new_raft_core sample_lib (node_id s) sample_members 0 [] 150 300 9 (storage_path s) (disk s) = (Inr t, disk t) \<and>
     persistent_part t = persistent_part s \<and> log_entries s = sample_log"
proof (rule sample_node)
  fix s :: "u64 raft_core"
  assume s: "core_ok s" "synced s" "storage_path s = ''state''" "node_id s = ''a''"
    "cluster_members s = sample_members" "log_entries s = sample_log" "commit_index s = 0"
  then obtain t where
    "new_raft_core sample_lib (node_id s) sample_members 0 [] 150 300 9 (storage_path s) (disk s) = (Inr t, disk t)"
    "persistent_part t = persistent_part s"
    using restart_recovers [OF s(1,2) _ sample_lib_ok(1), of 150 300 sample_members "[]" 0 9] by auto
  with s(6) show ?thesis by blast
qed

section \<open>Elections\<close>

text \<open>
  C12: A vote request is always answered, with the term the node is then in, and the vote is granted
  exactly to a member whose request is not of an older term, to whom or to nobody else the node has
  voted in that term (in a newer term it has not voted yet), and whose log is at least as recent as
  its own: by the term of the last entry, then by the length.  A node that grants is in the term of
  the request and has recorded its vote; one that refuses keeps the vote of its term, and in a newer
  term it has none.
\<close>

theorem vote_granted_iff:
  assumes "core_ok s" and "working s"
  shows "\<exists>r t. handle_request_vote lib request s = (Inr r, t) \<and> rvr_term r = current_term t \<and>
    (vote_granted r \<longleftrightarrow>
       candidate_id request \<in> set (cluster_members s) \<and>
       (current_term s < rv_term request \<or>
        current_term s = rv_term request \<and> voted_for s \<in> {None, Some (candidate_id request)}) \<and>
       position_of (log_entries s) \<le> Log_Position (rv_last_log_term request) (rv_last_log_index request)) \<and>
    voted_for t = (if vote_granted r then Some (candidate_id request)
                   else if current_term t = current_term s then voted_for s else None) \<and>
    (vote_granted r \<longrightarrow> current_term t = rv_term request)"
  using handle_request_vote_working [OF assms, of lib request]
  by (auto simp: Let_def grants_def in_term_def voted_def)

definition sample_vote_request :: request_vote_request where
  "sample_vote_request = \<lparr>rv_term = 3, candidate_id = ''b'', rv_last_log_index = 2, rv_last_log_term = 2\<rparr>"

theorem vote_granted_iff_witness:
  "\<exists>r t. handle_request_vote sample_lib sample_vote_request sample_follower = (Inr r, t) \<and>
     vote_granted r \<and> rvr_term r = 3 \<and> voted_for t = Some ''b''"
proof -
  have "position_of sample_log \<le> Log_Position 2 2"
    by (simp add: position_of_def less_eq_log_position_def last_index_of_def last_term_of_def)
       (simp add: sample_log_def)
  then show ?thesis
    using vote_granted_iff [OF sample_follower_ok, of sample_lib sample_vote_request]
    by (auto simp: sample_vote_request_def sample_members_def)
qed

text \<open>
  Starting an election, the node enters the next term as a candidate, votes for itself and
  asks every other member once for its vote, with the position of its own last log entry; alone
  in its cluster it is the leader at once.  Its log and commit index are untouched.
\<close>

theorem start_election_result:
  assumes "core_ok s" and "working s" and "current_term s \<noteq> - 1"
  shows "\<exists>t. start_election lib s = (Inr (), t) \<and> current_term t = current_term s + 1 \<and>
    voted_for t = Some (node_id s) \<and> persistent_part t = (persistent_part s)\<lparr>
      ps_current_term := current_term s + 1, ps_voted_for := Some (node_id s)\<rparr> \<and>
    (if cluster_size s = 1 then role t = Leader
     else role t = Candidate \<and> pending_request_vote_actions t = map (\<lambda>m. \<lparr>rv_target = m, rv_request =
       \<lparr>rv_term = current_term s + 1, candidate_id = node_id s, rv_last_log_index = last_log_index s,
        rv_last_log_term = last_log_term s\<rparr>\<rparr>) (others s))"
proof -
  let ?u = "saved (reset_election_deadline lib (candidacy s))"
  have u: "core_ok (reset_election_deadline lib (candidacy s))" "working (reset_election_deadline lib (candidacy s))"
    using core_ok_candidacy [OF assms(1,3)] assms(2) by (simp_all add: candidacy_def)
  have sel: "role ?u = Candidate" "majority_size ?u = majority_size s" "vote_count ?u = 1"
      "node_id ?u = node_id s" "current_term ?u = current_term s + 1" "voted_for ?u = Some (node_id s)"
      "log_entries ?u = log_entries s" "commit_index ?u = commit_index s"
      "cluster_members ?u = cluster_members s"
    by (simp_all add: candidacy_def vote_count_def majority_size_def cluster_size_def)
  have v: "vote_actions ?u = map (\<lambda>m. \<lparr>rv_target = m, rv_request =
       \<lparr>rv_term = current_term s + 1, candidate_id = node_id s, rv_last_log_index = last_log_index s,
        rv_last_log_term = last_log_term s\<rparr>\<rparr>) (others s)"
    using sel by (simp add: vote_actions_def others_def last_log_index_def last_log_term_def)
  let ?v = "?u\<lparr>pending_request_vote_actions := vote_actions ?u\<rparr>"
  have run: "start_election lib s = (if majority_size s \<le> 1 then become_leader ?v else (Inr (), ?v))"
    unfolding start_election_eq bind_persist_working [OF u] using sel by (simp add: campaign_eq Let_def)
  have one: "majority_size s \<le> 1 \<longleftrightarrow> cluster_size s = 1"
    using assms(1) by (auto simp: core_ok_def config_ok_def majority_size_def cluster_size_def elim!: oddE)
  show ?thesis
  proof (cases "cluster_size s = 1")
    case True
    have ok: "core_ok ?v" using core_ok_vote_actions [of ?u] u(1) sel(1) by simp
    let ?w = "initialize_leader_replication_state (?v\<lparr>role := Leader, leader_id := Some (node_id ?v),
        pending_request_vote_actions := []\<rparr>)"
    have "core_ok ?w"
      using ok sel one True by (intro initialize_leader_ok) simp_all
    moreover have "role ?w = Leader" by (simp add: initialize_leader_replication_state_def Let_def)
    ultimately have "become_leader ?v = (Inr (), ?w\<lparr>pending_append_entries_actions := heartbeat_actions ?w\<rparr>)"
      unfolding become_leader_def by (intro queue_heartbeat_actions_eq core_ok_length core_ok_replication)
    with run one True sel show ?thesis
      by (simp add: initialize_leader_replication_state_def Let_def persistent_part_def)
  next
    case False
    with run one sel v show ?thesis by (simp add: persistent_part_def)
  qed
qed

theorem start_election_result_witness:
  "\<exists>t. start_election sample_lib sample_follower = (Inr (), t) \<and> current_term t = 3 \<and> role t = Candidate \<and>
     map rv_target (pending_request_vote_actions t) = [''b'', ''c'']"
  using start_election_result [OF sample_follower_ok, of sample_lib]
  by (auto simp: cluster_size_def sample_members_def comp_def)

text \<open>
  C27: Terms are 64-bit counters and the increment is not checked: in the last term a new election
  takes the node back to term 0, so the term of a node can decrease.
\<close>

theorem election_wraps_the_term:
  assumes "core_ok s" and "working s" and "current_term s = - 1"
  shows "current_term (final (start_election lib s)) = 0"
proof -
  have keep: "current_term (final (campaign u)) = current_term u" if "role u = Candidate" for u :: "'a raft_core"
  proof -
    have p: "current_term (final (push_append_entries_actions ms w)) = current_term w" for ms and w :: "'a raft_core"
      by (induction ms w rule: push_append_entries_actions.induct) (auto split: sum.split)
    show ?thesis
      using that by (simp add: campaign_eq Let_def become_leader_def queue_heartbeat_actions_def p
          initialize_leader_replication_state_def)
  qed
  let ?u = "reset_election_deadline lib (candidacy s)"
  obtain r d where d: "persist_state ?u = (r, ?u\<lparr>disk := d\<rparr>)"
    using persist_state_disk [of ?u] by (metis prod.collapse)
  show ?thesis
    unfolding start_election_eq bind_op_def d
    using assms(3) keep [of "?u\<lparr>disk := d\<rparr>"] by (auto simp: candidacy_def split: sum.split)
qed

theorem election_wraps_the_term_witness:
  "current_term (final (start_election sample_lib (sample_follower\<lparr>current_term := - 1\<rparr>))) = 0"
proof -
  have "core_ok (sample_follower\<lparr>current_term := - 1\<rparr>)"
    using sample_follower_ok(1) valid_log_mono [OF sample_log_ok(1), of "- 1"]
    by (auto simp: core_ok_defs)
  then show ?thesis by (intro election_wraps_the_term) simp_all
qed

text \<open>
  C17: A candidate becomes the leader with the vote that completes a majority of distinct members,
  not before, and a vote counts once however often it arrives; answers of another term, refusals
  and votes for a node that is no candidate any more never make a leader.
\<close>

theorem candidate_wins_with_a_majority:
  assumes "core_ok s" and "role s \<noteq> Leader"
  shows "role (final (receive_vote m response s)) = Leader \<longleftrightarrow>
    m \<in> set (cluster_members s) \<and> rvr_term response = current_term s \<and> role s = Candidate \<and>
    vote_granted response \<and> cluster_size s div 2 < card (insert m (votes_received s))"
proof -
  let ?s1 = "s\<lparr>votes_received := insert m (votes_received s)\<rparr>"
  have p: "role (final (push_append_entries_actions ms w)) = role w" for ms and w :: "'a raft_core"
    by (induction ms w rule: push_append_entries_actions.induct) (auto split: sum.split)
  have "role (final (become_leader ?s1)) = Leader"
    by (simp add: become_leader_def queue_heartbeat_actions_def p initialize_leader_replication_state_def Let_def)
  moreover have "role (final (become_follower (rvr_term response) s)) \<noteq> Leader"
    using assms(2) persist_state_disk [of "demoted (rvr_term response) s"]
    by (auto simp: become_follower_def demoted_def)
  ultimately show ?thesis
    using assms by (auto simp: receive_vote_def Let_def vote_count_def majority_size_def cluster_size_def)
qed

theorem candidate_wins_with_a_majority_witness:
  "\<exists>s :: u64 raft_core. role s = Candidate \<and> role (final (receive_vote ''c'' \<lparr>rvr_term = 3, vote_granted = True\<rparr> s)) = Leader"
proof -
  let ?s = "candidacy sample_follower"
  have c: "core_ok ?s" by (rule core_ok_candidacy) simp_all
  have sel: "role ?s = Candidate" "cluster_members ?s = sample_members" "current_term ?s = 3"
      "votes_received ?s = {''a''}" by (simp_all add: candidacy_def)
  have "role (final (receive_vote ''c'' \<lparr>rvr_term = 3, vote_granted = True\<rparr> ?s)) = Leader"
    using candidate_wins_with_a_majority [OF c] sel by (simp add: cluster_size_def sample_members_def)
  with sel(1) show ?thesis by blast
qed

section \<open>Replication\<close>

text \<open>
  The queue of a leader holds exactly one request per other member, in the order of the
  member set, and each continues the leader's log: it carries the leader's term, identity and
  commit index, and all entries after the position it names, with the term of the entry there.
\<close>

theorem heartbeats_continue_the_log:
  assumes "core_ok s" and "role s = Leader"
  shows "\<exists>t. queue_heartbeat_actions s = (Inr (), t) \<and>
    map ae_target (pending_append_entries_actions t) = filter (\<lambda>m. m \<noteq> node_id s) (cluster_members s) \<and>
    (\<forall>r \<in> ae_request ` set (pending_append_entries_actions t).
       ae_term r = current_term s \<and> ae_leader_id r = node_id s \<and> leader_commit r = commit_index s \<and>
       take (unat (prev_log_index r)) (log_entries s) @ entries r = log_entries s \<and>
       prev_log_term r = term_at (log_entries s) (unat (prev_log_index r)))"
proof -
  let ?t = "s\<lparr>pending_append_entries_actions := heartbeat_actions s\<rparr>"
  have "queue_heartbeat_actions s = (Inr (), ?t)"
    using assms by (intro queue_heartbeat_actions_eq core_ok_length core_ok_replication)
  moreover have "take (unat (prev_log_index r)) (log_entries s) @ entries r = log_entries s \<and>
      prev_log_term r = term_at (log_entries s) (unat (prev_log_index r))"
    if m: "m \<in> set (others s)" and r: "r = replication_request s (next_of s m)" for m r
  proof -
    have "next_of s m \<le> Suc (length (log_entries s))"
      using core_ok_replication [OF assms] m by (simp add: replication_ok_def)
    then have "unat (of_nat (next_of s m - 1) :: u64) = next_of s m - 1"
      using core_ok_length [OF assms(1)] by (intro unat_length) simp
    then show ?thesis by (simp add: r replication_request_def)
  qed
  ultimately show ?thesis
    by (auto simp: heartbeat_actions_def others_def comp_def replication_request_def)
qed

theorem heartbeats_continue_the_log_witness:
  "\<exists>t. queue_heartbeat_actions sample_leader = (Inr (), t) \<and>
     map ae_target (pending_append_entries_actions t) = [''b'', ''c'']"
  using heartbeats_continue_the_log [OF sample_leader_ok(1)]
  by (auto simp: sample_members_def)

text \<open>
  C16: The comparison loop of a follower computes a merge: the entries the log already has, by
  term, stay; from the first disagreement on the incoming entries replace the rest of the log;
  only a disagreement at a committed index makes it refuse; and a log that agrees with all
  incoming entries is kept whole, so that a delayed request never shortens it.
\<close>

theorem reconcile_is_merge:
  assumes "unat prev + length inc \<le> log_max_size" and "unat prev \<le> length es"
  shows "map_option (\<lambda>(kept, rest). kept @ rest) (reconcile commit prev es 0 inc) =
    (let k = agreement (drop (unat prev) es) inc in
     if k = length inc then Some es
     else if unat prev + k < length es \<and> unat prev + k < unat commit then None
     else Some (take (unat prev + k) es @ drop k inc))"
proof -
  define k where "k = agreement (drop (unat prev) es) inc"
  have "k \<le> length inc" and "k \<le> length es - unat prev"
    using agreement_le [of "drop (unat prev) es" inc] by (simp_all add: k_def)
  moreover have "reconcile commit prev es 0 inc =
     (if k < length inc \<and> unat prev + k < length es then
        (if unat prev + k < unat commit then None else Some (take (unat prev + k) es, drop k inc))
      else Some (es, drop k inc))"
    using reconcile_agreement [of prev inc 0 es commit] assms by (simp add: k_def)
  ultimately show ?thesis by (auto simp: Let_def k_def [symmetric])
qed

theorem reconcile_is_merge_witness:
  "map_option (\<lambda>(kept, rest). kept @ rest) (reconcile 1 1 sample_log 0 [\<lparr>entry_term = 3, command = ''SET z 3''\<rparr>]) =
     Some [\<lparr>entry_term = 1, command = ''SET x 1''\<rparr>, \<lparr>entry_term = 3, command = ''SET z 3''\<rparr>]"
proof -
  have "map_option (\<lambda>(kept, rest). kept @ rest) (reconcile 1 1 sample_log 0 [\<lparr>entry_term = 3, command = ''SET z 3''\<rparr>]) =
    (let k = agreement (drop (unat (1 :: u64)) sample_log) [\<lparr>entry_term = 3, command = ''SET z 3''\<rparr>] in
     if k = length [\<lparr>entry_term = 3, command = ''SET z 3''\<rparr>] then Some sample_log
     else if unat (1 :: u64) + k < length sample_log \<and> unat (1 :: u64) + k < unat (1 :: u64) then None
     else Some (take (unat (1 :: u64) + k) sample_log @ drop k [\<lparr>entry_term = 3, command = ''SET z 3''\<rparr>]))"
    by (rule reconcile_is_merge) (simp_all add: log_max_size_def)
  then show ?thesis by (simp add: sample_log_def)
qed

text \<open>
  C11: A follower that answers success holds, from then on, the leader's log up to the index it
  confirms: the position before the entries matched, every entry of the request is in its log
  with the term it was sent with, its committed entries are untouched, its commit index is the
  old one or the leader's, cut at the confirmed index, and it has joined the leader's term.
\<close>

theorem append_success_means_agreement:
  assumes "core_ok s" and "working s" and "commands_ok (log_entries s)" and "commands_ok (entries request)"
    and "length (log_entries s) + length (entries request) \<le> log_max_size"
    and "handle_append_entries lib request s = (Inr response, t)" and "success response"
  defines "p \<equiv> unat (prev_log_index request)"
  shows "term_at (log_entries t) p = prev_log_term request \<and>
    unat (matched_index response) = p + length (entries request) \<and>
    p + length (entries request) \<le> length (log_entries t) \<and>
    map entry_term (take (length (entries request)) (drop p (log_entries t))) = map entry_term (entries request) \<and>
    take (unat (commit_index s)) (log_entries t) = take (unat (commit_index s)) (log_entries s) \<and>
    commit_index t = max (commit_index s) (min (leader_commit request) (matched_index response)) \<and>
    current_term t = ae_term request \<and> role t = Follower \<and> leader_id t = Some (ae_leader_id request)"
proof -
  have l: "ae_leader_id request \<in> set (cluster_members s)" and t: "current_term s \<le> ae_term request"
    and es: "\<exists>es. reconciled_log request s = Some es \<and> t = appended lib request es s \<and>
      response = \<lparr>aer_term = ae_term request, success = True,
        matched_index = prev_log_index request + of_nat (length (entries request))\<rparr>"
    using assms(6,7) handle_append_entries_working [OF assms(1,2,5,3,4), of lib]
    by (auto split: if_splits option.splits)
  then obtain es where es: "reconciled_log request s = Some es" and at: "t = appended lib request es s"
    and resp: "response = \<lparr>aer_term = ae_term request, success = True,
        matched_index = prev_log_index request + of_nat (length (entries request))\<rparr>" by blast
  obtain kept rest where k: "es = kept @ rest" and pl: "p \<le> length (log_entries s)"
    and pt: "term_at (log_entries s) p = prev_log_term request"
    and r: "reconcile (commit_index s) (prev_log_index request) (log_entries s) 0 (entries request) = Some (kept, rest)"
    using es unfolding p_def by (rule reconciled_log_SomeE)
  have b: "unat (prev_log_index request) + length (entries request) \<le> log_max_size"
    using pl assms(5) by (simp add: p_def)
  note pl' = pl [unfolded p_def]
  have ok: "core_ok (under_leader lib request s\<lparr>log_entries := es\<rparr>)"
    and len: "p + length (entries request) \<le> length es"
    using reconciled_log_ok(1) [OF assms(1) t l es assms(5), of lib]
      reconciled_log_ok(2) [OF assms(1) t l es assms(5)] by (simp_all add: p_def)
  let ?v = "under_leader lib request s\<lparr>log_entries := es\<rparr>"
  let ?c = "verified_commit request (commit_index s)"
  have m: "unat (matched_index response) = p + length (entries request)"
    using b by (simp add: resp p_def unat_add_small)
  have "commit_index ?v \<le> ?c" and "unat ?c \<le> length (log_entries ?v)"
    using commit_and_reply_working(2,3) [OF ok] assms(2) len reconciled_commands_ok [OF es assms(5,3,4)]
    by (simp_all add: p_def)
  note sel = committed_to_select [OF ok this]
  have T: "log_entries t = es" "commit_index t = ?c" "current_term t = ae_term request" "role t = Follower"
    "leader_id t = Some (ae_leader_id request)"
    using sel t by (simp_all add: at appended_def)
  have terms: "map entry_term (take (length (entries request)) (drop p es)) = map entry_term (entries request)"
    using reconcile_terms [OF b pl' r, folded k p_def] len by (intro nth_equalityI) simp_all
  have "take p es = take p (log_entries s)" using b pl' r
    by (cases rule: reconcile_log) (simp_all add: k p_def min_absorb1)
  then have "term_at es p = term_at (log_entries s) p" using term_at_take by (metis order_refl)
  moreover have "?c = max (commit_index s) (min (leader_commit request) (matched_index response))"
    by (simp add: verified_commit_def resp)
  moreover have "take (unat (commit_index s)) es = take (unat (commit_index s)) (log_entries s)"
    using reconcile_keeps_committed(1) [OF b pl' r core_ok_commit [OF assms(1)]] k by simp
  ultimately show ?thesis using T m len terms pt by simp
qed

definition sample_append_request :: append_entries_request where
  "sample_append_request = \<lparr>ae_term = 3, ae_leader_id = ''b'', prev_log_index = 1, prev_log_term = 1,
     entries = [\<lparr>entry_term = 3, command = ''SET z 3''\<rparr>], leader_commit = 1\<rparr>"

lemma sample_append_ok: "commands_ok (entries sample_append_request)"
  using well_formed_set [of "''z''" "''3''"]
  by (simp add: sample_append_request_def commands_ok_def valid_key_def)

lemma sample_append_returns:
  "\<exists>t. handle_append_entries sample_lib sample_append_request sample_follower =
    (Inr \<lparr>aer_term = 3, success = True, matched_index = 2\<rparr>, t)"
proof -
  have "reconcile 0 1 sample_log 0 (entries sample_append_request) =
      Some (take 1 sample_log, entries sample_append_request)"
    using reconcile_agreement [of 1 "entries sample_append_request" 0 sample_log 0]
    by (simp add: sample_append_request_def sample_log_def log_max_size_def)
  then have "reconciled_log sample_append_request sample_follower =
      Some (take 1 sample_log @ entries sample_append_request)"
    by (simp add: reconciled_log_def) (simp add: sample_append_request_def sample_log_def term_at_def)
  then show ?thesis
    using handle_append_entries_working [OF sample_follower_ok, of sample_append_request sample_lib] sample_append_ok
    by (simp add: sample_append_request_def sample_members_def log_max_size_def)
qed

theorem append_success_means_agreement_witness:
  "\<exists>t. handle_append_entries sample_lib sample_append_request sample_follower =
      (Inr \<lparr>aer_term = 3, success = True, matched_index = 2\<rparr>, t) \<and>
    map entry_term (take 1 (drop 1 (log_entries t))) = [3] \<and> commit_index t = 1"
proof -
  obtain t where t: "handle_append_entries sample_lib sample_append_request sample_follower =
      (Inr \<lparr>aer_term = 3, success = True, matched_index = 2\<rparr>, t)"
    using sample_append_returns by blast
  have "length (log_entries sample_follower) + length (entries sample_append_request) \<le> log_max_size"
    by (simp add: sample_append_request_def log_max_size_def)
  with append_success_means_agreement [OF sample_follower_ok _ sample_append_ok _ t] t show ?thesis
    by (simp add: sample_append_request_def)
qed

text \<open>
  C13: The leader commits the highest index of its own term that a majority, itself included, is
  known to hold, and applies everything up to it; when there is none above its commit index it
  changes nothing.  Entries of earlier terms are never counted, only committed along.
\<close>

theorem leader_commits_highest_majority_index:
  assumes "core_ok s" and "working s" and "commands_ok (log_entries s)" and "role s = Leader"
  defines "eligible \<equiv> {i. unat (commit_index s) < i \<and> i \<le> length (log_entries s) \<and>
    entry_term (log_entries s ! (i - 1)) = current_term s \<and>
    cluster_size s div 2 < Suc (card {m \<in> set (others s). i \<le> unat (the (match_index s m))})}"
  shows "\<exists>t. advance_commit_index s = (Inr (), t) \<and> log_entries t = log_entries s \<and>
    (if eligible = {} then t = s
     else unat (commit_index t) = Max eligible \<and> last_applied t = commit_index t \<and> synced t)"
proof -
  have el: "eligible = {i. committable s i}"
  proof -
    have "match_of s m = unat (the (match_index s m))" if "m \<in> set (others s)" for m
      using replication_okE [OF core_ok_replication [OF assms(1,4)] that] by (metis option.sel)
    then have "{m \<in> set (others s). i \<le> unat (the (match_index s m))} = {m \<in> set (others s). i \<le> match_of s m}" for i
      by auto
    moreover have "card (replicas s i) = Suc (card {m \<in> set (others s). i \<le> match_of s m})" for i
      by (simp add: replicas_def others_def)
    ultimately show ?thesis
      by (auto simp: eligible_def committable_def term_at_def majority_size_def)
  qed
  have fin: "finite eligible" by (rule finite_subset [of _ "{..length (log_entries s)}"]) (auto simp: eligible_def)
  from assms(1-4) show ?thesis
  proof (cases rule: advance_commit_index_working)
    case none
    then show ?thesis by (simp add: el)
  next
    case (found i)
    have "commit_index s \<le> i" using found(3) by simp
    note sel = committed_to_select [OF assms(1) this found(4)]
    have "unat i \<in> eligible" and "\<forall>k \<in> eligible. k \<le> unat i"
      using found(2) by (auto simp: el highest_committable_def not_less [symmetric])
    then have "Max eligible = unat i" and "eligible \<noteq> {}"
      using fin by (auto intro: Max_eqI)
    moreover have "last_applied (committed_to i s) = i"
      using apply_committed_entries_working(2) [OF core_ok_commit_index [OF assms(1) \<open>commit_index s \<le> i\<close> found(4)]]
        commands_ok_take [OF assms(3)] found(3) by (auto simp: committed_to_def)
    ultimately show ?thesis using found(1) sel assms(2) by simp
  qed
qed

theorem leader_commits_highest_majority_index_witness:
  "\<exists>t. advance_commit_index sample_leader = (Inr (), t) \<and> unat (commit_index t) = 2 \<and> last_applied t = commit_index t"
proof -
  let ?E = "{i. unat (commit_index sample_leader) < i \<and> i \<le> length (log_entries sample_leader) \<and>
    entry_term (log_entries sample_leader ! (i - 1)) = current_term sample_leader \<and>
    cluster_size sample_leader div 2 < Suc (card {m \<in> set (others sample_leader). i \<le> unat (the (match_index sample_leader m))})}"
  have b: "{m \<in> set (others sample_leader). 2 \<le> unat (the (match_index sample_leader m))} = {''b''}"
    by auto
  have "2 \<in> ?E"
    by (simp only: mem_Collect_eq b) (simp add: sample_log_def cluster_size_def sample_members_def)
  moreover have "i = 2" if "i \<in> ?E" for i
  proof -
    have "i = 1 \<or> i = 2" using that by auto
    moreover have "entry_term (sample_log ! (1 - 1)) \<noteq> 2" by (simp add: sample_log_def)
    ultimately show ?thesis using that by auto
  qed
  ultimately have "?E = {2}" by blast
  then show ?thesis
    using leader_commits_highest_majority_index [OF sample_leader_ok] by auto
qed

section \<open>Client commands and time\<close>

text \<open>
  C18: A client command is refused without any effect by a node that is not the leader, with a
  logic error, and when it is empty, with an invalid argument; the leader appends it as one
  entry of its term at the end of its log, saves, queues the replication of the new log, and
  returns the index of the entry.
\<close>

theorem append_command_result:
  assumes "core_ok s" and "working s" and "length (log_entries s) < log_max_size"
    and "commands_ok (log_entries s @ [\<lparr>entry_term = current_term s, command = cmd\<rparr>])"
  shows "if role s \<noteq> Leader then \<exists>m. append_command cmd s = (Inl (LogicError m), s)
    else if cmd = [] then \<exists>m. append_command cmd s = (Inl (InvalidArgument m), s)
    else \<exists>i t. append_command cmd s = (Inr i, t) \<and> unat i = Suc (length (log_entries s)) \<and>
      log_entries t = log_entries s @ [\<lparr>entry_term = current_term s, command = cmd\<rparr>] \<and>
      role t = Leader \<and> current_term t = current_term s \<and> commit_index s \<le> commit_index t \<and>
      pending_append_entries_actions t = heartbeat_actions t \<and> synced t"
proof (cases "role s = Leader \<and> cmd \<noteq> []")
  case False
  then show ?thesis by (auto simp: append_command_def)
next
  case True
  then have l: "role s = Leader" and ne: "cmd \<noteq> []" by simp_all
  let ?s1 = "s\<lparr>log_entries := log_entries s @ [\<lparr>entry_term = current_term s, command = cmd\<rparr>]\<rparr>"
  show ?thesis
  proof (rule append_command_working [OF assms(1,2) l ne assms(3,4)])
    fix c
    let ?u = "committed_to c ?s1"
    assume a: "append_command cmd s = (Inr (of_nat (Suc (length (log_entries s)))),
        saved ?u\<lparr>pending_append_entries_actions := heartbeat_actions ?u\<rparr>)"
      and c: "commit_index s \<le> c" "unat c \<le> Suc (length (log_entries s))"
    have "core_ok ?s1" by (rule core_ok_append [OF assms(1) l ne assms(3)])
    then have sel: "log_entries ?u = log_entries ?s1" "role ?u = Leader" "current_term ?u = current_term s"
      "commit_index ?u = c" "working ?u"
      using committed_to_select [of ?s1 c] c l assms(2) by simp_all
    have h: "heartbeat_actions (u\<lparr>pending_append_entries_actions := x\<rparr>) = heartbeat_actions u" for u :: "'a raft_core" and x
      by simp
    have "unat (of_nat (Suc (length (log_entries s))) :: u64) = Suc (length (log_entries s))"
      using assms(3) by (intro unat_length) simp
    then show ?thesis using True a sel c h by (simp del: of_nat_Suc)
  qed
qed

theorem append_command_result_witness:
  "\<exists>i t. append_command ''SET z 3'' sample_leader = (Inr i, t) \<and> unat i = 3 \<and>
     log_entries t = sample_log @ [\<lparr>entry_term = 2, command = ''SET z 3''\<rparr>]"
proof -
  have "commands_ok (log_entries sample_leader @ [\<lparr>entry_term = current_term sample_leader, command = ''SET z 3''\<rparr>])"
    using well_formed_set [of "''z''" "''3''"] by (simp add: commands_ok_def [of "[e]" for e] valid_key_def)
  with append_command_result [OF sample_leader_ok, of "''SET z 3''"] show ?thesis
    by (auto simp: log_max_size_def)
qed

text \<open>
  C26: The randomised election timeout: after a reset of the deadline, a node that is not the
  leader waits at least the minimum timeout and at most the maximum before it starts an
  election, as long as its clock does not overflow.
\<close>

theorem election_timeout_in_range:
  assumes "draws_in_range lib" and "min_election_timeout_ms s \<le> max_election_timeout_ms s"
    and "unat (current_time_ms s) + unat (max_election_timeout_ms s) < 2 ^ 64"
    and "unat (current_time_ms s) + unat ms < 2 ^ 64" and "role s \<noteq> Leader"
  shows "(\<not> ms < min_election_timeout_ms s \<or> fst (tick lib ms (reset_election_deadline lib s)) = Inr False) \<and>
    (\<not> max_election_timeout_ms s \<le> ms \<or> fst (tick lib ms (reset_election_deadline lib s)) \<noteq> Inr False)"
proof -
  let ?t = "reset_election_deadline lib s"
  obtain d g where d: "draw_uniform lib (min_election_timeout_ms s) (max_election_timeout_ms s) (random_engine s) = (d, g)"
    by (cases "draw_uniform lib (min_election_timeout_ms s) (max_election_timeout_ms s) (random_engine s)")
  have r: "min_election_timeout_ms s \<le> d" "d \<le> max_election_timeout_ms s"
    using assms(1,2) d unfolding draws_in_range_def by (metis fst_conv)+
  have "unat (current_time_ms s) + unat d < 2 ^ 64"
    using assms(3) r(2) by (simp add: word_le_nat_alt)
  then have u: "unat (current_time_ms s + d) = unat (current_time_ms s) + unat d"
    "unat (current_time_ms s + ms) = unat (current_time_ms s) + unat ms"
    using assms(4) by (simp_all add: unat_add_lem [THEN iffD1])
  have "election_timeout_expired (advance_time ms ?t) \<longleftrightarrow> d \<le> ms"
    using assms(5) u by (auto simp: election_timeout_expired_def advance_time_def reset_election_deadline_def d
        word_le_nat_alt)
  moreover have "fst (bind_op (start_election lib) (\<lambda>_. return_op True) u) \<noteq> Inr False" for u
    by (auto simp: bind_op_def split: prod.splits sum.splits)
  ultimately show ?thesis
    using r by (auto simp: tick_def Let_def)
qed

theorem election_timeout_in_range_witness:
  "fst (tick sample_lib 149 (reset_election_deadline sample_lib sample_follower)) = Inr False \<and>
   fst (tick sample_lib 300 (reset_election_deadline sample_lib sample_follower)) \<noteq> Inr False"
  using election_timeout_in_range [of sample_lib sample_follower 149]
    election_timeout_in_range [of sample_lib sample_follower 300]
  by (simp add: word_less_nat_alt)

end
