(* ===== verification/Rpc_Conversion.thy ===== *)
theory Rpc_Conversion
  imports Raft_Messages
begin

text \<open>
  \<^verbatim>\<open>src/src/rpc_conversion.cpp\<close> and the messages of \<^verbatim>\<open>src/proto/raft.proto\<close> that it converts.  A
  Protocol Buffer message is a record of its fields; a new one has every field at its default,
  and the \<^verbatim>\<open>set_\<close> and \<^verbatim>\<open>add_\<close> functions are field updates.  The interface the callers rely on is
  that conversion to a message and back is the identity.
\<close>

section \<open>Messages on the wire\<close>

record rpc_log_entry =
  re_term :: u64
  re_command :: string

record rpc_request_vote_request =
  rvq_term :: u64
  rvq_candidate_id :: string
  rvq_last_log_index :: u64
  rvq_last_log_term :: u64

record rpc_request_vote_response =
  rvp_term :: u64
  rvp_vote_granted :: bool

record rpc_append_entries_request =
  aeq_term :: u64
  aeq_leader_id :: string
  aeq_prev_log_index :: u64
  aeq_prev_log_term :: u64
  aeq_entries :: "rpc_log_entry list"
  aeq_leader_commit :: u64

record rpc_append_entries_response =
  aep_term :: u64
  aep_success :: bool
  aep_matched_index :: u64

text \<open>The default instances.\<close>

definition new_rpc_log_entry :: rpc_log_entry where
  "new_rpc_log_entry = \<lparr>re_term = 0, re_command = []\<rparr>"

definition new_rpc_request_vote_request :: rpc_request_vote_request where
  "new_rpc_request_vote_request =
     \<lparr>rvq_term = 0, rvq_candidate_id = [], rvq_last_log_index = 0, rvq_last_log_term = 0\<rparr>"

definition new_rpc_request_vote_response :: rpc_request_vote_response where
  "new_rpc_request_vote_response = \<lparr>rvp_term = 0, rvp_vote_granted = False\<rparr>"

definition new_rpc_append_entries_request :: rpc_append_entries_request where
  "new_rpc_append_entries_request =
     \<lparr>aeq_term = 0, aeq_leader_id = [], aeq_prev_log_index = 0, aeq_prev_log_term = 0,
      aeq_entries = [], aeq_leader_commit = 0\<rparr>"

definition new_rpc_append_entries_response :: rpc_append_entries_response where
  "new_rpc_append_entries_response = \<lparr>aep_term = 0, aep_success = False, aep_matched_index = 0\<rparr>"

section \<open>Conversion\<close>

definition request_vote_request_to_rpc :: "request_vote_request \<Rightarrow> rpc_request_vote_request" where
  "request_vote_request_to_rpc request = new_rpc_request_vote_request\<lparr>
     rvq_term := rv_term request,
     rvq_candidate_id := candidate_id request,
     rvq_last_log_index := rv_last_log_index request,
     rvq_last_log_term := rv_last_log_term request\<rparr>"

definition request_vote_request_from_rpc :: "rpc_request_vote_request \<Rightarrow> request_vote_request" where
  "request_vote_request_from_rpc request =
     \<lparr>rv_term = rvq_term request, candidate_id = rvq_candidate_id request,
      rv_last_log_index = rvq_last_log_index request, rv_last_log_term = rvq_last_log_term request\<rparr>"

definition request_vote_response_to_rpc :: "request_vote_response \<Rightarrow> rpc_request_vote_response" where
  "request_vote_response_to_rpc response = new_rpc_request_vote_response\<lparr>
     rvp_term := rvr_term response,
     rvp_vote_granted := vote_granted response\<rparr>"

definition request_vote_response_from_rpc :: "rpc_request_vote_response \<Rightarrow> request_vote_response" where
  "request_vote_response_from_rpc response =
     \<lparr>rvr_term = rvp_term response, vote_granted = rvp_vote_granted response\<rparr>"

text \<open>The loop that adds the entries one by one.\<close>

fun add_rpc_entries :: "log_entry list \<Rightarrow> rpc_append_entries_request \<Rightarrow> rpc_append_entries_request" where
  "add_rpc_entries [] result = result"
| "add_rpc_entries (e # es) result =
     (let rpc_entry = new_rpc_log_entry\<lparr>re_term := entry_term e, re_command := command e\<rparr>
      in add_rpc_entries es (result\<lparr>aeq_entries := aeq_entries result @ [rpc_entry]\<rparr>))"

definition append_entries_request_to_rpc :: "append_entries_request \<Rightarrow> rpc_append_entries_request" where
  "append_entries_request_to_rpc request =
     add_rpc_entries (entries request) (new_rpc_append_entries_request\<lparr>
       aeq_term := ae_term request,
       aeq_leader_id := ae_leader_id request,
       aeq_prev_log_index := prev_log_index request,
       aeq_prev_log_term := prev_log_term request,
       aeq_leader_commit := leader_commit request\<rparr>)"

fun push_entries :: "rpc_log_entry list \<Rightarrow> append_entries_request \<Rightarrow> append_entries_request" where
  "push_entries [] result = result"
| "push_entries (e # es) result =
     push_entries es (result\<lparr>entries := entries result @ [\<lparr>entry_term = re_term e, command = re_command e\<rparr>]\<rparr>)"

definition append_entries_request_from_rpc :: "rpc_append_entries_request \<Rightarrow> append_entries_request" where
  "append_entries_request_from_rpc request =
     push_entries (aeq_entries request)
       \<lparr>ae_term = aeq_term request, ae_leader_id = aeq_leader_id request,
        prev_log_index = aeq_prev_log_index request, prev_log_term = aeq_prev_log_term request,
        entries = [], leader_commit = aeq_leader_commit request\<rparr>"

definition append_entries_response_to_rpc :: "append_entries_response \<Rightarrow> rpc_append_entries_response" where
  "append_entries_response_to_rpc response = new_rpc_append_entries_response\<lparr>
     aep_term := aer_term response,
     aep_success := success response,
     aep_matched_index := matched_index response\<rparr>"

definition append_entries_response_from_rpc :: "rpc_append_entries_response \<Rightarrow> append_entries_response" where
  "append_entries_response_from_rpc response =
     \<lparr>aer_term = aep_term response, success = aep_success response,
      matched_index = aep_matched_index response\<rparr>"

section \<open>The interface\<close>

text \<open>
  A codec between the structs of the core and the messages.  Both directions are lossless, so
  that neither side can tell whether a value has crossed the wire.
\<close>

locale codec =
  fixes encode :: "'a \<Rightarrow> 'w" and decode :: "'w \<Rightarrow> 'a"
  assumes decode_encode: "decode (encode a) = a"
    and encode_decode: "encode (decode w) = w"
begin

lemma encode_inject: "encode a = encode b \<longleftrightarrow> a = b"
  by (metis decode_encode)

lemma decode_inject: "decode v = decode w \<longleftrightarrow> v = w"
  by (metis encode_decode)

lemma bij_encode: "bij encode"
  by (metis bij_def decode_encode encode_decode injI surjI)

end

text \<open>
  A remote procedure: requests and responses cross by a codec each.  The client side encodes,
  the server side decodes, handles and encodes, the client decodes; together they are a call of
  the handler.
\<close>

locale remote_procedure =
  request: codec encode_request decode_request + response: codec encode_response decode_response
  for encode_request :: "'q \<Rightarrow> 'v" and decode_request :: "'v \<Rightarrow> 'q"
    and encode_response :: "'p \<Rightarrow> 'w" and decode_response :: "'w \<Rightarrow> 'p"
begin

lemma transparent:
  "decode_response (encode_response (handler (decode_request (encode_request q)))) = handler q"
  by (simp add: request.decode_encode response.decode_encode)

end

lemma add_rpc_entries_eq:
  "add_rpc_entries es r = r\<lparr>aeq_entries := aeq_entries r @
     map (\<lambda>e. \<lparr>re_term = entry_term e, re_command = command e\<rparr>) es\<rparr>"
  by (induction es r rule: add_rpc_entries.induct) (simp_all add: Let_def new_rpc_log_entry_def)

lemma push_entries_eq:
  "push_entries es r = r\<lparr>entries := entries r @
     map (\<lambda>e. \<lparr>entry_term = re_term e, command = re_command e\<rparr>) es\<rparr>"
  by (induction es r rule: push_entries.induct) simp_all

interpretation vote_rpc: remote_procedure
  request_vote_request_to_rpc request_vote_request_from_rpc
  request_vote_response_to_rpc request_vote_response_from_rpc
  by unfold_locales
     (simp_all add: request_vote_request_to_rpc_def request_vote_request_from_rpc_def
        new_rpc_request_vote_request_def request_vote_response_to_rpc_def
        request_vote_response_from_rpc_def new_rpc_request_vote_response_def)

interpretation append_rpc: remote_procedure
  append_entries_request_to_rpc append_entries_request_from_rpc
  append_entries_response_to_rpc append_entries_response_from_rpc
  by unfold_locales
     (simp_all add: append_entries_request_to_rpc_def append_entries_request_from_rpc_def
        new_rpc_append_entries_request_def append_entries_response_to_rpc_def
        append_entries_response_from_rpc_def new_rpc_append_entries_response_def
        add_rpc_entries_eq push_entries_eq comp_def map_idI)

section \<open>Properties\<close>

text \<open>
  C36: Every request and response of the two Raft procedures, with any number of entries, survives
  the wire: converting to a message and back gives the same struct, and every message is the
  image of exactly one struct.
\<close>

theorem rpc_conversion_roundtrip:
  "request_vote_request_from_rpc (request_vote_request_to_rpc q) = q \<and>
   request_vote_request_to_rpc (request_vote_request_from_rpc w) = w \<and>
   request_vote_response_from_rpc (request_vote_response_to_rpc p) = p \<and>
   request_vote_response_to_rpc (request_vote_response_from_rpc x) = x \<and>
   append_entries_request_from_rpc (append_entries_request_to_rpc a) = a \<and>
   append_entries_request_to_rpc (append_entries_request_from_rpc y) = y \<and>
   append_entries_response_from_rpc (append_entries_response_to_rpc b) = b \<and>
   append_entries_response_to_rpc (append_entries_response_from_rpc z) = z"
  by (simp add: vote_rpc.request.decode_encode vote_rpc.request.encode_decode
      vote_rpc.response.decode_encode vote_rpc.response.encode_decode
      append_rpc.request.decode_encode append_rpc.request.encode_decode
      append_rpc.response.decode_encode append_rpc.response.encode_decode)

end
