(* ===== verification/Raft_Service.thy ===== *)
theory Raft_Service
  imports Raft_Properties Rpc_Conversion
begin

text \<open>
  \<^verbatim>\<open>src/src/raft_service.cpp\<close>: the class \<^verbatim>\<open>RaftServiceImpl\<close>.  Its only state besides the mutex is
  the reference to the core, so its member functions are operations on the core.  Each holds the
  mutex from its first line to its return, so that an operation here is one atomic step of the
  object, whatever the number of threads.  A handler of gRPC returns a status and fills in a
  response that starts out with default fields.
\<close>

section \<open>Status\<close>

text \<open>The codes of \<^verbatim>\<open>grpc::StatusCode\<close> that the program names, and one for all others.\<close>

datatype status_code = OK | INVALID_ARGUMENT | FAILED_PRECONDITION | DEADLINE_EXCEEDED | UNAVAILABLE | OTHER_CODE

record rpc_status =
  error_code :: status_code
  error_message :: string

definition status_OK :: rpc_status where
  "status_OK = \<lparr>error_code = OK, error_message = []\<rparr>"

definition status_ok :: "rpc_status \<Rightarrow> bool" where
  "status_ok s \<longleftrightarrow> error_code s = OK"

section \<open>Client messages\<close>

record rpc_set_request =
  set_key :: string
  set_value :: string

record rpc_set_response =
  set_log_index :: u64

record rpc_get_request =
  get_key :: string

record rpc_get_response =
  get_found :: bool
  get_value :: string

record rpc_delete_request =
  delete_key :: string

record rpc_delete_response =
  delete_log_index :: u64

record rpc_get_status_response =
  gs_node_id :: string
  gs_role :: string
  gs_current_term :: u64
  gs_leader_id :: string
  gs_commit_index :: u64
  gs_last_log_index :: u64

definition new_rpc_set_response :: rpc_set_response where
  "new_rpc_set_response = \<lparr>set_log_index = 0\<rparr>"

definition new_rpc_get_response :: rpc_get_response where
  "new_rpc_get_response = \<lparr>get_found = False, get_value = []\<rparr>"

definition new_rpc_delete_response :: rpc_delete_response where
  "new_rpc_delete_response = \<lparr>delete_log_index = 0\<rparr>"

definition new_rpc_get_status_response :: rpc_get_status_response where
  "new_rpc_get_status_response =
     \<lparr>gs_node_id = [], gs_role = [], gs_current_term = 0, gs_leader_id = [], gs_commit_index = 0,
      gs_last_log_index = 0\<rparr>"

section \<open>The operations the runtime uses\<close>

definition service_tick :: "'g std_lib \<Rightarrow> u64 \<Rightarrow> ('g raft_core, bool) op" where
  "service_tick lib elapsed_ms = tick lib elapsed_ms"

definition service_current_role :: "'g raft_core \<Rightarrow> node_role" where
  "service_current_role s = role s"

definition service_queue_heartbeats_if_leader :: "('g raft_core, unit) op" where
  "service_queue_heartbeats_if_leader s =
     (if role s = Leader then queue_heartbeat_actions s else (Inr (), s))"

definition service_take_request_vote_actions :: "'g raft_core \<Rightarrow> request_vote_action list \<times> 'g raft_core" where
  "service_take_request_vote_actions = take_request_vote_actions"

definition service_take_append_entries_actions :: "'g raft_core \<Rightarrow> append_entries_action list \<times> 'g raft_core" where
  "service_take_append_entries_actions = take_append_entries_actions"

definition service_receive_vote :: "string \<Rightarrow> request_vote_response \<Rightarrow> ('g raft_core, unit) op" where
  "service_receive_vote voter response = receive_vote voter response"

definition service_receive_append_entries_response ::
    "string \<Rightarrow> append_entries_response \<Rightarrow> ('g raft_core, unit) op" where
  "service_receive_append_entries_response follower response = receive_append_entries_response follower response"

section \<open>The handlers\<close>

definition service_request_vote ::
    "'g std_lib \<Rightarrow> rpc_request_vote_request \<Rightarrow> ('g raft_core, rpc_status \<times> rpc_request_vote_response) op" where
  "service_request_vote lib request =
     bind_op (handle_request_vote lib (request_vote_request_from_rpc request))
       (\<lambda>internal_response. return_op (status_OK, request_vote_response_to_rpc internal_response))"

definition service_append_entries ::
    "'g std_lib \<Rightarrow> rpc_append_entries_request \<Rightarrow> ('g raft_core, rpc_status \<times> rpc_append_entries_response) op" where
  "service_append_entries lib request =
     bind_op (handle_append_entries lib (append_entries_request_from_rpc request))
       (\<lambda>internal_response. return_op (status_OK, append_entries_response_to_rpc internal_response))"

text \<open>
  The \<^verbatim>\<open>try\<close> block of \<open>Set\<close> and \<open>Delete\<close>: the command is built and appended, and an
  \<^verbatim>\<open>invalid_argument\<close> of either becomes a status; other exceptions leave the handler.
\<close>

definition append_or_status ::
    "exc + string \<Rightarrow> (u64 \<Rightarrow> 'p) \<Rightarrow> 'p \<Rightarrow> ('g raft_core, rpc_status \<times> 'p) op" where
  "append_or_status cmd respond default_response s =
     (case (case cmd of Inl e \<Rightarrow> (Inl e, s) | Inr c \<Rightarrow> append_command c s) of
        (Inl (InvalidArgument m), t) \<Rightarrow>
          (Inr (\<lparr>error_code = INVALID_ARGUMENT, error_message = m\<rparr>, default_response), t)
      | (Inl e, t) \<Rightarrow> (Inl e, t)
      | (Inr log_index, t) \<Rightarrow> (Inr (status_OK, respond log_index), t))"

definition leader_only :: rpc_status where
  "leader_only = \<lparr>error_code = FAILED_PRECONDITION,
     error_message = ''Only the leader accepts client requests''\<rparr>"

definition service_set :: "rpc_set_request \<Rightarrow> ('g raft_core, rpc_status \<times> rpc_set_response) op" where
  "service_set request s =
     (if role s \<noteq> Leader then (Inr (leader_only, new_rpc_set_response), s)
      else append_or_status (make_set_command (set_key request) (set_value request))
             (\<lambda>log_index. new_rpc_set_response\<lparr>set_log_index := log_index\<rparr>) new_rpc_set_response s)"

definition service_get :: "rpc_get_request \<Rightarrow> 'g raft_core \<Rightarrow> rpc_status \<times> rpc_get_response" where
  "service_get request s =
     (if role s \<noteq> Leader then (leader_only, new_rpc_get_response)
      else (case kv_get (get_key request) (key_value_store s) of
              None \<Rightarrow> (status_OK, new_rpc_get_response\<lparr>get_found := False\<rparr>)
            | Some v \<Rightarrow> (status_OK, new_rpc_get_response\<lparr>get_found := True, get_value := v\<rparr>)))"

definition service_delete :: "rpc_delete_request \<Rightarrow> ('g raft_core, rpc_status \<times> rpc_delete_response) op" where
  "service_delete request s =
     (if role s \<noteq> Leader then (Inr (leader_only, new_rpc_delete_response), s)
      else append_or_status (make_delete_command (delete_key request))
             (\<lambda>log_index. new_rpc_delete_response\<lparr>delete_log_index := log_index\<rparr>) new_rpc_delete_response s)"

definition service_get_status :: "'g raft_core \<Rightarrow> rpc_status \<times> rpc_get_status_response" where
  "service_get_status s =
     (let r = new_rpc_get_status_response\<lparr>gs_node_id := node_id s, gs_role := role_to_string (role s),
            gs_current_term := current_term s\<rparr>;
          r = (case leader_id s of None \<Rightarrow> r | Some l \<Rightarrow> r\<lparr>gs_leader_id := l\<rparr>)
      in (status_OK, r\<lparr>gs_commit_index := commit_index s, gs_last_log_index := last_log_index s\<rparr>))"

section \<open>The service as calls of the core\<close>

text \<open>
  Every handler is one call of the core's public interface, or no call at all, with another
  result: this is what a thread that holds the mutex may do to the object.
\<close>

locale atomic_handler =
  fixes handler :: "'g std_lib \<Rightarrow> 'q \<Rightarrow> ('g raft_core, 'p) op" and as_call :: "'q \<Rightarrow> core_call"
  assumes atomic: "final (handler lib q s) = s \<or> final (handler lib q s) = final (call lib (as_call q) s)"
    and throws: "fst (handler lib q s) = Inl e \<Longrightarrow> fst (call lib (as_call q) s) = Inl e"
begin

lemma steps:
  assumes "within_bounds (as_call q) s"
  shows "(core_step lib)\<^sup>*\<^sup>* s (final (handler lib q s))"
  using atomic [of lib q s] core_step [OF assms, of lib] by (metis r_into_rtranclp rtranclp.rtrancl_refl)

lemma keeps:
  assumes "core_ok s" and "within_bounds (as_call q) s"
  shows "leaves (handler lib q s) (progress s)"
  using core_steps_progress [OF steps [OF assms(2)] assms(1)] call_leaves [OF assms]
    throws [of lib q s UndefinedBehaviour]
  by (auto simp: leaves_def)

end

text \<open>
  An outcome \<open>r\<close> of a handler on \<open>s\<close> that is the core's call \<open>c\<close> or no call: a step of the core, or none,
  after which the object is in order, nothing is undone and no vector was read out of its range.
\<close>

definition core_action :: "'g std_lib \<Rightarrow> core_call \<Rightarrow> 'g raft_core \<Rightarrow> (exc + 'p) \<times> 'g raft_core \<Rightarrow> bool" where
  "core_action lib c s r \<longleftrightarrow> final r \<in> {s, final (call lib c s)} \<and> (core_step lib)\<^sup>*\<^sup>* s (final r) \<and> leaves r (progress s)"

context atomic_handler
begin

lemma acts: "core_ok s \<Longrightarrow> within_bounds (as_call q) s \<Longrightarrow> core_action lib (as_call q) s (handler lib q s)"
  unfolding core_action_def using atomic [of lib q s] steps [of q s lib] keeps [of s q lib] by blast

end

lemma discard_fst_Inl: "fst r = Inl e \<Longrightarrow> fst (discard r) = Inl e"
  by (cases r) (auto simp: discard_def)

lemma bind_return_final: "final (bind_op m (\<lambda>a. return_op (f a)) s) = final (m s)"
  by (auto simp: bind_op_def split: prod.splits sum.splits)

lemma bind_return_throws: "fst (bind_op m (\<lambda>a. return_op (f a)) s) = Inl e \<Longrightarrow> fst (m s) = Inl e"
  by (auto simp: bind_op_def split: prod.splits sum.splits)

lemma append_or_status_final:
  "final (append_or_status cmd f p s) =
     (case cmd of Inl e \<Rightarrow> s | Inr c \<Rightarrow> final (append_command c s))"
  by (auto simp: append_or_status_def split: prod.splits sum.splits exc.splits)

lemma append_or_status_throws:
  "fst (append_or_status cmd f p s) = Inl e \<Longrightarrow>
     cmd = Inl e \<and> \<not> (\<exists>m. e = InvalidArgument m) \<or> (\<exists>c. cmd = Inr c \<and> fst (append_command c s) = Inl e)"
  by (auto simp: append_or_status_def split: prod.splits sum.splits exc.splits)

lemma make_set_command_cases:
  "make_set_command k v = (if valid_key k then Inr (''SET '' @ k @ '' '' @ v)
     else Inl (InvalidArgument (if k = [] then ''Key cannot be empty'' else ''Key cannot contain spaces'')))"
  by (simp add: make_set_command_def validate_key_cases)

lemma make_delete_command_cases:
  "make_delete_command k = (if valid_key k then Inr (''DELETE '' @ k)
     else Inl (InvalidArgument (if k = [] then ''Key cannot be empty'' else ''Key cannot contain spaces'')))"
  by (simp add: make_delete_command_def validate_key_cases)

interpretation vote_handler: atomic_handler service_request_vote
  "\<lambda>q. Handle_Request_Vote (request_vote_request_from_rpc q)"
  by unfold_locales
     (auto simp: service_request_vote_def bind_return_final dest!: bind_return_throws intro: discard_fst_Inl)

interpretation append_handler: atomic_handler service_append_entries
  "\<lambda>q. Handle_Append_Entries (append_entries_request_from_rpc q)"
  by unfold_locales
     (auto simp: service_append_entries_def bind_return_final dest!: bind_return_throws intro: discard_fst_Inl)

interpretation set_handler: atomic_handler "\<lambda>lib. service_set"
  "\<lambda>q. Append_Command (''SET '' @ set_key q @ '' '' @ set_value q)"
proof
  fix lib :: "'g std_lib" and q and s :: "'g raft_core" and e
  show "final (service_set q s) = s \<or>
      final (service_set q s) = final (call lib (Append_Command (''SET '' @ set_key q @ '' '' @ set_value q)) s)"
    by (auto simp: service_set_def append_or_status_final make_set_command_cases)
  assume "fst (service_set q s) = Inl e"
  then show "fst (call lib (Append_Command (''SET '' @ set_key q @ '' '' @ set_value q)) s) = Inl e"
    by (auto simp: service_set_def make_set_command_cases discard_fst_Inl dest!: append_or_status_throws split: if_splits)
qed

interpretation delete_handler: atomic_handler "\<lambda>lib. service_delete"
  "\<lambda>q. Append_Command (''DELETE '' @ delete_key q)"
proof
  fix lib :: "'g std_lib" and q and s :: "'g raft_core" and e
  show "final (service_delete q s) = s \<or>
      final (service_delete q s) = final (call lib (Append_Command (''DELETE '' @ delete_key q)) s)"
    by (auto simp: service_delete_def append_or_status_final make_delete_command_cases)
  assume "fst (service_delete q s) = Inl e"
  then show "fst (call lib (Append_Command (''DELETE '' @ delete_key q)) s) = Inl e"
    by (auto simp: service_delete_def make_delete_command_cases discard_fst_Inl dest!: append_or_status_throws split: if_splits)
qed

interpretation heartbeat_handler: atomic_handler "\<lambda>lib (q :: unit). service_queue_heartbeats_if_leader"
  "\<lambda>q. Queue_Heartbeat_Actions"
  by unfold_locales (auto simp: service_queue_heartbeats_if_leader_def split: if_splits)

interpretation tick_handler: atomic_handler service_tick Tick
  by unfold_locales (auto simp: service_tick_def discard_fst_Inl)

interpretation vote_answer_handler: atomic_handler "\<lambda>lib (m, r). service_receive_vote m r"
  "\<lambda>(m, r). Receive_Vote m r"
  by unfold_locales (auto simp: service_receive_vote_def discard_fst_Inl)

interpretation append_answer_handler: atomic_handler "\<lambda>lib (m, r). service_receive_append_entries_response m r"
  "\<lambda>(m, r). Receive_Append_Entries_Response m r"
  by unfold_locales (auto simp: service_receive_append_entries_response_def discard_fst_Inl)

text \<open>The two functions that hand out the queue do not throw.\<close>

definition returning :: "'a \<times> 's \<Rightarrow> (exc + 'a) \<times> 's" where
  "returning r = (Inr (fst r), snd r)"

interpretation take_votes_handler: atomic_handler "\<lambda>lib (q :: unit) s. returning (service_take_request_vote_actions s)"
  "\<lambda>q. Take_Request_Vote_Actions"
  by unfold_locales (auto simp: returning_def service_take_request_vote_actions_def split: prod.split)

interpretation take_appends_handler: atomic_handler "\<lambda>lib (q :: unit) s. returning (service_take_append_entries_actions s)"
  "\<lambda>q. Take_Append_Entries_Actions"
  by unfold_locales (auto simp: returning_def service_take_append_entries_actions_def split: prod.split)

lemma accepted_append:
  assumes "core_ok s" and "working s" and "role s = Leader" and ne: "cmd \<noteq> []"
    and room: "length (log_entries s) < log_max_size"
    and c: "commands_ok (log_entries s @ [\<lparr>entry_term = current_term s, command = cmd\<rparr>])"
  shows "\<exists>i t. append_command cmd s = (Inr i, t) \<and> unat i = Suc (length (log_entries s)) \<and>
    log_entries t = log_entries s @ [\<lparr>entry_term = current_term s, command = cmd\<rparr>]"
proof (rule append_command_working [OF assms(1-3) ne room c])
  fix c
  let ?s1 = "s\<lparr>log_entries := log_entries s @ [\<lparr>entry_term = current_term s, command = cmd\<rparr>]\<rparr>"
  assume a: "append_command cmd s = (Inr (of_nat (Suc (length (log_entries s)))),
      saved (committed_to c ?s1)\<lparr>pending_append_entries_actions := heartbeat_actions (committed_to c ?s1)\<rparr>)"
    and c: "commit_index s \<le> c" "unat c \<le> Suc (length (log_entries s))"
  have "core_ok ?s1" by (rule core_ok_append [OF assms(1,3) ne room])
  then have "log_entries (committed_to c ?s1) = log_entries ?s1"
    using committed_to_select(5) [of ?s1 c] c by simp
  moreover have "unat (of_nat (Suc (length (log_entries s))) :: u64) = Suc (length (log_entries s))"
    using room by (intro unat_length) simp
  ultimately show ?thesis using a by (simp del: of_nat_Suc)
qed

section \<open>Properties\<close>

text \<open>
  C33: The three outcomes of a client's write.  A node that is not the leader refuses with
  FAILED_PRECONDITION and is not changed; a leader refuses an empty key or one with a space with
  INVALID_ARGUMENT and is not changed; otherwise the answer is OK with the index of the new entry,
  the log ends with the command, and every command of the log stays one the store accepts.
\<close>

theorem client_write_outcomes:
  assumes "core_ok s" and "working s" and "commands_ok (log_entries s)"
    and "length (log_entries s) < log_max_size"
  shows "if role s \<noteq> Leader then
      (\<exists>m. service_set \<lparr>set_key = k, set_value = v\<rparr> s =
        (Inr (\<lparr>error_code = FAILED_PRECONDITION, error_message = m\<rparr>, new_rpc_set_response), s)) \<and>
      (\<exists>m. service_delete \<lparr>delete_key = k\<rparr> s =
        (Inr (\<lparr>error_code = FAILED_PRECONDITION, error_message = m\<rparr>, new_rpc_delete_response), s))
    else if k = [] \<or> CHR '' '' \<in> set k then
      (\<exists>m. service_set \<lparr>set_key = k, set_value = v\<rparr> s =
        (Inr (\<lparr>error_code = INVALID_ARGUMENT, error_message = m\<rparr>, new_rpc_set_response), s)) \<and>
      (\<exists>m. service_delete \<lparr>delete_key = k\<rparr> s =
        (Inr (\<lparr>error_code = INVALID_ARGUMENT, error_message = m\<rparr>, new_rpc_delete_response), s))
    else
      (\<exists>i t. service_set \<lparr>set_key = k, set_value = v\<rparr> s = (Inr (status_OK, \<lparr>set_log_index = i\<rparr>), t) \<and>
        unat i = Suc (length (log_entries s)) \<and> commands_ok (log_entries t) \<and>
        log_entries t = log_entries s @ [\<lparr>entry_term = current_term s, command = ''SET '' @ k @ '' '' @ v\<rparr>]) \<and>
      (\<exists>i t. service_delete \<lparr>delete_key = k\<rparr> s = (Inr (status_OK, \<lparr>delete_log_index = i\<rparr>), t) \<and>
        unat i = Suc (length (log_entries s)) \<and> commands_ok (log_entries t) \<and>
        log_entries t = log_entries s @ [\<lparr>entry_term = current_term s, command = ''DELETE '' @ k\<rparr>])"
proof (cases "role s = Leader \<and> valid_key k")
  case False
  then show ?thesis
    by (auto simp: service_set_def service_delete_def leader_only_def append_or_status_def
        make_set_command_cases make_delete_command_cases valid_key_def)
next
  case True
  let ?set = "''SET '' @ k @ '' '' @ v" and ?delete = "''DELETE '' @ k"
  have c: "commands_ok (log_entries s @ [\<lparr>entry_term = current_term s, command = ?set\<rparr>])"
    "commands_ok (log_entries s @ [\<lparr>entry_term = current_term s, command = ?delete\<rparr>])"
    using assms(3) True well_formed_set [of k v] well_formed_delete [of k]
    by (simp_all add: commands_ok_def [of "[e]" for e])
  have l: "role s = Leader" and ne: "?set \<noteq> []" "?delete \<noteq> []" using True by simp_all
  note run = accepted_append [OF assms(1,2) l _ assms(4)]
  have "k \<noteq> [] \<and> CHR '' '' \<notin> set k" using True by (simp add: valid_key_def)
  then show ?thesis
    using True run [OF ne(1) c(1)] run [OF ne(2) c(2)] c
    by (auto simp: service_set_def service_delete_def append_or_status_def make_set_command_cases
        make_delete_command_cases new_rpc_set_response_def new_rpc_delete_response_def)
qed

theorem client_write_outcomes_witness:
  "\<exists>i t. service_set \<lparr>set_key = ''z'', set_value = ''3''\<rparr> sample_leader = (Inr (status_OK, \<lparr>set_log_index = i\<rparr>), t) \<and>
     unat i = 3"
  using client_write_outcomes [OF sample_leader_ok, of "''z''" "''3''"]
  by (auto simp: log_max_size_def)

text \<open>
  A read is served by a node that takes itself for the leader, from what it has applied: it
  finds exactly the bindings that replaying the applied prefix of its log leaves.
\<close>

theorem client_read_sees_applied_prefix:
  assumes "iterates_once lib" and "core_reachable lib s"
    and "kv_replay (map command (take (unat (last_applied s)) (log_entries s))) = Inr kv"
  shows "service_get \<lparr>get_key = k\<rparr> s =
    (if role s \<noteq> Leader then
       (\<lparr>error_code = FAILED_PRECONDITION, error_message = ''Only the leader accepts client requests''\<rparr>,
        \<lparr>get_found = False, get_value = []\<rparr>)
     else (status_OK, case kv k of None \<Rightarrow> \<lparr>get_found = False, get_value = []\<rparr>
                                 | Some v \<Rightarrow> \<lparr>get_found = True, get_value = v\<rparr>))"
proof -
  have "kv_replay (map command (take (unat (last_applied s)) (log_entries s))) = Inr (key_value_store s)"
    using core_ok_journal [OF core_reachable_ok [OF assms(2,1)]] unfolding journal_ok_def by metis
  with assms(3) have "key_value_store s = kv" by simp
  then show ?thesis
    by (simp add: service_get_def leader_only_def new_rpc_get_response_def kv_get_def split: option.split)
qed

theorem client_read_sees_applied_prefix_witness:
  "\<exists>s :: u64 raft_core. core_reachable sample_lib s \<and> log_entries s = sample_log \<and>
     error_code (fst (service_get \<lparr>get_key = ''x''\<rparr> s)) \<in> {OK, FAILED_PRECONDITION}"
proof (rule sample_node)
  fix s :: "u64 raft_core"
  assume s: "core_reachable sample_lib s" "core_ok s" "log_entries s = sample_log"
  have "kv_replay (map command (take (unat (last_applied s)) (log_entries s))) = Inr (key_value_store s)"
    using core_ok_journal [OF s(2)] unfolding journal_ok_def by metis
  from client_read_sees_applied_prefix [OF sample_lib_ok(1) s(1) this, of "''x''"] s(1,3) show ?thesis
    by (intro exI [of _ s]) (simp add: status_OK_def)
qed

text \<open>
  C35: Every operation of the service that can change the node, whether a peer, a client or the
  node's own loop calls it, goes by steps of the core: it is one call of the core's public interface
  or none, so that the operations of the service, run one at a time in any order, are a run of the
  core; and on every status and every exception it keeps the invariant, undoes nothing and never
  reads outside a vector.
\<close>

theorem handlers_are_core_steps:
  assumes "core_ok s"
    and "length (log_entries s) + length (aeq_entries append_request) \<le> log_max_size"
    and "length (log_entries s) < log_max_size"
    and "current_term s \<noteq> - 1"
  shows "core_action lib (Handle_Request_Vote (request_vote_request_from_rpc vote_request)) s
      (service_request_vote lib vote_request s) \<and>
    core_action lib (Handle_Append_Entries (append_entries_request_from_rpc append_request)) s
      (service_append_entries lib append_request s) \<and>
    core_action lib (Append_Command (''SET '' @ k @ '' '' @ v)) s (service_set \<lparr>set_key = k, set_value = v\<rparr> s) \<and>
    core_action lib (Append_Command (''DELETE '' @ k)) s (service_delete \<lparr>delete_key = k\<rparr> s) \<and>
    core_action lib (Tick elapsed) s (service_tick lib elapsed s) \<and>
    core_action lib Queue_Heartbeat_Actions s (service_queue_heartbeats_if_leader s) \<and>
    core_action lib (Receive_Vote m vote) s (service_receive_vote m vote s) \<and>
    core_action lib (Receive_Append_Entries_Response m answer) s (service_receive_append_entries_response m answer s) \<and>
    core_action lib Take_Request_Vote_Actions s (returning (service_take_request_vote_actions s)) \<and>
    core_action lib Take_Append_Entries_Actions s (returning (service_take_append_entries_actions s))"
proof -
  have "length (entries (append_entries_request_from_rpc append_request)) = length (aeq_entries append_request)"
    by (simp add: append_entries_request_from_rpc_def push_entries_eq)
  with assms(2-4) show ?thesis
    using vote_handler.acts [OF assms(1), of vote_request lib] append_handler.acts [OF assms(1), of append_request lib]
      set_handler.acts [OF assms(1), of "\<lparr>set_key = k, set_value = v\<rparr>" lib]
      delete_handler.acts [OF assms(1), of "\<lparr>delete_key = k\<rparr>" lib] tick_handler.acts [OF assms(1), of elapsed lib]
      heartbeat_handler.acts [OF assms(1), of lib] vote_answer_handler.acts [OF assms(1), of "(m, vote)" lib]
      append_answer_handler.acts [OF assms(1), of "(m, answer)" lib] take_votes_handler.acts [OF assms(1), of lib]
      take_appends_handler.acts [OF assms(1), of lib]
    by (simp add: within_bounds_def)
qed

theorem handlers_are_core_steps_witness:
  "(core_step sample_lib)\<^sup>*\<^sup>* sample_leader (final (service_set \<lparr>set_key = ''x'', set_value = ''7''\<rparr> sample_leader)) \<and>
   (core_step sample_lib)\<^sup>*\<^sup>* sample_leader (final (service_tick sample_lib 10 sample_leader))"
  using handlers_are_core_steps [OF sample_leader_ok(1), of "append_entries_request_to_rpc sample_append_request"
      sample_lib _ "''x''" "''7''" 10]
  by (simp add: log_max_size_def append_entries_request_to_rpc_def add_rpc_entries_eq
      new_rpc_append_entries_request_def sample_append_request_def core_action_def)

text \<open>
  The status handler reports one consistent snapshot and always answers: identity, role, term,
  the known leader or an empty string, the commit index and the length of the log.  On a node in
  order the commit index it reports is within the log, and a leader reports itself.
\<close>

theorem status_is_a_consistent_snapshot:
  assumes "core_ok s"
  shows "\<exists>r. service_get_status s = (status_OK, r) \<and> gs_node_id r = node_id s \<and>
    gs_current_term r = current_term s \<and> gs_commit_index r \<le> gs_last_log_index r \<and>
    unat (gs_last_log_index r) = length (log_entries s) \<and>
    gs_role r = (case role s of Follower \<Rightarrow> ''follower'' | Candidate \<Rightarrow> ''candidate'' | Leader \<Rightarrow> ''leader'') \<and>
    gs_leader_id r = (case leader_id s of None \<Rightarrow> [] | Some l \<Rightarrow> l) \<and>
    (role s \<noteq> Leader \<or> gs_leader_id r = node_id s)"
proof -
  have "unat (last_log_index s) = length (log_entries s)"
    using core_ok_length [OF assms] by (simp add: last_log_index_def unat_last_index)
  moreover from this have "commit_index s \<le> last_log_index s"
    using core_ok_commit [OF assms] by (simp add: word_le_nat_alt)
  moreover have "role s = Leader \<Longrightarrow> leader_id s = Some (node_id s)"
    using assms by (simp add: core_ok_defs)
  ultimately show ?thesis
    by (cases "role s") (auto simp: service_get_status_def Let_def new_rpc_get_status_response_def split: option.split)
qed

theorem status_is_a_consistent_snapshot_witness:
  "\<exists>r. service_get_status sample_leader = (status_OK, r) \<and> gs_leader_id r = ''a''"
  using status_is_a_consistent_snapshot [OF sample_leader_ok(1)] by auto

end
