(* ===== verification/Raft_Peer_Client.thy ===== *)
theory Raft_Peer_Client
  imports Raft_Service
begin

text \<open>
  \<^verbatim>\<open>src/src/raft_peer_client.cpp\<close>: the client side of the two Raft procedures.  The channel and the
  stub that gRPC generates are a parameter: given the address, the deadline and a request they
  return a status and a response, and change whatever is outside the client, of type \<open>'w\<close>.
\<close>

section \<open>The generated stub\<close>

record 'w stub =
  stub_request_vote :: "string \<Rightarrow> nat \<Rightarrow> rpc_request_vote_request \<Rightarrow> 'w \<Rightarrow>
    (rpc_status \<times> rpc_request_vote_response) \<times> 'w"
  stub_append_entries :: "string \<Rightarrow> nat \<Rightarrow> rpc_append_entries_request \<Rightarrow> 'w \<Rightarrow>
    (rpc_status \<times> rpc_append_entries_response) \<times> 'w"

section \<open>The client\<close>

text \<open>\<^verbatim>\<open>set_rpc_deadline\<close>: every call gives up after this many milliseconds.\<close>

definition rpc_deadline_ms :: nat where
  "rpc_deadline_ms = 500"

text \<open>The object keeps the connection, that is, the address it was made for.\<close>

record peer_client =
  peer_address :: string

definition new_raft_peer_client :: "string \<Rightarrow> exc + peer_client" where
  "new_raft_peer_client address =
     (if address = [] then Inl (InvalidArgument ''Peer address cannot be empty'')
      else Inr \<lparr>peer_address = address\<rparr>)"

definition peer_request_vote ::
    "'w stub \<Rightarrow> peer_client \<Rightarrow> request_vote_request \<Rightarrow> 'w \<Rightarrow> request_vote_response option \<times> 'w" where
  "peer_request_vote st peer request w =
     (case stub_request_vote st (peer_address peer) rpc_deadline_ms (request_vote_request_to_rpc request) w of
        ((status, rpc_response), w') \<Rightarrow>
          (if \<not> status_ok status then None else Some (request_vote_response_from_rpc rpc_response), w'))"

definition peer_append_entries ::
    "'w stub \<Rightarrow> peer_client \<Rightarrow> append_entries_request \<Rightarrow> 'w \<Rightarrow> append_entries_response option \<times> 'w" where
  "peer_append_entries st peer request w =
     (case stub_append_entries st (peer_address peer) rpc_deadline_ms (append_entries_request_to_rpc request) w of
        ((status, rpc_response), w') \<Rightarrow>
          (if \<not> status_ok status then None else Some (append_entries_response_from_rpc rpc_response), w'))"

section \<open>A connection to a server\<close>

text \<open>
  A stub whose calls reach the service of the node in \<open>'w\<close>: the documented behaviour of a call
  that is answered in time.  A handler that throws gives the caller a status that is not OK.
\<close>

definition direct_stub :: "'g std_lib \<Rightarrow> ('g raft_core) stub" where
  "direct_stub lib = \<lparr>
     stub_request_vote = (\<lambda>address deadline request s.
       case service_request_vote lib request s of
         (Inr (status, response), t) \<Rightarrow> ((status, response), t)
       | (Inl e, t) \<Rightarrow> ((\<lparr>error_code = OTHER_CODE, error_message = ''Unexpected error in RPC handling''\<rparr>,
                          new_rpc_request_vote_response), t)),
     stub_append_entries = (\<lambda>address deadline request s.
       case service_append_entries lib request s of
         (Inr (status, response), t) \<Rightarrow> ((status, response), t)
       | (Inl e, t) \<Rightarrow> ((\<lparr>error_code = OTHER_CODE, error_message = ''Unexpected error in RPC handling''\<rparr>,
                          new_rpc_append_entries_response), t))\<rparr>"

section \<open>Properties\<close>

text \<open>
  A remote call that is answered is the handler of the remote core, called with the very struct
  the caller passed and returning the very struct the handler returned; a handler that throws is,
  for the caller, a peer that did not answer.
\<close>

theorem remote_call_is_local_call:
  "peer_request_vote (direct_stub lib) peer q s =
     (case handle_request_vote lib q s of (Inr r, t) \<Rightarrow> (Some r, t) | (Inl e, t) \<Rightarrow> (None, t)) \<and>
   peer_append_entries (direct_stub lib) peer a s =
     (case handle_append_entries lib a s of (Inr r, t) \<Rightarrow> (Some r, t) | (Inl e, t) \<Rightarrow> (None, t))"
  by (auto simp: peer_request_vote_def peer_append_entries_def direct_stub_def service_request_vote_def
      service_append_entries_def bind_op_def status_ok_def status_OK_def
      vote_rpc.request.decode_encode vote_rpc.response.decode_encode
      append_rpc.request.decode_encode append_rpc.response.decode_encode
      split: prod.splits sum.splits)

end
