(* ===== verification/Raft_Runtime.thy ===== *)
theory Raft_Runtime
  imports Raft_Peer_Client
begin

text \<open>
  \<^verbatim>\<open>src/src/raft_runtime.cpp\<close>: the loop body that drives one node.  While it waits for an answer it
  does not hold the mutex, so other threads may call the service in between: the stub of the
  previous theory is given the node's own core as part of the world and may change it.
\<close>

section \<open>The object\<close>

record peer_configuration =
  pc_node_id :: string
  pc_address :: string

text \<open>The service (its core), the rest of the world, the clients, and the heartbeat timer.\<close>

record ('g, 'n) runtime =
  rt_core :: "'g raft_core"
  rt_net :: 'n
  peers :: "string \<rightharpoonup> peer_client"
  heartbeat_elapsed_ms :: u64

definition heartbeat_interval_ms :: u64 where
  "heartbeat_interval_ms = 50"

section \<open>Construction\<close>

text \<open>The loop over the configurations; \<open>m\<close> holds the clients inserted so far.\<close>

fun insert_peers :: "peer_configuration list \<Rightarrow> (string \<rightharpoonup> peer_client) \<Rightarrow> exc + (string \<rightharpoonup> peer_client)" where
  "insert_peers [] m = Inr m"
| "insert_peers (p # ps) m =
     (if pc_node_id p = [] then Inl (InvalidArgument ''Peer node ID cannot be empty'')
      else bind_exc (new_raft_peer_client (pc_address p)) (\<lambda>client.
        if m (pc_node_id p) \<noteq> None then Inl (InvalidArgument ''Peer node IDs must be unique'')
        else insert_peers ps (m(pc_node_id p \<mapsto> client))))"

definition new_raft_runtime ::
    "'g raft_core \<Rightarrow> 'n \<Rightarrow> peer_configuration list \<Rightarrow> exc + ('g, 'n) runtime" where
  "new_raft_runtime core net configured =
     bind_exc (insert_peers configured Map.empty) (\<lambda>m.
       Inr \<lparr>rt_core = core, rt_net = net, peers = m, heartbeat_elapsed_ms = 0\<rparr>)"

section \<open>One round\<close>

definition find_peer :: "string \<Rightarrow> ('g, 'n) runtime \<Rightarrow> peer_client option" where
  "find_peer node rt = peers rt node"

text \<open>An operation of the service, on the runtime.\<close>

definition on_core :: "('g raft_core, 'a) op \<Rightarrow> (('g, 'n) runtime, 'a) op" where
  "on_core m rt = (case m (rt_core rt) of (r, s) \<Rightarrow> (r, rt\<lparr>rt_core := s\<rparr>))"

text \<open>A call to a peer, during which the core may change.\<close>

definition on_world ::
    "('g raft_core \<times> 'n \<Rightarrow> 'a \<times> ('g raft_core \<times> 'n)) \<Rightarrow> (('g, 'n) runtime, 'a) op" where
  "on_world f rt = (case f (rt_core rt, rt_net rt) of (a, (s, n)) \<Rightarrow> (Inr a, rt\<lparr>rt_core := s, rt_net := n\<rparr>))"

fun deliver_votes :: "('g raft_core \<times> 'n) stub \<Rightarrow> request_vote_action list \<Rightarrow> (('g, 'n) runtime, unit) op" where
  "deliver_votes st [] rt = (Inr (), rt)"
| "deliver_votes st (a # as) rt =
     (case find_peer (rv_target a) rt of
        None \<Rightarrow> deliver_votes st as rt
      | Some peer \<Rightarrow>
          bind_op (on_world (peer_request_vote st peer (rv_request a))) (\<lambda>response.
          bind_op (case response of
                     Some r \<Rightarrow> on_core (service_receive_vote (rv_target a) r)
                   | None \<Rightarrow> return_op ())
            (\<lambda>_. deliver_votes st as)) rt)"

definition deliver_vote_requests :: "('g raft_core \<times> 'n) stub \<Rightarrow> (('g, 'n) runtime, unit) op" where
  "deliver_vote_requests st rt =
     (case service_take_request_vote_actions (rt_core rt) of
        (actions, s) \<Rightarrow> deliver_votes st actions (rt\<lparr>rt_core := s\<rparr>))"

fun deliver_appends :: "('g raft_core \<times> 'n) stub \<Rightarrow> append_entries_action list \<Rightarrow> (('g, 'n) runtime, unit) op" where
  "deliver_appends st [] rt = (Inr (), rt)"
| "deliver_appends st (a # as) rt =
     (case find_peer (ae_target a) rt of
        None \<Rightarrow> deliver_appends st as rt
      | Some peer \<Rightarrow>
          bind_op (on_world (peer_append_entries st peer (ae_request a))) (\<lambda>response.
          bind_op (case response of
                     Some r \<Rightarrow> on_core (service_receive_append_entries_response (ae_target a) r)
                   | None \<Rightarrow> return_op ())
            (\<lambda>_. deliver_appends st as)) rt)"

definition deliver_append_entries :: "('g raft_core \<times> 'n) stub \<Rightarrow> (('g, 'n) runtime, unit) op" where
  "deliver_append_entries st rt =
     (case service_take_append_entries_actions (rt_core rt) of
        (actions, s) \<Rightarrow> deliver_appends st actions (rt\<lparr>rt_core := s\<rparr>))"

text \<open>The heartbeat timer, between the two deliveries.\<close>

definition heartbeat_timer :: "u64 \<Rightarrow> (('g, 'n) runtime, unit) op" where
  "heartbeat_timer elapsed_ms rt =
     (if service_current_role (rt_core rt) = Leader then
        (let rt1 = rt\<lparr>heartbeat_elapsed_ms := heartbeat_elapsed_ms rt + elapsed_ms\<rparr> in
         if heartbeat_interval_ms \<le> heartbeat_elapsed_ms rt1 then
           bind_op (on_core service_queue_heartbeats_if_leader)
             (\<lambda>_. modify_op (\<lambda>rt. rt\<lparr>heartbeat_elapsed_ms := 0\<rparr>)) rt1
         else (Inr (), rt1))
      else (Inr (), rt\<lparr>heartbeat_elapsed_ms := 0\<rparr>))"

definition run_once :: "'g std_lib \<Rightarrow> ('g raft_core \<times> 'n) stub \<Rightarrow> u64 \<Rightarrow> (('g, 'n) runtime, unit) op" where
  "run_once lib st elapsed_ms =
     bind_op (on_core (service_tick lib elapsed_ms)) (\<lambda>_.
     bind_op (deliver_vote_requests st) (\<lambda>_.
     bind_op (heartbeat_timer elapsed_ms) (\<lambda>_.
     deliver_append_entries st)))"

section \<open>The core during a round\<close>

text \<open>
  Other threads reach the core through the mutex only, so that a call of a peer changes it by
  steps of its public interface.
\<close>

definition interferes_by_steps :: "'g std_lib \<Rightarrow> ('g raft_core \<times> 'n) stub \<Rightarrow> bool" where
  "interferes_by_steps lib st \<longleftrightarrow>
     (\<forall>address deadline q s n. (core_step lib)\<^sup>*\<^sup>* s (fst (snd (stub_request_vote st address deadline q (s, n))))) \<and>
     (\<forall>address deadline q s n. (core_step lib)\<^sup>*\<^sup>* s (fst (snd (stub_append_entries st address deadline q (s, n)))))"

text \<open>The core has gone by steps, and the rest of the object is kept by definition of the update.\<close>

definition core_steps :: "'g std_lib \<Rightarrow> ('g, 'n) runtime \<Rightarrow> ('g, 'n) runtime \<Rightarrow> bool" where
  "core_steps lib rt rt' \<longleftrightarrow> (core_step lib)\<^sup>*\<^sup>* (rt_core rt) (rt_core rt') \<and> peers rt' = peers rt"

lemma core_steps_refl [simp]: "core_steps lib rt rt"
  by (simp add: core_steps_def)

lemma core_steps_trans: "core_steps lib a b \<Longrightarrow> core_steps lib b c \<Longrightarrow> core_steps lib a c"
  by (auto simp: core_steps_def)

lemma core_steps_bind:
  assumes "core_steps lib rt (final (m rt))"
    and "\<And>a rt'. m rt = (Inr a, rt') \<Longrightarrow> core_steps lib rt' (final (k a rt'))"
  shows "core_steps lib rt (final (bind_op m k rt))"
  using assms by (auto simp: bind_op_def intro: core_steps_trans split: prod.splits sum.splits)

lemma discard_unit [simp]: "discard (r :: (exc + unit) \<times> 's) = r"
  by (auto simp: discard_def split: prod.splits sum.splits)

lemma core_steps_on_core:
  assumes "discard (m (rt_core rt)) = call lib c (rt_core rt)" and "within_bounds c (rt_core rt)"
  shows "core_steps lib rt (final (on_core m rt))"
proof -
  have "final (m (rt_core rt)) = final (call lib c (rt_core rt))"
    using assms(1) by (metis discard_final)
  then show ?thesis
    using core_step [OF assms(2), of lib] by (auto simp: core_steps_def on_core_def split: prod.splits)
qed

lemma core_steps_call:
  "within_bounds c (rt_core rt) \<Longrightarrow> core_steps lib rt (rt\<lparr>rt_core := final (call lib c (rt_core rt))\<rparr>)"
  using core_step [of c "rt_core rt" lib] by (auto simp: core_steps_def)

lemma core_steps_on_world:
  assumes "(core_step lib)\<^sup>*\<^sup>* (rt_core rt) (fst (snd (f (rt_core rt, rt_net rt))))"
  shows "core_steps lib rt (final (on_world f rt))"
  using assms by (auto simp: core_steps_def on_world_def split: prod.splits)

lemma peer_calls_step:
  assumes "interferes_by_steps lib st"
  shows "(core_step lib)\<^sup>*\<^sup>* s (fst (snd (peer_request_vote st peer q (s, n))))"
    and "(core_step lib)\<^sup>*\<^sup>* s (fst (snd (peer_append_entries st peer a (s, n))))"
  using assms unfolding interferes_by_steps_def peer_request_vote_def peer_append_entries_def
  by (auto split: prod.splits) (metis fst_conv snd_conv)+

lemma deliver_votes_steps:
  assumes "interferes_by_steps lib st"
  shows "core_steps lib rt (final (deliver_votes st as rt))"
proof (induction as arbitrary: rt)
  case (Cons a as)
  have receive: "core_steps lib r (final (on_core (service_receive_vote m v) r))" for m v and r :: "('a, 'b) runtime"
    by (rule core_steps_on_core [where c = "Receive_Vote m v"]) (simp_all add: service_receive_vote_def within_bounds_def)
  show ?case
    by (auto split: option.split intro!: core_steps_bind Cons.IH receive core_steps_on_world peer_calls_step(1) assms)
qed simp

lemma deliver_appends_steps:
  assumes "interferes_by_steps lib st"
  shows "core_steps lib rt (final (deliver_appends st as rt))"
proof (induction as arbitrary: rt)
  case (Cons a as)
  have receive: "core_steps lib r (final (on_core (service_receive_append_entries_response m v) r))"
    for m v and r :: "('a, 'b) runtime"
    by (rule core_steps_on_core [where c = "Receive_Append_Entries_Response m v"])
       (simp_all add: service_receive_append_entries_response_def within_bounds_def)
  show ?case
    by (auto split: option.split intro!: core_steps_bind Cons.IH receive core_steps_on_world peer_calls_step(2) assms)
qed simp

lemma heartbeat_timer_steps:
  fixes rt :: "('g, 'n) runtime"
  shows "core_steps lib rt (final (heartbeat_timer ms rt))"
proof -
  have set: "core_steps lib rt (rt\<lparr>heartbeat_elapsed_ms := x\<rparr>)" for x and rt :: "('g, 'n) runtime"
    by (simp add: core_steps_def)
  have queue: "core_steps lib r (final (on_core service_queue_heartbeats_if_leader r))" for r :: "('g, 'n) runtime"
  proof (cases "role (rt_core r) = Leader")
    case True
    then show ?thesis
      by (intro core_steps_on_core [where c = Queue_Heartbeat_Actions])
         (simp_all add: service_queue_heartbeats_if_leader_def within_bounds_def)
  next
    case False
    then show ?thesis by (simp add: on_core_def service_queue_heartbeats_if_leader_def)
  qed
  have round: "core_steps lib r (final (bind_op (on_core service_queue_heartbeats_if_leader)
             (\<lambda>_. modify_op (\<lambda>rt. rt\<lparr>heartbeat_elapsed_ms := 0\<rparr>)) r))" for r :: "('g, 'n) runtime"
    by (rule core_steps_bind [OF queue]) (simp add: set)
  show ?thesis
    unfolding heartbeat_timer_def Let_def
    using set [of rt] core_steps_trans [OF set [of rt "heartbeat_elapsed_ms rt + ms"] round] by simp
qed

lemma run_once_steps:
  fixes rt :: "('g, 'n) runtime"
  assumes "interferes_by_steps lib st" and "current_term (rt_core rt) \<noteq> - 1"
  shows "core_steps lib rt (final (run_once lib st ms rt))"
proof -
  have tick: "core_steps lib rt (final (on_core (service_tick lib ms) rt))"
    by (rule core_steps_on_core [where c = "Tick ms"]) (simp_all add: service_tick_def within_bounds_def assms(2))
  have votes: "core_steps lib r (final (deliver_vote_requests st r))" for r :: "('g, 'n) runtime"
    using core_steps_call [of Take_Request_Vote_Actions r lib] deliver_votes_steps [OF assms(1)]
    by (auto simp: deliver_vote_requests_def service_take_request_vote_actions_def within_bounds_def
        take_request_vote_actions_def intro: core_steps_trans)
  have appends: "core_steps lib r (final (deliver_append_entries st r))" for r :: "('g, 'n) runtime"
    using core_steps_call [of Take_Append_Entries_Actions r lib] deliver_appends_steps [OF assms(1)]
    by (auto simp: deliver_append_entries_def service_take_append_entries_actions_def within_bounds_def
        take_append_entries_actions_def intro: core_steps_trans)
  show ?thesis
    unfolding run_once_def
    by (rule core_steps_bind, rule tick, rule core_steps_bind, rule votes,
        rule core_steps_bind, rule heartbeat_timer_steps, rule appends)
qed

section \<open>Peers that do not answer\<close>

text \<open>
  A stub that records what is sent, in the rest of the world, and whose calls all run into the
  deadline.
\<close>

datatype sent =
    Sent_Vote string nat rpc_request_vote_request
  | Sent_Append string nat rpc_append_entries_request

definition timed_out :: rpc_status where
  "timed_out = \<lparr>error_code = DEADLINE_EXCEEDED, error_message = ''Deadline Exceeded''\<rparr>"

definition recording_stub :: "('g raft_core \<times> sent list) stub" where
  "recording_stub = \<lparr>
     stub_request_vote = (\<lambda>address deadline q (s, n).
       ((timed_out, new_rpc_request_vote_response), (s, n @ [Sent_Vote address deadline q]))),
     stub_append_entries = (\<lambda>address deadline q (s, n).
       ((timed_out, new_rpc_append_entries_response), (s, n @ [Sent_Append address deadline q])))\<rparr>"

lemma recording_interferes [simp]: "interferes_by_steps lib recording_stub"
  by (simp add: interferes_by_steps_def recording_stub_def)

lemma recording_calls [simp]:
  "peer_request_vote recording_stub peer q (s, n) =
     (None, (s, n @ [Sent_Vote (peer_address peer) rpc_deadline_ms (request_vote_request_to_rpc q)]))"
  "peer_append_entries recording_stub peer a (s, n) =
     (None, (s, n @ [Sent_Append (peer_address peer) rpc_deadline_ms (append_entries_request_to_rpc a)]))"
  by (simp_all add: recording_stub_def peer_request_vote_def peer_append_entries_def timed_out_def status_ok_def)

definition sent_append :: "(string \<rightharpoonup> peer_client) \<Rightarrow> append_entries_action \<Rightarrow> sent" where
  "sent_append m a = Sent_Append (peer_address (the (m (ae_target a)))) rpc_deadline_ms
     (append_entries_request_to_rpc (ae_request a))"

section \<open>Properties\<close>

definition usable_peer :: "peer_configuration \<Rightarrow> bool" where
  "usable_peer p \<longleftrightarrow> pc_node_id p \<noteq> [] \<and> pc_address p \<noteq> []"

abbreviation client_of :: "peer_configuration \<Rightarrow> string \<times> peer_client" where
  "client_of p \<equiv> (pc_node_id p, \<lparr>peer_address = pc_address p\<rparr>)"

text \<open>The configurations that can be added to the clients \<open>m\<close>.\<close>

definition addable :: "peer_configuration list \<Rightarrow> (string \<rightharpoonup> peer_client) \<Rightarrow> bool" where
  "addable ps m \<longleftrightarrow> list_all usable_peer ps \<and> distinct (map pc_node_id ps) \<and>
     (\<forall>p \<in> set ps. m (pc_node_id p) = None)"

lemma addable_Cons:
  "addable (p # ps) m \<longleftrightarrow> usable_peer p \<and> m (pc_node_id p) = None \<and> addable ps (m(pc_node_id p \<mapsto> c))"
  by (auto simp: addable_def) (metis image_eqI)

lemma insert_peers_cases:
  "case insert_peers ps m of
     Inr m' \<Rightarrow> addable ps m \<and> m' = m ++ map_of (map client_of ps)
   | Inl e \<Rightarrow> \<not> addable ps m \<and> (\<exists>msg. e = InvalidArgument msg)"
proof (induction ps arbitrary: m)
  case (Cons p ps)
  let ?m = "m(pc_node_id p \<mapsto> \<lparr>peer_address = pc_address p\<rparr>)"
  show ?case
  proof (cases "usable_peer p \<and> m (pc_node_id p) = None")
    case True
    then have step: "insert_peers (p # ps) m = insert_peers ps ?m"
      by (simp add: usable_peer_def new_raft_peer_client_def bind_exc_def)
    have "?m ++ map_of (map client_of ps) = m ++ map_of (map client_of (p # ps))" if ok: "addable ps ?m"
    proof -
      have "pc_node_id p \<notin> pc_node_id ` set ps" using ok by (auto simp: addable_def)
      then have "pc_node_id p \<notin> dom (map_of (map client_of ps))"
        by (simp add: dom_map_of_conv_image_fst image_comp comp_def)
      then show ?thesis by (simp add: map_add_upd_left)
    qed
    moreover have "addable (p # ps) m \<longleftrightarrow> addable ps ?m"
      using True addable_Cons [of p ps m] by blast
    ultimately show ?thesis
      unfolding step using Cons.IH [of ?m] by (cases "insert_peers ps ?m") (simp_all only: sum.case, metis+)
  next
    case False
    then show ?thesis
      by (auto simp: addable_def usable_peer_def new_raft_peer_client_def bind_exc_def)
  qed
qed (simp add: addable_def)

text \<open>
  The constructor of the runtime succeeds exactly when every configured peer has a node ID and
  an address and no node ID occurs twice; then the address of each peer is the one configured for
  its ID, no other node is known, and the heartbeat timer is at zero.  Otherwise it throws
  \<^verbatim>\<open>invalid_argument\<close>.
\<close>

theorem runtime_construction:
  "case new_raft_runtime core net ps of
     Inr rt \<Rightarrow> list_all usable_peer ps \<and> distinct (map pc_node_id ps) \<and>
       rt = \<lparr>rt_core = core, rt_net = net, peers = map_of (map client_of ps), heartbeat_elapsed_ms = 0\<rparr>
   | Inl e \<Rightarrow> \<not> (list_all usable_peer ps \<and> distinct (map pc_node_id ps)) \<and> (\<exists>msg. e = InvalidArgument msg)"
  using insert_peers_cases [of ps Map.empty]
  by (simp add: addable_def new_raft_runtime_def bind_exc_def split: sum.splits)

text \<open>
  A round of the loop, whatever the network answers and whatever other threads do to the core
  while the round waits for it, keeps the invariant of the core, undoes nothing of its history (the
  term, the vote of the term, the committed prefix and the applied index only go forward) and keeps
  the table of peers; this holds on exceptions as well.
\<close>

theorem run_once_keeps_the_core:
  fixes rt :: "('g, 'n) runtime"
  assumes "interferes_by_steps lib st" and "core_ok (rt_core rt)" and "current_term (rt_core rt) \<noteq> - 1"
  shows "core_ok (rt_core (final (run_once lib st ms rt))) \<and>
    advances (rt_core rt) (rt_core (final (run_once lib st ms rt))) \<and>
    peers (final (run_once lib st ms rt)) = peers rt"
  using run_once_steps [OF assms(1,3), of ms] core_steps_progress assms(2)
  by (auto simp: core_steps_def progress_def)

definition sample_runtime :: "u64 raft_core \<Rightarrow> (u64, sent list) runtime" where
  "sample_runtime s = \<lparr>rt_core = s, rt_net = [],
     peers = [''b'' \<mapsto> \<lparr>peer_address = ''h:2''\<rparr>, ''c'' \<mapsto> \<lparr>peer_address = ''h:3''\<rparr>],
     heartbeat_elapsed_ms = 40\<rparr>"

lemma run_once_keeps_the_core_witness:
  "advances sample_leader (rt_core (final (run_once sample_lib recording_stub 10 (sample_runtime sample_leader))))"
  using run_once_keeps_the_core [of sample_lib recording_stub "sample_runtime sample_leader" 10]
  by (simp add: sample_runtime_def)

end
