(* ===== verification/Node_Main.thy ===== *)
theory Node_Main
  imports Raft_Runtime "HOL-Library.Signed_Division"
begin

text \<open>
  \<^verbatim>\<open>src/apps/node_main.cpp\<close>: the process of one node.  Its surroundings are parameters: whether
  gRPC can listen on an address, the peers behind the stub, the clock, and what happens to the core
  and to the rest of the world while this thread is not inside a call: handlers run in other threads.  The endless loop is a loop
  over the rounds that are given; after them the process is still running.
\<close>

section \<open>Start\<close>

definition random_seed_for :: "string \<Rightarrow> exc + u64" where
  "random_seed_for node =
     (if node = ''node-1'' then Inr 1
      else if node = ''node-2'' then Inr 2
      else if node = ''node-3'' then Inr 3
      else Inl (RuntimeError ''Node ID must be node-1, node-2, or node-3''))"

definition node_members :: "string list" where
  "node_members = [''node-1'', ''node-2'', ''node-3'']"

definition all_nodes :: "string list \<Rightarrow> peer_configuration list" where
  "all_nodes argv =
     [\<lparr>pc_node_id = ''node-1'', pc_address = argv ! 4\<rparr>,
      \<lparr>pc_node_id = ''node-2'', pc_address = argv ! 5\<rparr>,
      \<lparr>pc_node_id = ''node-3'', pc_address = argv ! 6\<rparr>]"

text \<open>The loop that leaves out the node itself; \<open>ps\<close> holds the peers pushed so far.\<close>

fun push_peers :: "string \<Rightarrow> peer_configuration list \<Rightarrow> peer_configuration list \<Rightarrow> peer_configuration list" where
  "push_peers node [] ps = ps"
| "push_peers node (n # ns) ps = push_peers node ns (if pc_node_id n \<noteq> node then ps @ [n] else ps)"

text \<open>
  What other threads and other processes do in the meantime, to the core and to the rest of the world.
\<close>

type_synonym ('g, 'n) meanwhile = "'g raft_core \<times> 'n \<Rightarrow> 'g raft_core \<times> 'n"

definition interfere :: "('g, 'n) meanwhile \<Rightarrow> ('g, 'n) runtime \<Rightarrow> ('g, 'n) runtime" where
  "interfere h rt = (case h (rt_core rt, rt_net rt) of (s, n) \<Rightarrow> rt\<lparr>rt_core := s, rt_net := n\<rparr>)"

text \<open>
  The surroundings.  \<open>before_banner\<close> and \<open>before_loop\<close> are what happens between the start of the server
  and the line that announces it, and from there to the first look at the role.
\<close>

record ('g, 'n) surroundings =
  listens :: "string \<Rightarrow> bool"
  peers_stub :: "('g raft_core \<times> 'n) stub"
  before_banner :: "('g, 'n) meanwhile"
  before_loop :: "('g, 'n) meanwhile"

text \<open>The process in its loop: the runtime with the core, the last role and time seen, its output.\<close>

record ('g, 'n) process =
  np_runtime :: "('g, 'n) runtime"
  np_previous_role :: node_role
  np_previous_time :: int
  np_output :: string

definition banner :: "string \<Rightarrow> node_role \<Rightarrow> string \<Rightarrow> string" where
  "banner node r listen_address =
     node @ '' started as '' @ role_to_string r @ '' and is listening on '' @ listen_address @ [newline]"

text \<open>The \<^verbatim>\<open>try\<close> block up to the loop, at the time \<open>now\<close> (in nanoseconds).\<close>

definition start_node ::
    "'g std_lib \<Rightarrow> ('g, 'n) surroundings \<Rightarrow> string list \<Rightarrow> state_file \<Rightarrow> 'n \<Rightarrow> int \<Rightarrow> exc + ('g, 'n) process" where
  "start_node lib env argv f net_state now =
     (let node = argv ! 1; listen_address = argv ! 2; path = argv ! 3;
          configured = push_peers node (all_nodes argv) [] in
      bind_exc (random_seed_for node) (\<lambda>seed.
      bind_exc (fst (new_raft_core lib node node_members 0 [] 150 300 seed path f)) (\<lambda>core.
      if \<not> listens env listen_address then Inl (RuntimeError ''gRPC server could not start'')
      else bind_exc (new_raft_runtime core net_state configured) (\<lambda>rt.
        let rt1 = interfere (before_banner env) rt; rt2 = interfere (before_loop env) rt1 in
        Inr \<lparr>np_runtime = rt2, np_previous_role = service_current_role (rt_core rt2), np_previous_time = now,
             np_output = banner node (role (rt_core rt1)) listen_address\<rparr>))))"

section \<open>The loop\<close>

text \<open>One round: the time it starts, and what happens while the thread sleeps.\<close>

type_synonym ('g, 'n) round = "int \<times> ('g, 'n) meanwhile"

definition elapsed_ms :: "int \<Rightarrow> int \<Rightarrow> u64" where
  "elapsed_ms current_time previous_time = word_of_int ((current_time - previous_time) sdiv 1000000)"

definition asleep :: "('g, 'n) meanwhile \<Rightarrow> ('g, 'n) process \<Rightarrow> ('g, 'n) process" where
  "asleep between p = p\<lparr>np_runtime := interfere between (np_runtime p)\<rparr>"

definition on_runtime :: "(('g, 'n) runtime, 'a) op \<Rightarrow> (('g, 'n) process, 'a) op" where
  "on_runtime m p = (case m (np_runtime p) of (r, rt) \<Rightarrow> (r, p\<lparr>np_runtime := rt\<rparr>))"

definition announce_role :: "string \<Rightarrow> ('g, 'n) process \<Rightarrow> ('g, 'n) process" where
  "announce_role node p =
     (let current_role = service_current_role (rt_core (np_runtime p)) in
      if current_role \<noteq> np_previous_role p then
        p\<lparr>np_output := np_output p @ node @ '' changed role to '' @ role_to_string current_role @ [newline],
          np_previous_role := current_role\<rparr>
      else p)"

definition node_round ::
    "'g std_lib \<Rightarrow> ('g raft_core \<times> 'n) stub \<Rightarrow> string \<Rightarrow> ('g, 'n) round \<Rightarrow> (('g, 'n) process, unit) op" where
  "node_round lib st node r p =
     (case r of (current_time, between) \<Rightarrow>
        let elapsed = elapsed_ms current_time (np_previous_time p);
            p1 = (asleep between p)\<lparr>np_previous_time := current_time\<rparr>
        in bind_op (on_runtime (run_once lib st elapsed)) (\<lambda>_. modify_op (announce_role node)) p1)"

fun node_rounds ::
    "'g std_lib \<Rightarrow> ('g raft_core \<times> 'n) stub \<Rightarrow> string \<Rightarrow> ('g, 'n) round list \<Rightarrow> (('g, 'n) process, unit) op" where
  "node_rounds lib st node [] p = (Inr (), p)"
| "node_rounds lib st node (r # rs) p =
     bind_op (node_round lib st node r) (\<lambda>_. node_rounds lib st node rs) p"

section \<open>The process\<close>

text \<open>\<^verbatim>\<open>what\<close> of the exceptions.\<close>

fun what :: "exc \<Rightarrow> string" where
  "what (InvalidArgument m) = m"
| "what (LogicError m) = m"
| "what (RuntimeError m) = m"
| "what (LengthError m) = m"
| "what UndefinedBehaviour = []"

text \<open>A process that ended, with its exit code and what it wrote to \<^verbatim>\<open>cout\<close> and \<^verbatim>\<open>cerr\<close>.\<close>

datatype ('g, 'n) node_outcome =
    Exited int string string
  | Running "('g, 'n) process"

definition node_usage :: string where
  "node_usage = ''Usage: miniraft_node '' @ ''<node-id> <listen-address> <storage-path> '' @
     ''<node-1-address> <node-2-address> <node-3-address>'' @ [newline]"

definition failed_to_start :: "exc \<Rightarrow> string" where
  "failed_to_start e = ''Failed to start node: '' @ what e @ [newline]"

definition node_main ::
    "'g std_lib \<Rightarrow> ('g, 'n) surroundings \<Rightarrow> string list \<Rightarrow> state_file \<Rightarrow> 'n \<Rightarrow> int \<Rightarrow> ('g, 'n) round list \<Rightarrow>
     ('g, 'n) node_outcome" where
  "node_main lib env argv f net_state now rounds =
     (if length argv \<noteq> 7 then Exited 1 [] node_usage
      else case start_node lib env argv f net_state now of
          Inl e \<Rightarrow> Exited 1 [] (failed_to_start e)
        | Inr p \<Rightarrow>
            (case node_rounds lib (peers_stub env) (argv ! 1) rounds p of
               (Inl e, p') \<Rightarrow> Exited 1 (np_output p') (failed_to_start e)
             | (Inr _, p') \<Rightarrow> Running p'))"

section \<open>What every process keeps\<close>

lemma push_peers_eq: "push_peers node ns ps = ps @ filter (\<lambda>n. pc_node_id n \<noteq> node) ns"
  by (induction ns arbitrary: ps) simp_all

text \<open>Other threads change the core by calls of its public interface only.\<close>

definition by_steps :: "'g std_lib \<Rightarrow> ('g, 'n) meanwhile \<Rightarrow> bool" where
  "by_steps lib h \<longleftrightarrow> (\<forall>s n. (core_step lib)\<^sup>*\<^sup>* s (fst (h (s, n))))"

lemma interfere_core_steps: "by_steps lib h \<Longrightarrow> core_steps lib rt (interfere h rt)"
  unfolding by_steps_def core_steps_def interfere_def by (auto split: prod.split) (metis fst_conv)

definition calm :: "'g std_lib \<Rightarrow> ('g, 'n) surroundings \<Rightarrow> ('g, 'n) round list \<Rightarrow> bool" where
  "calm lib env rounds \<longleftrightarrow> interferes_by_steps lib (peers_stub env) \<and> by_steps lib (before_banner env) \<and>
     by_steps lib (before_loop env) \<and> list_all (\<lambda>r. by_steps lib (snd r)) rounds"

text \<open>No round starts with the last term there is.\<close>

fun terms_left :: "'g std_lib \<Rightarrow> ('g raft_core \<times> 'n) stub \<Rightarrow> string \<Rightarrow> ('g, 'n) round list \<Rightarrow> ('g, 'n) process \<Rightarrow> bool" where
  "terms_left lib st node [] p = True"
| "terms_left lib st node (r # rs) p =
     (current_term (rt_core (np_runtime (asleep (snd r) p))) \<noteq> - 1 \<and>
      terms_left lib st node rs (final (node_round lib st node r p)))"

abbreviation process_core :: "('g, 'n) process \<Rightarrow> 'g raft_core" where
  "process_core p \<equiv> rt_core (np_runtime p)"

text \<open>A process goes on from another: its core by steps, the table of peers the same.\<close>

definition goes_on :: "'g std_lib \<Rightarrow> ('g, 'n) process \<Rightarrow> ('g, 'n) process \<Rightarrow> bool" where
  "goes_on lib p q \<longleftrightarrow> core_steps lib (np_runtime p) (np_runtime q)"

lemma goes_on_trans: "goes_on lib p q \<Longrightarrow> goes_on lib q r \<Longrightarrow> goes_on lib p r"
  by (auto simp: goes_on_def intro: core_steps_trans)

lemma announce_role_runtime [simp]: "np_runtime (announce_role node p) = np_runtime p"
  by (simp add: announce_role_def Let_def)

lemma announced [simp]: "np_previous_role (announce_role node p) = role (process_core p)"
  by (simp add: announce_role_def service_current_role_def Let_def)

lemma node_round_goes_on:
  assumes "interferes_by_steps lib st" and "by_steps lib (snd r)"
    and "current_term (process_core (asleep (snd r) p)) \<noteq> - 1"
  shows "goes_on lib p (final (node_round lib st node r p))"
    and "fst (node_round lib st node r p) = Inr () \<Longrightarrow>
      np_previous_role (final (node_round lib st node r p)) = role (process_core (final (node_round lib st node r p)))"
proof -
  obtain now between where r: "r = (now, between)" by (cases r)
  let ?p1 = "(asleep between p)\<lparr>np_previous_time := now\<rparr>"
  obtain x rt where run: "run_once lib st (elapsed_ms now (np_previous_time p)) (np_runtime ?p1) = (x, rt)"
    by (cases "run_once lib st (elapsed_ms now (np_previous_time p)) (np_runtime ?p1)") auto
  have "core_steps lib (np_runtime p) (np_runtime ?p1)"
    using interfere_core_steps [OF assms(2)] by (simp add: r asleep_def)
  moreover have "core_steps lib (np_runtime ?p1) rt"
    using run_once_steps [OF assms(1), of "np_runtime ?p1" "elapsed_ms now (np_previous_time p)"] assms(3) run
    by (simp add: r)
  ultimately have steps: "core_steps lib (np_runtime p) rt" by (rule core_steps_trans)
  have "node_round lib st node r p =
      (case x of Inl e \<Rightarrow> (Inl e, ?p1\<lparr>np_runtime := rt\<rparr>) | Inr u \<Rightarrow> (Inr (), announce_role node (?p1\<lparr>np_runtime := rt\<rparr>)))"
    using run by (simp add: node_round_def r Let_def bind_op_def on_runtime_def split: sum.split)
  then show "goes_on lib p (final (node_round lib st node r p))"
    and "fst (node_round lib st node r p) = Inr () \<Longrightarrow>
      np_previous_role (final (node_round lib st node r p)) = role (process_core (final (node_round lib st node r p)))"
    using steps by (cases x; simp add: goes_on_def)+
qed

lemma node_rounds_go_on:
  assumes "interferes_by_steps lib st" and "list_all (\<lambda>r. by_steps lib (snd r)) rs"
    and "terms_left lib st node rs p" and "node_rounds lib st node rs p = (Inr (), q)"
    and "np_previous_role p = role (process_core p)"
  shows "goes_on lib p q \<and> np_previous_role q = role (process_core q)"
  using assms(2-5)
proof (induction rs arbitrary: p)
  case Nil
  then show ?case by (simp add: goes_on_def)
next
  case (Cons r rs)
  obtain p' where round: "node_round lib st node r p = (Inr (), p')" and rest: "node_rounds lib st node rs p' = (Inr (), q)"
    using Cons.prems(3) by (auto simp: bind_op_def split: prod.splits sum.splits)
  have "by_steps lib (snd r)" and "current_term (process_core (asleep (snd r) p)) \<noteq> - 1"
    using Cons.prems(1,2) by simp_all
  note one = node_round_goes_on [OF assms(1) this, of node, unfolded round]
  have "goes_on lib p' q \<and> np_previous_role q = role (process_core q)"
    using Cons.IH [OF _ _ rest] Cons.prems(1,2) one(2) by (simp add: round)
  then show ?case using goes_on_trans [of lib p p' q] one(1) by simp
qed

text \<open>A node that starts: its new core, and the runtime it hands over to the loop.\<close>

lemma start_node_shape:
  assumes "start_node lib env argv f net_state now = Inr p"
  obtains seed s d rt where "random_seed_for (argv ! 1) = Inr seed"
    and "new_raft_core lib (argv ! 1) node_members 0 [] 150 300 seed (argv ! 3) f = (Inr s, d)"
    and "rt = \<lparr>rt_core = s, rt_net = net_state,
      peers = map_of (map client_of (filter (\<lambda>c. pc_node_id c \<noteq> argv ! 1) (all_nodes argv))), heartbeat_elapsed_ms = 0\<rparr>"
    and "np_runtime p = interfere (before_loop env) (interfere (before_banner env) rt)"
    and "np_previous_role p = role (process_core p)"
proof -
  obtain seed s rt where r: "random_seed_for (argv ! 1) = Inr seed"
    and c: "fst (new_raft_core lib (argv ! 1) node_members 0 [] 150 300 seed (argv ! 3) f) = Inr s"
    and rt: "new_raft_runtime s net_state (filter (\<lambda>c. pc_node_id c \<noteq> argv ! 1) (all_nodes argv)) = Inr rt"
    and p: "np_runtime p = interfere (before_loop env) (interfere (before_banner env) rt)"
      "np_previous_role p = role (process_core p)"
    using assms by (auto simp: start_node_def Let_def bind_exc_Inr_iff push_peers_eq service_current_role_def split: if_splits)
  obtain d where run: "new_raft_core lib (argv ! 1) node_members 0 [] 150 300 seed (argv ! 3) f = (Inr s, d)"
    using c by (cases "new_raft_core lib (argv ! 1) node_members 0 [] 150 300 seed (argv ! 3) f") simp
  have "rt = \<lparr>rt_core = s, rt_net = net_state,
      peers = map_of (map client_of (filter (\<lambda>c. pc_node_id c \<noteq> argv ! 1) (all_nodes argv))), heartbeat_elapsed_ms = 0\<rparr>"
    using insert_peers_cases [of "filter (\<lambda>c. pc_node_id c \<noteq> argv ! 1) (all_nodes argv)" Map.empty] rt
    by (auto simp: new_raft_runtime_def bind_exc_Inr_iff)
  with r run p show thesis by (intro that)
qed

lemma start_node_cases:
  assumes lib: "iterates_once lib" and calm: "calm lib env rounds" and start: "start_node lib env argv f net_state now = Inr p"
  obtains s d seed where "random_seed_for (argv ! 1) = Inr seed"
    and "new_raft_core lib (argv ! 1) node_members 0 [] 150 300 seed (argv ! 3) f = (Inr s, d)"
    and "core_ok s" and "(core_step lib)\<^sup>*\<^sup>* s (process_core p)"
    and "node_id s = argv ! 1" and "set (cluster_members s) = set node_members" and "storage_path s = argv ! 3"
    and "peers (np_runtime p) = map_of (map client_of (filter (\<lambda>c. pc_node_id c \<noteq> argv ! 1) (all_nodes argv)))"
    and "np_previous_role p = role (process_core p)"
proof (rule start_node_shape [OF start])
  fix seed s d rt
  assume r: "random_seed_for (argv ! 1) = Inr seed"
    and run: "new_raft_core lib (argv ! 1) node_members 0 [] 150 300 seed (argv ! 3) f = (Inr s, d)"
    and rt: "rt = \<lparr>rt_core = s, rt_net = net_state,
      peers = map_of (map client_of (filter (\<lambda>c. pc_node_id c \<noteq> argv ! 1) (all_nodes argv))), heartbeat_elapsed_ms = 0\<rparr>"
    and p: "np_runtime p = interfere (before_loop env) (interfere (before_banner env) rt)"
      "np_previous_role p = role (process_core p)"
  have "core_ok s" "node_id s = argv ! 1" "set (cluster_members s) = set node_members" "storage_path s = argv ! 3"
    using run lib by (cases rule: new_raft_core_cases [OF lib, of "[]" "argv ! 1" node_members 0 150 300 seed "argv ! 3" f];
        simp add: fresh_node_def iterates_once_def node_members_def)+
  moreover have "core_steps lib rt (np_runtime p)"
    using calm unfolding p calm_def
    by (elim conjE) (rule core_steps_trans; rule interfere_core_steps)
  ultimately show thesis using r run rt p(2) by (intro that [of seed s d]) (simp_all add: core_steps_def)
qed

lemma node_main_exits:
  assumes "node_main lib env argv f net_state now rounds = Exited code o' e'"
  shows "code = 1 \<and> (e' = node_usage \<or> (\<exists>x. e' = failed_to_start x))"
proof (cases "length argv = 7")
  case True
  then show ?thesis
    using assms by (cases "start_node lib env argv f net_state now")
      (auto simp: node_main_def split: prod.split_asm sum.split_asm)
qed (use assms in \<open>simp add: node_main_def\<close>)

lemma node_main_runs:
  assumes "node_main lib env argv f net_state now rounds = Running q"
  obtains p where "length argv = 7" and "start_node lib env argv f net_state now = Inr p"
    and "node_rounds lib (peers_stub env) (argv ! 1) rounds p = (Inr (), q)"
proof (cases "length argv = 7")
  case True
  then show thesis
    using assms that by (cases "start_node lib env argv f net_state now")
      (auto simp: node_main_def split: prod.split_asm sum.split_asm)
qed (use assms in \<open>simp add: node_main_def\<close>)

section \<open>Properties\<close>

text \<open>
  C40: The process of a node, over any number of rounds, with handlers at work in other threads and
  peers answering as they like.  It never ends with exit code 0 and never without a message; while
  it runs it is one of the three nodes, with the three members, the state file of its argument and
  a client for each of the other two at the address given for it; its core is in order, nothing of
  what the node had when it started (its term and vote, its committed log, what it applied) is
  undone, and the role last announced is the core's.
\<close>

theorem node_process_outcome:
  assumes "iterates_once lib" and "calm lib env rounds"
    and "case start_node lib env argv f net_state now of
           Inl e \<Rightarrow> True | Inr p \<Rightarrow> terms_left lib (peers_stub env) (argv ! 1) rounds p"
  shows "case node_main lib env argv f net_state now rounds of
      Exited code written_out written_err \<Rightarrow> code = 1 \<and> written_err \<noteq> []
    | Running p \<Rightarrow>
        core_ok (process_core p) \<and> node_id (process_core p) = argv ! 1 \<and> length argv = 7 \<and>
        argv ! 1 \<in> {''node-1'', ''node-2'', ''node-3''} \<and>
        set (cluster_members (process_core p)) = {''node-1'', ''node-2'', ''node-3''} \<and>
        storage_path (process_core p) = argv ! 3 \<and>
        peers (np_runtime p) = map_of (map client_of (filter (\<lambda>c. pc_node_id c \<noteq> argv ! 1) (all_nodes argv))) \<and>
        (\<exists>seed s d. new_raft_core lib (argv ! 1) node_members 0 [] 150 300 seed (argv ! 3) f = (Inr s, d) \<and>
           advances s (process_core p)) \<and>
        np_previous_role p = role (process_core p)"
proof (cases "node_main lib env argv f net_state now rounds")
  case (Exited code o' e')
  then have "code = 1 \<and> (e' = node_usage \<or> (\<exists>x. e' = failed_to_start x))"
    by (rule node_main_exits)
  moreover have "node_usage \<noteq> []" "failed_to_start x \<noteq> []" for x
    by (simp_all add: node_usage_def failed_to_start_def)
  ultimately show ?thesis by (auto simp only: Exited node_outcome.case)
next
  case (Running q)
  then obtain p where len: "length argv = 7" and start: "start_node lib env argv f net_state now = Inr p"
    and rounds: "node_rounds lib (peers_stub env) (argv ! 1) rounds p = (Inr (), q)"
    by (rule node_main_runs)
  show ?thesis
  proof (rule start_node_cases [OF assms(1,2) start])
    fix s d seed
    assume s: "random_seed_for (argv ! 1) = Inr seed"
      "new_raft_core lib (argv ! 1) node_members 0 [] 150 300 seed (argv ! 3) f = (Inr s, d)"
      "core_ok s" "(core_step lib)\<^sup>*\<^sup>* s (process_core p)" "node_id s = argv ! 1"
      "set (cluster_members s) = set node_members" "storage_path s = argv ! 3"
      "peers (np_runtime p) = map_of (map client_of (filter (\<lambda>c. pc_node_id c \<noteq> argv ! 1) (all_nodes argv)))"
      "np_previous_role p = role (process_core p)"
    have "terms_left lib (peers_stub env) (argv ! 1) rounds p" using assms(3) start by simp
    then have q: "goes_on lib p q" "np_previous_role q = role (process_core q)"
      using node_rounds_go_on [OF _ _ _ rounds s(9)] assms(2) by (simp_all add: calm_def)
    then have "(core_step lib)\<^sup>*\<^sup>* s (process_core q)" and pe: "peers (np_runtime q) = peers (np_runtime p)"
      using s(4) by (auto simp: goes_on_def core_steps_def)
    then have ok: "core_ok (process_core q)" "advances s (process_core q)"
      using core_steps_progress [of lib s "process_core q"] s(3) by (simp_all add: progress_def)
    have "argv ! 1 \<in> {''node-1'', ''node-2'', ''node-3''}"
      using s(1) by (auto simp: random_seed_for_def split: if_splits)
    moreover have "node_id (process_core q) = argv ! 1" "storage_path (process_core q) = argv ! 3"
      "set (cluster_members (process_core q)) = set node_members"
      using s(5-7) ok(2) by (simp_all only: advances_def)
    moreover have "set node_members = {''node-1'', ''node-2'', ''node-3''}" by (simp only: node_members_def list.set)
    ultimately show ?thesis
      unfolding Running node_outcome.case using ok len s(2,8) q(2) pe by simp blast
  qed
qed

definition sample_surroundings :: "(u64, sent list) surroundings" where
  "sample_surroundings = \<lparr>listens = (\<lambda>a. a = ''127.0.0.1:50051''), peers_stub = recording_stub,
     before_banner = id, before_loop = id\<rparr>"

definition sample_arguments :: "string list" where
  "sample_arguments = [''miniraft_node'', ''node-1'', ''127.0.0.1:50051'', ''node-1.state'',
     ''127.0.0.1:50051'', ''127.0.0.1:50052'', ''127.0.0.1:50053'']"

text \<open>The first round starts after 10 milliseconds, the second one 400 milliseconds later.\<close>

definition sample_rounds :: "(u64, sent list) round list" where
  "sample_rounds = [(10000000, id), (410000000, id)]"

lemma sample_calm: "calm sample_lib sample_surroundings sample_rounds"
  by (simp add: calm_def sample_surroundings_def sample_rounds_def by_steps_def)

theorem node_process_outcome_witness:
  "\<exists>p. node_main sample_lib sample_surroundings sample_arguments sample_disk [] 0 sample_rounds = Running p \<and>
     core_ok (process_core p) \<and> np_previous_role p = role (process_core p) \<and> role (process_core p) = Candidate"
proof -
  let ?run = "node_main sample_lib sample_surroundings sample_arguments sample_disk [] 0 sample_rounds"
  have "case ?run of Exited c x e \<Rightarrow> False | Running p \<Rightarrow> role (process_core p) = Candidate" by code_simp
  then obtain p where p: "?run = Running p" "role (process_core p) = Candidate"
    by (auto split: node_outcome.splits)
  have "case start_node sample_lib sample_surroundings sample_arguments sample_disk [] 0 of
           Inl e \<Rightarrow> True | Inr p \<Rightarrow> terms_left sample_lib (peers_stub sample_surroundings) (sample_arguments ! 1) sample_rounds p"
    by code_simp
  from node_process_outcome [OF sample_lib_ok(1) sample_calm this] p show ?thesis by simp
qed

end
