(* ===== verification/Log_Matching.thy ===== *)
theory Log_Matching
  imports Raft_Results
begin

text \<open>
  The log matching property of Raft between two logs, and what an append entries request does to
  a log under it: the follower's log becomes the leader's, unless it already extends it.
\<close>

section \<open>Matching logs\<close>

definition log_matching :: "log_entry list \<Rightarrow> log_entry list \<Rightarrow> bool" where
  "log_matching es fs \<longleftrightarrow> (\<forall>i < length es. i < length fs \<longrightarrow>
     entry_term (es ! i) = entry_term (fs ! i) \<longrightarrow> take (Suc i) es = take (Suc i) fs)"

lemma log_matchingD:
  "log_matching es fs \<Longrightarrow> i < length es \<Longrightarrow> i < length fs \<Longrightarrow> entry_term (es ! i) = entry_term (fs ! i) \<Longrightarrow>
     take (Suc i) es = take (Suc i) fs"
  by (simp add: log_matching_def)

lemma log_matching_refl [simp]: "log_matching es es"
  by (simp add: log_matching_def)

lemma log_matching_sym: "log_matching es fs \<Longrightarrow> log_matching fs es"
  by (simp add: log_matching_def)

lemma log_matching_Nil [simp]: "log_matching [] es" "log_matching es []"
  by (simp_all add: log_matching_def)

lemma log_matching_prefix:
  assumes "prefix es fs"
  shows "log_matching es fs"
  using assms by (auto simp: log_matching_def prefix_def)

lemma log_matching_cut:
  assumes "log_matching es fs" and "prefix es' es"
  shows "log_matching es' fs"
proof -
  obtain gs where es: "es = es' @ gs" using assms(2) by (rule prefixE)
  show ?thesis
    unfolding log_matching_def
  proof (intro allI impI)
    fix i assume i: "i < length es'" "i < length fs" "entry_term (es' ! i) = entry_term (fs ! i)"
    then have "take (Suc i) es = take (Suc i) fs"
      by (intro log_matchingD [OF assms(1)]) (simp_all add: es nth_append)
    then show "take (Suc i) es' = take (Suc i) fs" using i by (simp add: es)
  qed
qed

text \<open>Equal terms at one position.\<close>

lemma log_matching_term_at:
  assumes "log_matching es fs" and "p \<le> length es" and "p \<le> length fs" and "term_at es p = term_at fs p"
  shows "take p es = take p fs"
  using log_matchingD [OF assms(1), of "p - 1"] assms(2-4)
  by (cases p) (simp_all add: term_at_def)

text \<open>The number of entries up to the first difference.\<close>

lemma agreement_prefix:
  "log_matching es fs \<Longrightarrow> take (agreement es fs) es = take (agreement es fs) fs"
proof (cases "agreement es fs")
  case (Suc k)
  have "\<forall>i < agreement es fs. entry_term (es ! i) = entry_term (fs ! i)" for es fs
  proof (induction es fs rule: agreement.induct)
    case (1 e es f fs)
    then show ?case by (auto simp: nth_Cons split: nat.split)
  qed simp_all
  with Suc have "entry_term (es ! k) = entry_term (fs ! k)" by auto
  moreover assume "log_matching es fs"
  ultimately show ?thesis
    using Suc agreement_le [of es fs] log_matchingD [of es fs k] by simp
qed simp

lemma agreement_stops:
  "agreement es fs < length es \<Longrightarrow> agreement es fs < length fs \<Longrightarrow>
     entry_term (es ! agreement es fs) \<noteq> entry_term (fs ! agreement es fs)"
  by (induction es fs rule: agreement.induct) auto

lemma agreement_self_append [simp]:
  "agreement (es @ fs) (es @ gs) = length es + agreement fs gs"
  by (induction es) simp_all

lemma agreement_drop:
  assumes "take p es = take p fs" and "p \<le> length es" and "p \<le> length fs"
  shows "agreement es fs = p + agreement (drop p es) (drop p fs)"
proof -
  have "agreement (take p es @ drop p es) (take p fs @ drop p fs) = p + agreement (drop p es) (drop p fs)"
    unfolding assms(1) agreement_self_append using assms(3) by simp
  then show ?thesis by simp
qed

lemma agreement_full:
  assumes "log_matching es fs"
  shows "agreement es fs = length fs \<longleftrightarrow> prefix fs es"
proof
  assume "agreement es fs = length fs"
  then have "take (length fs) es = fs" using agreement_prefix [OF assms] by simp
  then show "prefix fs es" by (metis take_is_prefix)
next
  assume "prefix fs es"
  then obtain gs where "es = fs @ gs" by (rule prefixE)
  then show "agreement es fs = length fs" using agreement_self_append [of fs gs "[]"] by simp
qed

section \<open>An append entries request\<close>

text \<open>A request that a leader whose log was \<open>es\<close> made for a follower, with \<open>p\<close> entries before it.\<close>

definition request_for :: "log_entry list \<Rightarrow> nat \<Rightarrow> append_entries_request \<Rightarrow> bool" where
  "request_for es p request \<longleftrightarrow>
     p \<le> length es \<and> unat (prev_log_index request) = p \<and> prev_log_term request = term_at es p \<and>
     entries request = drop p es"

text \<open>The log that results: the longer of the two when one extends the other, else the leader's.\<close>

definition merged :: "log_entry list \<Rightarrow> log_entry list \<Rightarrow> log_entry list" where
  "merged own es = (if prefix es own then own else es)"

lemma prefix_merged [simp]: "prefix es (merged own es)"
  by (simp add: merged_def)

lemma valid_log_acceptable:
  assumes "valid_log t es"
  shows "entries_acceptable t (term_at es p) (drop p es)"
proof (cases "p \<le> length es")
  case True
  have "term_at es p \<le> entry_term e" if "e \<in> set (drop p es)" for e
  proof (cases p)
    case (Suc q)
    have "e \<in> set (drop p es)" "es ! q \<in> set (take p es)"
      using that Suc True by (auto simp: in_set_conv_nth)
    with assms have "entry_term (es ! q) \<le> entry_term e"
      using valid_log_append [of t "take p es" "drop p es"] by auto
    with Suc show ?thesis by (simp add: term_at_def)
  qed simp
  moreover have "valid_log t (drop p es)"
    using assms valid_log_append [of t "take p es" "drop p es"] by simp
  ultimately show ?thesis by (auto simp: entries_acceptable_iff)
qed simp

lemma reconciled_log_matching:
  assumes "request_for es p request" and "log_matching (log_entries s) es"
    and "valid_log (ae_term request) es" and "length es \<le> log_max_size"
  shows "reconciled_log request s =
    (if p \<le> length (log_entries s) \<and> term_at (log_entries s) p = term_at es p then
       (let k = agreement (log_entries s) es in
        if k < unat (commit_index s) \<and> k < length es \<and> k < length (log_entries s) then None
        else Some (merged (log_entries s) es))
     else None)"
proof (cases "p \<le> length (log_entries s) \<and> term_at (log_entries s) p = term_at es p")
  case True
  let ?own = "log_entries s" and ?k = "agreement (log_entries s) es"
  let ?j = "agreement (drop p (log_entries s)) (drop p es)"
  have r: "p \<le> length es" "unat (prev_log_index request) = p" "prev_log_term request = term_at es p"
    "entries request = drop p es" using assms(1) by (simp_all add: request_for_def)
  have "take p ?own = take p es"
    using log_matching_term_at [OF assms(2)] True r(1) by blast
  then have k: "?k = p + ?j" using agreement_drop True r(1) by blast
  have own: "take ?k ?own = take ?k es" by (rule agreement_prefix [OF assms(2)])
  have full: "?k = length es \<longleftrightarrow> prefix es ?own" by (rule agreement_full [OF assms(2)])
  have le: "?k \<le> length ?own" "?k \<le> length es" by (rule agreement_le)+
  have "reconcile (commit_index s) (prev_log_index request) ?own 0 (drop p es) =
     (if ?k < length es \<and> ?k < length ?own then
        (if ?k < unat (commit_index s) then None else Some (take ?k ?own, drop ?k es))
      else Some (?own, drop ?k es))"
    using reconcile_agreement [of "prev_log_index request" "drop p es" 0 ?own "commit_index s"] r True assms(4) k
    by (simp add: ac_simps less_diff_conv)
  moreover have "take ?k ?own @ drop ?k es = es" using own by simp
  moreover have "?own @ drop ?k es = merged ?own es" if "\<not> (?k < length es \<and> ?k < length ?own)"
  proof (cases "?k = length es")
    case True
    then show ?thesis using full by (simp add: merged_def)
  next
    case False
    with that le have "?k = length ?own" by simp
    then have "?own @ drop ?k es = take ?k es @ drop ?k es" using own by simp
    then have "?own @ drop ?k es = es" by simp
    then show ?thesis using False full by (simp add: merged_def)
  qed
  moreover have "merged ?own es = es" if "?k < length es" using that full by (simp add: merged_def)
  ultimately show ?thesis
    using True valid_log_acceptable [OF assms(3), of p]
    by (auto simp: reconciled_log_def r Let_def)
next
  case False
  then show ?thesis using assms(1) by (auto simp: reconciled_log_def request_for_def)
qed

text \<open>When nothing committed conflicts, only the position before the entries matters.\<close>

definition respects_commit :: "log_entry list \<Rightarrow> 'g raft_core \<Rightarrow> bool" where
  "respects_commit es s \<longleftrightarrow> (\<forall>i < unat (commit_index s). i < length es \<longrightarrow>
     i < length (log_entries s) \<longrightarrow> entry_term (log_entries s ! i) = entry_term (es ! i))"

lemma reconciled_log_committed:
  assumes "request_for es p request" and "log_matching (log_entries s) es"
    and "valid_log (ae_term request) es" and "length es \<le> log_max_size" and "respects_commit es s"
  shows "reconciled_log request s =
    (if p \<le> length (log_entries s) \<and> term_at (log_entries s) p = term_at es p
     then Some (merged (log_entries s) es) else None)"
  using agreement_stops [of "log_entries s" es] assms(5)
  unfolding reconciled_log_matching [OF assms(1-4)] respects_commit_def by (auto simp: Let_def)

end
