(* ===== verification/Raft_Protocol.thy ===== *)
theory Raft_Protocol
  imports Log_Matching
begin

text \<open>
  The Raft protocol that the cores implement, as an abstract transition system: what each node
  knows, and what has happened so far (votes cast, logs at candidacy, leaders and their logs,
  confirmed indexes).  There are no messages: a message of the code is a statement about what has
  happened, and a step that receives one requires that it is true.  The theory proves the safety
  of the protocol; the theory of the network shows that the code's nodes follow it.
\<close>

section \<open>States\<close>

record node_view =
  v_role :: node_role
  v_term :: u64
  v_vote :: "string option"
  v_log :: "log_entry list"
  v_commit :: nat
  v_votes :: "string set"
  v_match :: "string \<Rightarrow> nat"

text \<open>
  The history: who voted for whom in a term, the log of a candidate of a term, the leader of a
  term, its log (as far as it got), the index a node has confirmed to it, and its commit index.
\<close>

record protocol =
  node_at :: "string \<Rightarrow> node_view"
  h_vote :: "u64 \<Rightarrow> string \<Rightarrow> string option"
  h_candidate :: "u64 \<Rightarrow> string \<Rightarrow> log_entry list option"
  h_leader :: "u64 \<Rightarrow> string option"
  h_log :: "u64 \<Rightarrow> log_entry list"
  h_ack :: "u64 \<Rightarrow> string \<Rightarrow> nat"
  h_commit :: "u64 \<Rightarrow> nat"

text \<open>A log that a voter does not refuse: not behind its own.\<close>

definition up_to_date :: "log_entry list \<Rightarrow> log_entry list \<Rightarrow> bool" where
  "up_to_date own es \<longleftrightarrow> last_term_of own < last_term_of es \<or>
     last_term_of own = last_term_of es \<and> length own \<le> length es"

section \<open>Steps\<close>

definition followed :: "u64 \<Rightarrow> node_view \<Rightarrow> node_view" where
  "followed T v = v\<lparr>v_role := Follower, v_term := T,
     v_vote := (if v_term v < T then None else v_vote v), v_votes := {}, v_match := (\<lambda>_. 0)\<rparr>"

definition set_node :: "string \<Rightarrow> node_view \<Rightarrow> protocol \<Rightarrow> protocol" where
  "set_node n v \<sigma> = \<sigma>\<lparr>node_at := (node_at \<sigma>)(n := v)\<rparr>"

definition p_step_down :: "string \<Rightarrow> u64 \<Rightarrow> protocol \<Rightarrow> protocol" where
  "p_step_down n T \<sigma> = set_node n (followed T (node_at \<sigma> n)) \<sigma>"

definition p_restart :: "string \<Rightarrow> protocol \<Rightarrow> protocol" where
  "p_restart n \<sigma> = set_node n ((node_at \<sigma> n)\<lparr>v_role := Follower, v_votes := {}, v_match := (\<lambda>_. 0)\<rparr>) \<sigma>"

definition p_campaign :: "string \<Rightarrow> u64 \<Rightarrow> protocol \<Rightarrow> protocol" where
  "p_campaign n T \<sigma> = set_node n ((node_at \<sigma> n)\<lparr>v_role := Candidate, v_term := T, v_vote := Some n,
       v_votes := {n}, v_match := (\<lambda>_. 0)\<rparr>)
     (\<sigma>\<lparr>h_vote := (h_vote \<sigma>)(T := (h_vote \<sigma> T)(n := Some n)),
        h_candidate := (h_candidate \<sigma>)(T := (h_candidate \<sigma> T)(n := Some (v_log (node_at \<sigma> n))))\<rparr>)"

definition p_grant :: "string \<Rightarrow> string \<Rightarrow> protocol \<Rightarrow> protocol" where
  "p_grant n c \<sigma> = (let T = v_term (node_at \<sigma> n) in
     set_node n ((node_at \<sigma> n)\<lparr>v_vote := Some c\<rparr>)
       (\<sigma>\<lparr>h_vote := (h_vote \<sigma>)(T := (h_vote \<sigma> T)(n := Some c))\<rparr>))"

definition p_collect :: "string \<Rightarrow> string \<Rightarrow> protocol \<Rightarrow> protocol" where
  "p_collect n m \<sigma> = set_node n ((node_at \<sigma> n)\<lparr>v_votes := insert m (v_votes (node_at \<sigma> n))\<rparr>) \<sigma>"

definition p_win :: "string \<Rightarrow> protocol \<Rightarrow> protocol" where
  "p_win n \<sigma> = (let v = node_at \<sigma> n; T = v_term v in
     set_node n (v\<lparr>v_role := Leader, v_match := (\<lambda>_. 0)\<rparr>)
       (\<sigma>\<lparr>h_leader := (h_leader \<sigma>)(T := Some n), h_log := (h_log \<sigma>)(T := v_log v),
          h_ack := (h_ack \<sigma>)(T := (h_ack \<sigma> T)(n := length (v_log v))),
          h_commit := (h_commit \<sigma>)(T := v_commit v)\<rparr>))"

definition p_append :: "string \<Rightarrow> string \<Rightarrow> protocol \<Rightarrow> protocol" where
  "p_append n cmd \<sigma> = (let v = node_at \<sigma> n; T = v_term v;
       es = v_log v @ [\<lparr>entry_term = T, command = cmd\<rparr>] in
     set_node n (v\<lparr>v_log := es\<rparr>)
       (\<sigma>\<lparr>h_log := (h_log \<sigma>)(T := es), h_ack := (h_ack \<sigma>)(T := (h_ack \<sigma> T)(n := length es))\<rparr>))"

definition p_follow :: "string \<Rightarrow> u64 \<Rightarrow> log_entry list \<Rightarrow> nat \<Rightarrow> protocol \<Rightarrow> protocol" where
  "p_follow n T es c \<sigma> = (let v = followed T (node_at \<sigma> n) in
     set_node n (v\<lparr>v_log := merged (v_log v) es, v_commit := max (v_commit v) (min c (length es))\<rparr>)
       (\<sigma>\<lparr>h_ack := (h_ack \<sigma>)(T := (h_ack \<sigma> T)(n := max (h_ack \<sigma> T n) (length es)))\<rparr>))"

definition p_confirm :: "string \<Rightarrow> string \<Rightarrow> nat \<Rightarrow> protocol \<Rightarrow> protocol" where
  "p_confirm n m i \<sigma> = (let v = node_at \<sigma> n in
     set_node n (v\<lparr>v_match := (v_match v)(m := max (v_match v m) i)\<rparr>) \<sigma>)"

definition p_commit :: "string \<Rightarrow> nat \<Rightarrow> protocol \<Rightarrow> protocol" where
  "p_commit n i \<sigma> = (let v = node_at \<sigma> n in
     set_node n (v\<lparr>v_commit := i\<rparr>) (\<sigma>\<lparr>h_commit := (h_commit \<sigma>)(v_term v := i)\<rparr>))"

text \<open>When each step may be taken.\<close>

inductive p_step :: "(string set \<Rightarrow> bool) \<Rightarrow> protocol \<Rightarrow> protocol \<Rightarrow> bool" for quorum where
  step_down: "v_term (node_at \<sigma> n) < T \<or> v_term (node_at \<sigma> n) = T \<and> v_role (node_at \<sigma> n) \<noteq> Leader \<Longrightarrow>
    p_step quorum \<sigma> (p_step_down n T \<sigma>)"
| restart: "p_step quorum \<sigma> (p_restart n \<sigma>)"
| campaign: "v_term (node_at \<sigma> n) < T \<Longrightarrow> p_step quorum \<sigma> (p_campaign n T \<sigma>)"
| grant: "v_vote (node_at \<sigma> n) = None \<or> v_vote (node_at \<sigma> n) = Some c \<Longrightarrow>
    h_candidate \<sigma> (v_term (node_at \<sigma> n)) c = Some es \<Longrightarrow> up_to_date (v_log (node_at \<sigma> n)) es \<Longrightarrow>
    p_step quorum \<sigma> (p_grant n c \<sigma>)"
| collect: "v_role (node_at \<sigma> n) = Candidate \<Longrightarrow> h_vote \<sigma> (v_term (node_at \<sigma> n)) m = Some n \<Longrightarrow>
    p_step quorum \<sigma> (p_collect n m \<sigma>)"
| win: "v_role (node_at \<sigma> n) = Candidate \<Longrightarrow> quorum (v_votes (node_at \<sigma> n)) \<Longrightarrow>
    p_step quorum \<sigma> (p_win n \<sigma>)"
| append: "v_role (node_at \<sigma> n) = Leader \<Longrightarrow> p_step quorum \<sigma> (p_append n cmd \<sigma>)"
| follow: "v_term (node_at \<sigma> n) \<le> T \<Longrightarrow> h_leader \<sigma> T \<noteq> None \<Longrightarrow> h_leader \<sigma> T \<noteq> Some n \<Longrightarrow>
    prefix es (h_log \<sigma> T) \<Longrightarrow> c \<le> h_commit \<sigma> T \<Longrightarrow>
    take (v_commit (node_at \<sigma> n)) (merged (v_log (node_at \<sigma> n)) es) =
      take (v_commit (node_at \<sigma> n)) (v_log (node_at \<sigma> n)) \<Longrightarrow>
    p_step quorum \<sigma> (p_follow n T es c \<sigma>)"
| confirm: "v_role (node_at \<sigma> n) = Leader \<Longrightarrow> i \<le> h_ack \<sigma> (v_term (node_at \<sigma> n)) m \<Longrightarrow>
    p_step quorum \<sigma> (p_confirm n m i \<sigma>)"
| commit: "v_role (node_at \<sigma> n) = Leader \<Longrightarrow> v_commit (node_at \<sigma> n) < i \<Longrightarrow>
    i \<le> length (v_log (node_at \<sigma> n)) \<Longrightarrow> term_at (v_log (node_at \<sigma> n)) i = v_term (node_at \<sigma> n) \<Longrightarrow>
    quorum {m. m = n \<or> i \<le> v_match (node_at \<sigma> n) m} \<Longrightarrow>
    p_step quorum \<sigma> (p_commit n i \<sigma>)"

text \<open>The start: followers of term 0 with empty logs.\<close>

definition blank_view :: node_view where
  "blank_view = \<lparr>v_role = Follower, v_term = 0, v_vote = None, v_log = [], v_commit = 0, v_votes = {},
     v_match = (\<lambda>_. 0)\<rparr>"

definition p_start :: protocol where
  "p_start = \<lparr>node_at = (\<lambda>_. blank_view), h_vote = (\<lambda>_ _. None), h_candidate = (\<lambda>_ _. None),
     h_leader = (\<lambda>_. None), h_log = (\<lambda>_. []), h_ack = (\<lambda>_ _. 0), h_commit = (\<lambda>_. 0)\<rparr>"

lemmas p_defs = p_step_down_def p_restart_def p_campaign_def p_grant_def p_collect_def p_win_def
  p_append_def p_follow_def p_confirm_def p_commit_def

lemma set_node_select [simp]:
  "node_at (set_node n v \<sigma>) = (node_at \<sigma>)(n := v)" "h_vote (set_node n v \<sigma>) = h_vote \<sigma>"
  "h_candidate (set_node n v \<sigma>) = h_candidate \<sigma>" "h_leader (set_node n v \<sigma>) = h_leader \<sigma>"
  "h_log (set_node n v \<sigma>) = h_log \<sigma>" "h_ack (set_node n v \<sigma>) = h_ack \<sigma>"
  "h_commit (set_node n v \<sigma>) = h_commit \<sigma>"
  by (simp_all add: set_node_def)

lemma followed_select [simp]:
  "v_role (followed T v) = Follower" "v_term (followed T v) = T" "v_log (followed T v) = v_log v"
  "v_commit (followed T v) = v_commit v" "v_votes (followed T v) = {}"
  "v_vote (followed T v) = (if v_term v < T then None else v_vote v)"
  by (simp_all add: followed_def)

section \<open>The basic invariant\<close>

text \<open>A log is good when each of its entries was put there as in the log of the entry's leader.\<close>

definition good_log :: "protocol \<Rightarrow> log_entry list \<Rightarrow> bool" where
  "good_log \<sigma> es \<longleftrightarrow> (\<forall>i < length es.
     take (Suc i) es = take (Suc i) (h_log \<sigma> (entry_term (es ! i))))"

definition votes_inv :: "protocol \<Rightarrow> bool" where
  "votes_inv \<sigma> \<longleftrightarrow>
     (\<forall>T n c. h_vote \<sigma> T n = Some c \<longrightarrow> T \<le> v_term (node_at \<sigma> n)) \<and>
     (\<forall>n. h_vote \<sigma> (v_term (node_at \<sigma> n)) n = v_vote (node_at \<sigma> n))"

definition candidates_inv :: "protocol \<Rightarrow> bool" where
  "candidates_inv \<sigma> \<longleftrightarrow>
     (\<forall>T n es. h_candidate \<sigma> T n = Some es \<longrightarrow> T \<le> v_term (node_at \<sigma> n) \<and> T \<noteq> 0) \<and>
     (\<forall>n. v_role (node_at \<sigma> n) = Candidate \<longrightarrow>
        h_candidate \<sigma> (v_term (node_at \<sigma> n)) n = Some (v_log (node_at \<sigma> n)) \<and>
        (\<forall>m \<in> v_votes (node_at \<sigma> n). h_vote \<sigma> (v_term (node_at \<sigma> n)) m = Some n)) \<and>
     (\<forall>T n c. h_vote \<sigma> T n = Some c \<longrightarrow> h_candidate \<sigma> T c \<noteq> None)"

definition leaders_inv :: "(string set \<Rightarrow> bool) \<Rightarrow> protocol \<Rightarrow> bool" where
  "leaders_inv quorum \<sigma> \<longleftrightarrow>
     (\<forall>T n. h_leader \<sigma> T = Some n \<longrightarrow>
        (\<exists>Q. quorum Q \<and> (\<forall>m \<in> Q. h_vote \<sigma> T m = Some n)) \<and> T \<noteq> 0 \<and> T \<le> v_term (node_at \<sigma> n) \<and>
        \<not> (v_role (node_at \<sigma> n) = Candidate \<and> v_term (node_at \<sigma> n) = T)) \<and>
     (\<forall>T. h_leader \<sigma> T = None \<longrightarrow> h_log \<sigma> T = [] \<and> (\<forall>n. h_ack \<sigma> T n = 0) \<and> h_commit \<sigma> T = 0) \<and>
     (\<forall>n. v_role (node_at \<sigma> n) = Leader \<longrightarrow>
        h_leader \<sigma> (v_term (node_at \<sigma> n)) = Some n \<and>
        h_log \<sigma> (v_term (node_at \<sigma> n)) = v_log (node_at \<sigma> n) \<and>
        h_ack \<sigma> (v_term (node_at \<sigma> n)) n = length (v_log (node_at \<sigma> n)) \<and>
        h_commit \<sigma> (v_term (node_at \<sigma> n)) = v_commit (node_at \<sigma> n) \<and>
        (\<forall>m. v_match (node_at \<sigma> n) m \<le> h_ack \<sigma> (v_term (node_at \<sigma> n)) m))"

definition acks_inv :: "protocol \<Rightarrow> bool" where
  "acks_inv \<sigma> \<longleftrightarrow>
     (\<forall>T n. h_ack \<sigma> T n \<le> length (h_log \<sigma> T) \<and> (0 < h_ack \<sigma> T n \<longrightarrow> T \<le> v_term (node_at \<sigma> n))) \<and>
     (\<forall>n. prefix (take (h_ack \<sigma> (v_term (node_at \<sigma> n)) n) (h_log \<sigma> (v_term (node_at \<sigma> n))))
        (v_log (node_at \<sigma> n)))"

definition logs_inv :: "protocol \<Rightarrow> bool" where
  "logs_inv \<sigma> \<longleftrightarrow>
     (\<forall>n. good_log \<sigma> (v_log (node_at \<sigma> n)) \<and>
        (\<forall>e \<in> set (v_log (node_at \<sigma> n)). entry_term e \<le> v_term (node_at \<sigma> n))) \<and>
     (\<forall>T n es. h_candidate \<sigma> T n = Some es \<longrightarrow>
        good_log \<sigma> es \<and> (\<forall>e \<in> set es. entry_term e < T)) \<and>
     (\<forall>T. good_log \<sigma> (h_log \<sigma> T) \<and> (\<forall>e \<in> set (h_log \<sigma> T). entry_term e \<le> T))"

definition basic_inv :: "(string set \<Rightarrow> bool) \<Rightarrow> protocol \<Rightarrow> bool" where
  "basic_inv quorum \<sigma> \<longleftrightarrow> votes_inv \<sigma> \<and> candidates_inv \<sigma> \<and> leaders_inv quorum \<sigma> \<and> acks_inv \<sigma> \<and> logs_inv \<sigma>"

text \<open>Its parts as rules.\<close>

lemma basic_votes:
  assumes "basic_inv quorum \<sigma>"
  shows vote_term: "h_vote \<sigma> T n = Some c \<Longrightarrow> T \<le> v_term (node_at \<sigma> n)"
    and vote_now: "v_term (node_at \<sigma> n) = T \<Longrightarrow> h_vote \<sigma> T n = v_vote (node_at \<sigma> n)"
proof -
  have "votes_inv \<sigma>" using assms by (simp add: basic_inv_def)
  then show "h_vote \<sigma> T n = Some c \<Longrightarrow> T \<le> v_term (node_at \<sigma> n)"
    and "v_term (node_at \<sigma> n) = T \<Longrightarrow> h_vote \<sigma> T n = v_vote (node_at \<sigma> n)"
    unfolding votes_inv_def by blast+
qed

lemma basic_candidates:
  assumes "basic_inv quorum \<sigma>"
  shows candidate_term: "h_candidate \<sigma> T n = Some es \<Longrightarrow> T \<le> v_term (node_at \<sigma> n) \<and> T \<noteq> 0"
    and candidate_now: "v_role (node_at \<sigma> n) = Candidate \<Longrightarrow> v_term (node_at \<sigma> n) = T \<Longrightarrow>
      h_candidate \<sigma> T n = Some (v_log (node_at \<sigma> n))"
    and candidate_votes: "v_role (node_at \<sigma> n) = Candidate \<Longrightarrow> v_term (node_at \<sigma> n) = T \<Longrightarrow>
      m \<in> v_votes (node_at \<sigma> n) \<Longrightarrow> h_vote \<sigma> T m = Some n"
    and vote_candidate: "h_vote \<sigma> T n = Some c \<Longrightarrow> h_candidate \<sigma> T c \<noteq> None"
proof -
  have "candidates_inv \<sigma>" using assms by (simp add: basic_inv_def)
  then show "h_candidate \<sigma> T n = Some es \<Longrightarrow> T \<le> v_term (node_at \<sigma> n) \<and> T \<noteq> 0"
    and "v_role (node_at \<sigma> n) = Candidate \<Longrightarrow> v_term (node_at \<sigma> n) = T \<Longrightarrow>
      h_candidate \<sigma> T n = Some (v_log (node_at \<sigma> n))"
    and "v_role (node_at \<sigma> n) = Candidate \<Longrightarrow> v_term (node_at \<sigma> n) = T \<Longrightarrow>
      m \<in> v_votes (node_at \<sigma> n) \<Longrightarrow> h_vote \<sigma> T m = Some n"
    and "h_vote \<sigma> T n = Some c \<Longrightarrow> h_candidate \<sigma> T c \<noteq> None"
    unfolding candidates_inv_def by blast+
qed

lemma basic_leaders:
  assumes "basic_inv quorum \<sigma>"
  shows leader_term: "h_leader \<sigma> T = Some n \<Longrightarrow> T \<noteq> 0 \<and> T \<le> v_term (node_at \<sigma> n)"
    and leader_quorum: "h_leader \<sigma> T = Some n \<Longrightarrow> \<exists>Q. quorum Q \<and> (\<forall>m \<in> Q. h_vote \<sigma> T m = Some n)"
    and leader_past: "h_leader \<sigma> T = Some n \<Longrightarrow> v_role (node_at \<sigma> n) = Candidate \<Longrightarrow> v_term (node_at \<sigma> n) \<noteq> T"
    and no_leader: "h_leader \<sigma> T = None \<Longrightarrow> h_log \<sigma> T = [] \<and> h_ack \<sigma> T n = 0 \<and> h_commit \<sigma> T = 0"
  using assms unfolding basic_inv_def leaders_inv_def by simp_all

lemma basic_leading:
  assumes "basic_inv quorum \<sigma>" and "v_role (node_at \<sigma> n) = Leader" and "v_term (node_at \<sigma> n) = T"
  shows leader_now: "h_leader \<sigma> T = Some n"
    and leader_log: "h_log \<sigma> T = v_log (node_at \<sigma> n)"
    and leader_ack: "h_ack \<sigma> T n = length (v_log (node_at \<sigma> n))"
    and leader_commit: "h_commit \<sigma> T = v_commit (node_at \<sigma> n)"
    and leader_match: "v_match (node_at \<sigma> n) m \<le> h_ack \<sigma> T m"
proof -
  have "leaders_inv quorum \<sigma>" using assms(1) by (simp add: basic_inv_def)
  then show "h_leader \<sigma> T = Some n" "h_log \<sigma> T = v_log (node_at \<sigma> n)"
    "h_ack \<sigma> T n = length (v_log (node_at \<sigma> n))" "h_commit \<sigma> T = v_commit (node_at \<sigma> n)"
    "v_match (node_at \<sigma> n) m \<le> h_ack \<sigma> T m"
    using assms(2,3) unfolding leaders_inv_def by blast+
qed

lemma basic_acks:
  assumes "basic_inv quorum \<sigma>"
  shows ack_length: "h_ack \<sigma> T n \<le> length (h_log \<sigma> T)"
    and ack_term: "0 < h_ack \<sigma> T n \<Longrightarrow> T \<le> v_term (node_at \<sigma> n)"
    and ack_now: "v_term (node_at \<sigma> n) = T \<Longrightarrow> prefix (take (h_ack \<sigma> T n) (h_log \<sigma> T)) (v_log (node_at \<sigma> n))"
proof -
  have "acks_inv \<sigma>" using assms by (simp add: basic_inv_def)
  then show "h_ack \<sigma> T n \<le> length (h_log \<sigma> T)" "0 < h_ack \<sigma> T n \<Longrightarrow> T \<le> v_term (node_at \<sigma> n)"
    "v_term (node_at \<sigma> n) = T \<Longrightarrow> prefix (take (h_ack \<sigma> T n) (h_log \<sigma> T)) (v_log (node_at \<sigma> n))"
    unfolding acks_inv_def by blast+
qed

lemma basic_logs:
  assumes "basic_inv quorum \<sigma>"
  shows node_good: "good_log \<sigma> (v_log (node_at \<sigma> n))"
    and node_terms: "e \<in> set (v_log (node_at \<sigma> n)) \<Longrightarrow> entry_term e \<le> v_term (node_at \<sigma> n)"
    and candidate_good: "h_candidate \<sigma> T n = Some es \<Longrightarrow> good_log \<sigma> es"
    and candidate_terms: "h_candidate \<sigma> T n = Some es \<Longrightarrow> e \<in> set es \<Longrightarrow> entry_term e < T"
    and leader_good: "good_log \<sigma> (h_log \<sigma> T)"
    and leader_terms: "e \<in> set (h_log \<sigma> T) \<Longrightarrow> entry_term e \<le> T"
proof -
  have "logs_inv \<sigma>" using assms by (simp add: basic_inv_def)
  then show "good_log \<sigma> (v_log (node_at \<sigma> n))" "good_log \<sigma> (h_log \<sigma> T)"
    "e \<in> set (v_log (node_at \<sigma> n)) \<Longrightarrow> entry_term e \<le> v_term (node_at \<sigma> n)"
    "h_candidate \<sigma> T n = Some es \<Longrightarrow> good_log \<sigma> es"
    "h_candidate \<sigma> T n = Some es \<Longrightarrow> e \<in> set es \<Longrightarrow> entry_term e < T"
    "e \<in> set (h_log \<sigma> T) \<Longrightarrow> entry_term e \<le> T"
    unfolding logs_inv_def by blast+
qed

lemma vote_later: "basic_inv quorum \<sigma> \<Longrightarrow> v_term (node_at \<sigma> n) < T \<Longrightarrow> h_vote \<sigma> T n = None"
  using vote_term by (metis not_le option.exhaust)

lemma candidate_later: "basic_inv quorum \<sigma> \<Longrightarrow> v_term (node_at \<sigma> n) < T \<Longrightarrow> h_candidate \<sigma> T n = None"
  using candidate_term by (metis not_le option.exhaust)

lemma ack_later: "basic_inv quorum \<sigma> \<Longrightarrow> v_term (node_at \<sigma> n) < T \<Longrightarrow> h_ack \<sigma> T n = 0"
  using ack_term by (metis not_le gr0I)

text \<open>What a step never takes back.\<close>

definition history_grows :: "protocol \<Rightarrow> protocol \<Rightarrow> bool" where
  "history_grows \<sigma> \<sigma>' \<longleftrightarrow>
     (\<forall>n. v_term (node_at \<sigma> n) \<le> v_term (node_at \<sigma>' n)) \<and>
     (\<forall>T n c. h_vote \<sigma> T n = Some c \<longrightarrow> h_vote \<sigma>' T n = Some c) \<and>
     (\<forall>T n. T < v_term (node_at \<sigma> n) \<longrightarrow> h_vote \<sigma>' T n = h_vote \<sigma> T n \<and> h_ack \<sigma>' T n = h_ack \<sigma> T n) \<and>
     (\<forall>T n es. h_candidate \<sigma> T n = Some es \<longrightarrow> h_candidate \<sigma>' T n = Some es) \<and>
     (\<forall>T n. h_leader \<sigma> T = Some n \<longrightarrow> h_leader \<sigma>' T = Some n) \<and>
     (\<forall>T. prefix (h_log \<sigma> T) (h_log \<sigma>' T)) \<and>
     (\<forall>T n. h_ack \<sigma> T n \<le> h_ack \<sigma>' T n) \<and>
     (\<forall>T. h_commit \<sigma> T \<le> h_commit \<sigma>' T)"

lemma good_log_mono:
  assumes "\<forall>T. prefix (h_log \<sigma> T) (h_log \<sigma>' T)" and "good_log \<sigma> es"
  shows "good_log \<sigma>' es"
  unfolding good_log_def
proof (intro allI impI)
  fix i assume i: "i < length es"
  let ?T = "entry_term (es ! i)"
  have eq: "take (Suc i) es = take (Suc i) (h_log \<sigma> ?T)" using assms(2) i by (simp add: good_log_def)
  then have "Suc i \<le> length (h_log \<sigma> ?T)" using i by (metis length_take min.absorb_iff2 Suc_leI)
  then have "take (Suc i) (h_log \<sigma>' ?T) = take (Suc i) (h_log \<sigma> ?T)"
    using assms(1) by (auto simp: prefix_def dest!: spec [of _ ?T])
  with eq show "take (Suc i) es = take (Suc i) (h_log \<sigma>' ?T)" by simp
qed

lemma good_log_prefix: "good_log \<sigma> es \<Longrightarrow> prefix fs es \<Longrightarrow> good_log \<sigma> fs"
proof -
  assume g: "good_log \<sigma> es" and "prefix fs es"
  then obtain gs where es: "es = fs @ gs" by (auto elim: prefixE)
  show ?thesis
    unfolding good_log_def
  proof (intro allI impI)
    fix i assume i: "i < length fs"
    then have "i < length es" and same: "take (Suc i) es = take (Suc i) fs" "es ! i = fs ! i"
      by (simp_all add: es nth_append)
    with g have "take (Suc i) es = take (Suc i) (h_log \<sigma> (entry_term (es ! i)))"
      by (simp only: good_log_def)
    then show "take (Suc i) fs = take (Suc i) (h_log \<sigma> (entry_term (fs ! i)))" by (simp only: same)
  qed
qed

lemma good_log_snoc:
  assumes "good_log \<sigma> es" and "h_log \<sigma> (entry_term e) = es @ [e]"
  shows "good_log \<sigma> (es @ [e])"
  unfolding good_log_def
proof (intro allI impI)
  fix i assume "i < length (es @ [e])"
  then consider "i < length es" | "i = length es" by fastforce
  then show "take (Suc i) (es @ [e]) = take (Suc i) (h_log \<sigma> (entry_term ((es @ [e]) ! i)))"
  proof cases
    case 1
    then have "take (Suc i) es = take (Suc i) (h_log \<sigma> (entry_term (es ! i)))"
      using assms(1) by (simp only: good_log_def)
    with 1 show ?thesis by (simp add: nth_append)
  qed (simp add: assms(2))
qed

lemma good_log_merged: "good_log \<sigma> own \<Longrightarrow> good_log \<sigma> es \<Longrightarrow> good_log \<sigma> (merged own es)"
  by (simp add: merged_def)

text \<open>Two good logs match.\<close>

lemma good_logs_match:
  assumes "good_log \<sigma> es" and "good_log \<sigma> fs"
  shows "log_matching es fs"
  using assms by (simp add: log_matching_def good_log_def)

text \<open>Merging with a part of a leader's log keeps what the log shared with the leader's log.\<close>

lemma merged_keeps:
  assumes "prefix ps L" and "prefix es L" and "prefix ps own"
  shows "prefix ps (merged own es)"
proof (cases "prefix ps es")
  case False
  then have "prefix es ps" using prefix_same_cases [OF assms(1,2)] by blast
  then have "prefix es own" using assms(3) by (rule prefix_order.trans)
  then show ?thesis using assms(3) by (simp add: merged_def)
qed (use assms(3) in \<open>simp add: merged_def\<close>)

lemma merged_reaches:
  assumes "prefix es L" and "prefix (take k L) own"
  shows "prefix (take (max k (length es)) L) (merged own es)"
proof (cases "k \<le> length es")
  case True
  then have "take (max k (length es)) L = es" using assms(1) by (auto simp: prefix_def max_def)
  then show ?thesis by simp
next
  case False
  then show ?thesis using merged_keeps [OF take_is_prefix assms] by (simp add: max_def)
qed

section \<open>Committed entries\<close>

text \<open>
  An index of the log of the leader of term \<open>T\<close> can still be confirmed by a quorum: every node of
  it has confirmed the index, or has not gone on to a later term.  It is chosen when a quorum has
  confirmed it.  Both are about entries of the leader's own term.
\<close>

definition own_entry :: "protocol \<Rightarrow> u64 \<Rightarrow> nat \<Rightarrow> bool" where
  "own_entry \<sigma> T i \<longleftrightarrow> 0 < i \<and> i \<le> length (h_log \<sigma> T) \<and> term_at (h_log \<sigma> T) i = T"

definition choosable :: "(string set \<Rightarrow> bool) \<Rightarrow> protocol \<Rightarrow> u64 \<Rightarrow> nat \<Rightarrow> bool" where
  "choosable quorum \<sigma> T i \<longleftrightarrow> own_entry \<sigma> T i \<and>
     (\<exists>Q. quorum Q \<and> (\<forall>n \<in> Q. i \<le> h_ack \<sigma> T n \<or> v_term (node_at \<sigma> n) \<le> T))"

definition chosen :: "(string set \<Rightarrow> bool) \<Rightarrow> protocol \<Rightarrow> u64 \<Rightarrow> nat \<Rightarrow> bool" where
  "chosen quorum \<sigma> T i \<longleftrightarrow> own_entry \<sigma> T i \<and> (\<exists>Q. quorum Q \<and> (\<forall>n \<in> Q. i \<le> h_ack \<sigma> T n))"

lemma chosen_choosable: "chosen quorum \<sigma> T i \<Longrightarrow> choosable quorum \<sigma> T i"
  by (auto simp: chosen_def choosable_def)

text \<open>
  What may still be chosen in a term is in the log of every leader of a later term, of every node
  that has confirmed it, and of every candidate a node voted for after it had confirmed it.
\<close>

definition completeness_inv :: "(string set \<Rightarrow> bool) \<Rightarrow> protocol \<Rightarrow> bool" where
  "completeness_inv quorum \<sigma> \<longleftrightarrow> (\<forall>T T' i n. T < T' \<longrightarrow> h_leader \<sigma> T' = Some n \<longrightarrow> choosable quorum \<sigma> T i \<longrightarrow>
     prefix (take i (h_log \<sigma> T)) (h_log \<sigma> T'))"

definition retained_inv :: "(string set \<Rightarrow> bool) \<Rightarrow> protocol \<Rightarrow> bool" where
  "retained_inv quorum \<sigma> \<longleftrightarrow> (\<forall>T i n. choosable quorum \<sigma> T i \<longrightarrow> i \<le> h_ack \<sigma> T n \<longrightarrow>
     prefix (take i (h_log \<sigma> T)) (v_log (node_at \<sigma> n)))"

definition ballots_inv :: "(string set \<Rightarrow> bool) \<Rightarrow> protocol \<Rightarrow> bool" where
  "ballots_inv quorum \<sigma> \<longleftrightarrow> (\<forall>T T' i n c es. T < T' \<longrightarrow> h_vote \<sigma> T' n = Some c \<longrightarrow>
     h_candidate \<sigma> T' c = Some es \<longrightarrow> choosable quorum \<sigma> T i \<longrightarrow> i \<le> h_ack \<sigma> T n \<longrightarrow>
     prefix (take i (h_log \<sigma> T)) es)"

text \<open>The first \<open>c\<close> entries are those of an index that was chosen in some term up to \<open>T\<close>.\<close>

definition backed :: "(string set \<Rightarrow> bool) \<Rightarrow> protocol \<Rightarrow> u64 \<Rightarrow> log_entry list \<Rightarrow> nat \<Rightarrow> bool" where
  "backed quorum \<sigma> T es c \<longleftrightarrow> c = 0 \<or>
     (\<exists>T0 i. T0 \<le> T \<and> c \<le> i \<and> chosen quorum \<sigma> T0 i \<and> take c es = take c (h_log \<sigma> T0))"

definition commits_inv :: "(string set \<Rightarrow> bool) \<Rightarrow> protocol \<Rightarrow> bool" where
  "commits_inv quorum \<sigma> \<longleftrightarrow>
     (\<forall>n. backed quorum \<sigma> (v_term (node_at \<sigma> n)) (v_log (node_at \<sigma> n)) (v_commit (node_at \<sigma> n))) \<and>
     (\<forall>T. backed quorum \<sigma> T (h_log \<sigma> T) (h_commit \<sigma> T))"

definition protocol_inv :: "(string set \<Rightarrow> bool) \<Rightarrow> protocol \<Rightarrow> bool" where
  "protocol_inv quorum \<sigma> \<longleftrightarrow> basic_inv quorum \<sigma> \<and> completeness_inv quorum \<sigma> \<and>
     retained_inv quorum \<sigma> \<and> ballots_inv quorum \<sigma> \<and> commits_inv quorum \<sigma>"

lemma history_growsD:
  assumes "history_grows \<sigma> \<sigma>'"
  shows grows_term: "v_term (node_at \<sigma> n) \<le> v_term (node_at \<sigma>' n)"
    and grows_vote: "h_vote \<sigma> T n = Some c \<Longrightarrow> h_vote \<sigma>' T n = Some c"
    and grows_past: "T < v_term (node_at \<sigma> n) \<Longrightarrow> h_vote \<sigma>' T n = h_vote \<sigma> T n \<and> h_ack \<sigma>' T n = h_ack \<sigma> T n"
    and grows_candidate: "h_candidate \<sigma> T n = Some es \<Longrightarrow> h_candidate \<sigma>' T n = Some es"
    and grows_leader: "h_leader \<sigma> T = Some n \<Longrightarrow> h_leader \<sigma>' T = Some n"
    and grows_log: "prefix (h_log \<sigma> T) (h_log \<sigma>' T)"
    and grows_ack: "h_ack \<sigma> T n \<le> h_ack \<sigma>' T n"
    and grows_commit: "h_commit \<sigma> T \<le> h_commit \<sigma>' T"
  using assms unfolding history_grows_def by simp_all

lemma take_grown:
  assumes "history_grows \<sigma> \<sigma>'" and "i \<le> length (h_log \<sigma> T)"
  shows "take i (h_log \<sigma>' T) = take i (h_log \<sigma> T)"
  using grows_log [OF assms(1), of T] assms(2) by (auto simp: prefix_def)

lemma own_entry_grown:
  assumes "history_grows \<sigma> \<sigma>'" and "i \<le> length (h_log \<sigma> T)"
  shows "own_entry \<sigma>' T i \<longleftrightarrow> own_entry \<sigma> T i"
  using grows_log [OF assms(1), of T] assms(2)
  by (cases i) (auto simp: own_entry_def term_at_def prefix_def nth_append)

lemma chosen_grown:
  assumes "history_grows \<sigma> \<sigma>'" and "chosen quorum \<sigma> T i"
  shows "chosen quorum \<sigma>' T i"
  using assms own_entry_grown [OF assms(1), of i T] grows_ack [OF assms(1), of T]
  unfolding chosen_def own_entry_def by (meson le_trans)

lemma chosen_length: "chosen quorum \<sigma> T i \<Longrightarrow> 0 < i \<and> i \<le> length (h_log \<sigma> T)"
  by (simp add: chosen_def own_entry_def)

lemma backed_grown:
  assumes "history_grows \<sigma> \<sigma>'" and "backed quorum \<sigma> T es c" and "T \<le> T'" and "take c es' = take c es"
  shows "backed quorum \<sigma>' T' es' c"
proof (cases "c = 0")
  case False
  then obtain T0 i where o: "T0 \<le> T" "c \<le> i" "chosen quorum \<sigma> T0 i" "take c es = take c (h_log \<sigma> T0)"
    using assms(2) by (auto simp: backed_def)
  have "c \<le> length (h_log \<sigma> T0)" using o(2) chosen_length [OF o(3)] by simp
  then have "take c es' = take c (h_log \<sigma>' T0)" using take_grown [OF assms(1)] o(4) assms(4) by simp
  then show ?thesis
    unfolding backed_def using o chosen_grown [OF assms(1) o(3)] assms(3) by (meson order_trans)
qed (simp add: backed_def)

section \<open>Quorums\<close>

text \<open>All that the proof uses of majorities.\<close>

locale quorum_system =
  fixes quorum :: "string set \<Rightarrow> bool"
  assumes quorum_meet: "quorum A \<Longrightarrow> quorum B \<Longrightarrow> A \<inter> B \<noteq> {}"
begin

lemma quorum_common:
  assumes "quorum A" and "quorum B"
  obtains m where "m \<in> A" and "m \<in> B"
  using quorum_meet [OF assms] by blast

text \<open>A candidate that has a quorum is the first leader of its term.\<close>

lemma no_leader_before_win:
  assumes inv: "basic_inv quorum \<sigma>"
    and n: "v_role (node_at \<sigma> n) = Candidate" "quorum (v_votes (node_at \<sigma> n))"
  shows "h_leader \<sigma> (v_term (node_at \<sigma> n)) = None"
proof (rule ccontr)
  let ?T = "v_term (node_at \<sigma> n)"
  assume "h_leader \<sigma> ?T \<noteq> None"
  then obtain m where m: "h_leader \<sigma> ?T = Some m" by blast
  obtain Q where Q: "quorum Q" "\<forall>k \<in> Q. h_vote \<sigma> ?T k = Some m"
    using leader_quorum [OF inv m] by blast
  obtain k where k: "k \<in> Q" "k \<in> v_votes (node_at \<sigma> n)" using quorum_common [OF Q(1) n(2)] .
  then have "n = m" using candidate_votes [OF inv n(1) refl k(2)] Q(2) by auto
  then show False using leader_past [OF inv m] n(1) by simp
qed

lemma step_grows:
  assumes "p_step quorum \<sigma> \<sigma>'" and inv: "basic_inv quorum \<sigma>"
  shows "history_grows \<sigma> \<sigma>'"
  using assms(1)
proof cases
  case (campaign n T)
  with vote_later [OF inv] candidate_later [OF inv] show ?thesis
    by (auto simp: history_grows_def p_defs)
next
  case (grant n c es)
  with vote_now [OF inv, of n] show ?thesis by (auto simp: history_grows_def p_defs Let_def)
next
  case (win n)
  have "h_leader \<sigma> (v_term (node_at \<sigma> n)) = None" using no_leader_before_win [OF inv win(2,3)] .
  with no_leader [OF inv this] win show ?thesis by (auto simp: history_grows_def p_defs Let_def)
next
  case (append n cmd)
  with leader_log [OF inv] leader_ack [OF inv] show ?thesis by (auto simp: history_grows_def p_defs Let_def)
next
  case (commit n i)
  with leader_commit [OF inv] show ?thesis by (auto simp: history_grows_def p_defs Let_def)
qed (auto simp: history_grows_def p_defs Let_def)

lemma step_votes:
  assumes "p_step quorum \<sigma> \<sigma>'" and inv: "basic_inv quorum \<sigma>"
  shows "votes_inv \<sigma>'"
  using assms(1)
  by cases (auto simp: votes_inv_def p_defs Let_def vote_now [OF inv] vote_later [OF inv] dest: vote_term [OF inv])

lemma step_candidates:
  assumes "p_step quorum \<sigma> \<sigma>'" and inv: "basic_inv quorum \<sigma>"
  shows "candidates_inv \<sigma>'"
  using assms(1)
proof cases
  case (campaign n T)
  have "n \<notin> v_votes (node_at \<sigma> m)" if "v_role (node_at \<sigma> m) = Candidate" "v_term (node_at \<sigma> m) = T" for m
    using candidate_votes [OF inv that] vote_later [OF inv campaign(2)] by force
  with campaign candidate_now [OF inv] candidate_votes [OF inv] show ?thesis
    by (auto simp: candidates_inv_def p_defs dest: candidate_term [OF inv] vote_candidate [OF inv])
next
  case (grant n c es)
  have same: "m = c" if "n \<in> v_votes (node_at \<sigma> m)" "v_role (node_at \<sigma> m) = Candidate"
      "v_term (node_at \<sigma> m) = v_term (node_at \<sigma> n)" for m
    using candidate_votes [OF inv that(2,3,1)] vote_now [OF inv, of n] grant(2) by force
  then show ?thesis
    using grant(1,3)
    by (auto simp: candidates_inv_def p_defs Let_def candidate_now [OF inv] candidate_votes [OF inv]
        dest: candidate_term [OF inv] vote_candidate [OF inv])
qed (auto simp: candidates_inv_def p_defs Let_def candidate_now [OF inv] candidate_votes [OF inv]
  dest: candidate_term [OF inv] vote_candidate [OF inv])

lemma step_leader_election:
  assumes step: "p_step quorum \<sigma> \<sigma>'" and inv: "basic_inv quorum \<sigma>" and l: "h_leader \<sigma>' T = Some n"
  shows "\<exists>Q. quorum Q \<and> (\<forall>m \<in> Q. h_vote \<sigma>' T m = Some n)"
    and "T \<noteq> 0 \<and> T \<le> v_term (node_at \<sigma>' n)"
    and "\<not> (v_role (node_at \<sigma>' n) = Candidate \<and> v_term (node_at \<sigma>' n) = T)"
proof -
  have g: "history_grows \<sigma> \<sigma>'" using step_grows [OF step inv] .
  show "\<exists>Q. quorum Q \<and> (\<forall>m \<in> Q. h_vote \<sigma>' T m = Some n)"
  proof (cases "h_leader \<sigma> T = Some n")
    case True
    then show ?thesis using leader_quorum [OF inv True] g by (metis history_grows_def)
  next
    case False
    with step l have "v_role (node_at \<sigma> n) = Candidate" "v_term (node_at \<sigma> n) = T" "quorum (v_votes (node_at \<sigma> n))"
      by (cases; auto simp: p_defs Let_def split: if_splits)+
    with candidate_votes [OF inv] g show ?thesis by (metis history_grows_def)
  qed
  show "T \<noteq> 0 \<and> T \<le> v_term (node_at \<sigma>' n)"
    using step l
    by cases (auto simp: p_defs Let_def split: if_splits dest: leader_term [OF inv] candidate_term [OF inv]
        candidate_now [OF inv])
  show "\<not> (v_role (node_at \<sigma>' n) = Candidate \<and> v_term (node_at \<sigma>' n) = T)"
    using step l
    by cases (auto simp: p_defs Let_def split: if_splits dest: leader_term [OF inv] leader_past [OF inv])
qed

lemma step_leading:
  assumes step: "p_step quorum \<sigma> \<sigma>'" and inv: "basic_inv quorum \<sigma>" and l: "v_role (node_at \<sigma>' n) = Leader"
  defines "T \<equiv> v_term (node_at \<sigma>' n)"
  shows "h_leader \<sigma>' T = Some n \<and> h_log \<sigma>' T = v_log (node_at \<sigma>' n) \<and>
    h_ack \<sigma>' T n = length (v_log (node_at \<sigma>' n)) \<and> h_commit \<sigma>' T = v_commit (node_at \<sigma>' n)"
proof -
  have old: "h_leader \<sigma> (v_term (node_at \<sigma> m)) = Some m \<and>
      h_log \<sigma> (v_term (node_at \<sigma> m)) = v_log (node_at \<sigma> m) \<and>
      h_ack \<sigma> (v_term (node_at \<sigma> m)) m = length (v_log (node_at \<sigma> m)) \<and>
      h_commit \<sigma> (v_term (node_at \<sigma> m)) = v_commit (node_at \<sigma> m)" if "v_role (node_at \<sigma> m) = Leader" for m
    using leader_now [OF inv that] leader_log [OF inv that] leader_ack [OF inv that] leader_commit [OF inv that] by simp
  from step show ?thesis
  proof cases
    case (win k)
    then have "h_leader \<sigma> (v_term (node_at \<sigma> k)) = None" using no_leader_before_win [OF inv] by simp
    with win(1) old [of n] l show ?thesis by (auto simp: p_defs Let_def T_def split: if_splits)
  next
    case (append k cmd)
    with old [of n] old [of k] l show ?thesis by (auto simp: p_defs Let_def T_def split: if_splits)
  next
    case (commit k i)
    with old [of n] old [of k] l show ?thesis by (auto simp: p_defs Let_def T_def split: if_splits)
  qed (use old [of n] l in \<open>auto simp: p_defs Let_def T_def split: if_splits\<close>)
qed

lemma step_leaders:
  assumes step: "p_step quorum \<sigma> \<sigma>'" and inv: "basic_inv quorum \<sigma>"
  shows "leaders_inv quorum \<sigma>'"
proof -
  have g: "history_grows \<sigma> \<sigma>'" using step_grows [OF step inv] .
  have "v_match (node_at \<sigma>' n) m \<le> h_ack \<sigma>' (v_term (node_at \<sigma>' n)) m"
    if l: "v_role (node_at \<sigma>' n) = Leader" for n m
  proof -
    have "v_match (node_at \<sigma>' n) m = 0 \<or>
        v_role (node_at \<sigma> n) = Leader \<and> v_term (node_at \<sigma>' n) = v_term (node_at \<sigma> n) \<and>
        v_match (node_at \<sigma>' n) m \<le> h_ack \<sigma> (v_term (node_at \<sigma> n)) m"
      using step l by cases (auto simp: p_defs Let_def leader_match [OF inv] split: if_splits)
    with g show ?thesis by (auto simp: history_grows_def intro: order_trans)
  qed
  moreover have "h_log \<sigma>' T = [] \<and> (\<forall>n. h_ack \<sigma>' T n = 0) \<and> h_commit \<sigma>' T = 0" if "h_leader \<sigma>' T = None" for T
    using step that
    by cases (auto simp: p_defs Let_def no_leader [OF inv] leader_now [OF inv] split: if_splits)
  ultimately show ?thesis
    using step_leader_election [OF step inv] step_leading [OF step inv] unfolding leaders_inv_def by blast
qed

lemma step_acks:
  assumes step: "p_step quorum \<sigma> \<sigma>'" and inv: "basic_inv quorum \<sigma>"
  shows "acks_inv \<sigma>'"
proof -
  have old: "h_ack \<sigma> (v_term (node_at \<sigma> k)) n \<le> length (v_log (node_at \<sigma> k))"
    if "v_role (node_at \<sigma> k) = Leader" for k n
    using ack_length [OF inv, of "v_term (node_at \<sigma> k)" n] leader_log [OF inv that] by simp
  have "h_ack \<sigma>' T n \<le> length (h_log \<sigma>' T)" for T n
    using step
    by cases (auto simp: p_defs Let_def ack_length [OF inv] no_leader [OF inv] no_leader_before_win [OF inv]
      prefix_length_le old le_SucI)
  moreover have "T \<le> v_term (node_at \<sigma>' n)" if "0 < h_ack \<sigma>' T n" for T n
    using step that by cases (auto simp: p_defs Let_def split: if_splits dest: ack_term [OF inv])
  moreover have "prefix (take (h_ack \<sigma>' (v_term (node_at \<sigma>' n)) n) (h_log \<sigma>' (v_term (node_at \<sigma>' n))))
        (v_log (node_at \<sigma>' n))" for n
    using step
  proof cases
    case (win k)
    show ?thesis
      unfolding win(1) using no_leader [OF inv no_leader_before_win [OF inv win(2,3)]] ack_now [OF inv refl, of n]
      by (auto simp: p_defs Let_def)
  next
    case (append k cmd)
    have "take (h_ack \<sigma> (v_term (node_at \<sigma> k)) n) (v_log (node_at \<sigma> k) @ [e]) =
        take (h_ack \<sigma> (v_term (node_at \<sigma> k)) n) (h_log \<sigma> (v_term (node_at \<sigma> k)))" for e
      using old [OF append(2)] leader_log [OF inv append(2) refl] by simp
    then show ?thesis
      unfolding append(1) using ack_now [OF inv refl, of n] by (auto simp: p_defs Let_def)
  next
    case (follow k T es c)
    have "prefix (take (h_ack \<sigma> T k) (h_log \<sigma> T)) (v_log (node_at \<sigma> k))"
      using follow(2) ack_later [OF inv, of k T] ack_now [OF inv, of k T] by (cases "v_term (node_at \<sigma> k) = T") auto
    with merged_reaches [OF follow(5) this] show ?thesis
      unfolding follow(1) using ack_now [OF inv refl, of n] by (auto simp: p_defs Let_def)
  qed (auto simp: p_defs Let_def ack_later [OF inv] ack_now [OF inv])
  ultimately show ?thesis by (simp add: acks_inv_def)
qed

lemma step_logs:
  assumes step: "p_step quorum \<sigma> \<sigma>'" and inv: "basic_inv quorum \<sigma>"
  shows "logs_inv \<sigma>'"
proof -
  have p: "\<forall>T. prefix (h_log \<sigma> T) (h_log \<sigma>' T)"
    using step_grows [OF step inv] by (simp add: history_grows_def)
  note mono = good_log_mono [OF p]
  have node: "good_log \<sigma>' (v_log (node_at \<sigma>' n))" for n
    using step
  proof cases
    case (append k cmd)
    have "good_log \<sigma>' (v_log (node_at \<sigma> k) @ [\<lparr>entry_term = v_term (node_at \<sigma> k), command = cmd\<rparr>])"
      using append(1) by (intro good_log_snoc mono node_good [OF inv]) (simp add: p_defs Let_def)
    then show ?thesis using mono [OF node_good [OF inv]] append(1) by (simp add: p_defs Let_def)
  next
    case (follow k T es c)
    have "good_log \<sigma> es" using good_log_prefix [OF leader_good [OF inv] follow(5)] .
    then have "good_log \<sigma>' (merged (v_log (node_at \<sigma> k)) es)"
      using mono node_good [OF inv] by (blast intro: good_log_merged)
    then show ?thesis using mono [OF node_good [OF inv]] follow(1) by (simp add: p_defs Let_def)
  qed (use mono [OF node_good [OF inv]] in \<open>simp_all add: p_defs Let_def\<close>)
  have terms: "entry_term e \<le> v_term (node_at \<sigma>' n)" if "e \<in> set (v_log (node_at \<sigma>' n))" for n e
    using step
  proof cases
    case (follow k T es c)
    have "entry_term e \<le> T" if "e \<in> set es" for e
      using that follow(5) leader_terms [OF inv] set_mono_prefix by blast
    with follow(1,2) that node_terms [OF inv] show ?thesis
      by (auto simp: p_defs Let_def merged_def split: if_splits dest: order_trans [OF node_terms [OF inv]])
  qed (use that in \<open>auto simp: p_defs Let_def split: if_splits dest: node_terms [OF inv]\<close>)
  have cands: "good_log \<sigma>' es \<and> (\<forall>e \<in> set es. entry_term e < T)" if "h_candidate \<sigma>' T n = Some es" for T n es
  proof (cases "h_candidate \<sigma> T n = Some es")
    case True
    then show ?thesis using mono candidate_good [OF inv] candidate_terms [OF inv] by blast
  next
    case False
    with step that have "v_term (node_at \<sigma> n) < T \<and> es = v_log (node_at \<sigma> n)"
      by cases (auto simp: p_defs Let_def split: if_splits)
    then show ?thesis using mono node_good [OF inv] node_terms [OF inv] by (blast intro: le_less_trans)
  qed
  have leads: "good_log \<sigma>' (h_log \<sigma>' T) \<and> (\<forall>e \<in> set (h_log \<sigma>' T). entry_term e \<le> T)" for T
  proof (cases "h_log \<sigma>' T = h_log \<sigma> T")
    case True
    then show ?thesis using mono leader_good [OF inv] leader_terms [OF inv] by auto
  next
    case False
    have "\<exists>n. v_term (node_at \<sigma>' n) = T \<and> h_log \<sigma>' T = v_log (node_at \<sigma>' n)"
      using step
    proof cases
      case (win n)
      with False show ?thesis by (intro exI [of _ n]) (auto simp: p_defs Let_def split: if_splits)
    next
      case (append n cmd)
      with False show ?thesis by (intro exI [of _ n]) (auto simp: p_defs Let_def split: if_splits)
    qed (use False in \<open>simp_all add: p_defs Let_def\<close>)
    then show ?thesis using node terms by metis
  qed
  from node terms cands leads show ?thesis unfolding logs_inv_def by blast
qed

lemma step_basic:
  assumes "p_step quorum \<sigma> \<sigma>'" and "basic_inv quorum \<sigma>"
  shows "basic_inv quorum \<sigma>'"
  using step_votes [OF assms] step_candidates [OF assms] step_leaders [OF assms] step_acks [OF assms]
    step_logs [OF assms] by (simp add: basic_inv_def)

text \<open>What can be chosen after a step could be chosen before it, unless the step put it into the log.\<close>

lemma choosable_before:
  assumes step: "p_step quorum \<sigma> \<sigma>'" and inv: "basic_inv quorum \<sigma>" and "choosable quorum \<sigma>' T i"
  obtains (old) "choosable quorum \<sigma> T i" and "i \<le> length (h_log \<sigma> T)"
      and "take i (h_log \<sigma>' T) = take i (h_log \<sigma> T)"
    | (new) n cmd where "\<sigma>' = p_append n cmd \<sigma>" and "v_role (node_at \<sigma> n) = Leader"
      and "v_term (node_at \<sigma> n) = T" and "i = Suc (length (h_log \<sigma> T))"
proof -
  have g: "history_grows \<sigma> \<sigma>'" using step_grows [OF step inv] .
  obtain Q where own: "own_entry \<sigma>' T i" and Q: "quorum Q" "\<forall>n \<in> Q. i \<le> h_ack \<sigma>' T n \<or> v_term (node_at \<sigma>' n) \<le> T"
    using assms(3) by (auto simp: choosable_def)
  show thesis
  proof (cases "i \<le> length (h_log \<sigma> T)")
    case True
    have "i \<le> h_ack \<sigma> T n \<or> v_term (node_at \<sigma> n) \<le> T" if "n \<in> Q" for n
      using Q(2) that grows_past [OF g, of T n] grows_term [OF g, of n] by (metis not_le order_trans)
    then have "choosable quorum \<sigma> T i"
      using own own_entry_grown [OF g True] Q(1) by (auto simp: choosable_def)
    then show thesis using True take_grown [OF g True] by (rule old)
  next
    case False
    have own': "i \<le> length (h_log \<sigma>' T)" "term_at (h_log \<sigma>' T) i = T" "0 < i" using own by (auto simp: own_entry_def)
    from step show thesis
    proof cases
      case (win n)
      have "h_log \<sigma>' T = v_log (node_at \<sigma> n) \<and> T = v_term (node_at \<sigma> n)"
        using own'(1) False win(1) by (auto simp: p_defs Let_def split: if_splits)
      then have "i \<le> length (v_log (node_at \<sigma> n))" "entry_term (v_log (node_at \<sigma> n) ! (i - 1)) = v_term (node_at \<sigma> n)"
        using own' by (auto simp: term_at_def)
      moreover have "v_log (node_at \<sigma> n) ! (i - 1) \<in> set (v_log (node_at \<sigma> n))"
        using calculation(1) own'(3) by simp
      ultimately have False
        using candidate_terms [OF inv candidate_now [OF inv win(2) refl]] by fastforce
      then show thesis ..
    next
      case (append n cmd)
      then have "T = v_term (node_at \<sigma> n)" using own'(1) False by (auto simp: p_defs Let_def split: if_splits)
      moreover from this have "i = Suc (length (h_log \<sigma> T))"
        using own'(1) False leader_log [OF inv append(2)] append(1) by (simp add: p_defs Let_def)
      ultimately show thesis using append by (intro new [of n cmd]) simp_all
    qed (use own'(1) False in \<open>auto simp: p_defs Let_def\<close>)
  qed
qed

section \<open>Leader completeness\<close>

lemma ack_changes:
  "p_step quorum \<sigma> \<sigma>' \<Longrightarrow> h_ack \<sigma>' T n \<noteq> h_ack \<sigma> T n \<Longrightarrow> v_term (node_at \<sigma>' n) = T"
  by (erule p_step.cases) (auto simp: p_defs Let_def split: if_splits)

text \<open>The appended entry has not been confirmed by any other node.\<close>

lemma new_entry_unconfirmed:
  assumes "basic_inv quorum \<sigma>" and "\<sigma>' = p_append k cmd \<sigma>" and "v_term (node_at \<sigma> k) = T"
    and "i = Suc (length (h_log \<sigma> T))" and "i \<le> h_ack \<sigma>' T n"
  shows "n = k"
  using ack_length [OF assms(1), of T n] assms(2-5) by (auto simp: p_defs Let_def split: if_splits)

lemma up_to_date_contains:
  assumes inv: "basic_inv quorum \<sigma>" and complete: "completeness_inv quorum \<sigma>"
    and ch: "choosable quorum \<sigma> T i" and own: "prefix (take i (h_log \<sigma> T)) own" "good_log \<sigma> own"
    and es: "good_log \<sigma> es" "up_to_date own es"
  shows "prefix (take i (h_log \<sigma> T)) es"
proof -
  let ?P = "take i (h_log \<sigma> T)"
  have i: "0 < i" "length ?P = i" "entry_term (?P ! (i - 1)) = T"
    using ch by (auto simp: choosable_def own_entry_def term_at_def)
  have len: "i \<le> length own" using own(1) i(2) prefix_length_le by force
  have nth: "own ! (i - 1) = ?P ! (i - 1)" using own(1) i(1,2) by (auto simp: prefix_def nth_append)
  have last: "fs = take (length fs) (h_log \<sigma> (last_term_of fs))" if "good_log \<sigma> fs" "fs \<noteq> []" for fs
  proof -
    have "take (Suc (length fs - 1)) fs = take (Suc (length fs - 1)) (h_log \<sigma> (entry_term (fs ! (length fs - 1))))"
      using that unfolding good_log_def by (metis Suc_pred diff_Suc_1 length_greater_0_conv lessI)
    then show ?thesis using that(2) by (simp add: last_term_of_def last_conv_nth)
  qed
  have "own ! (i - 1) \<in> set own" using len i(1) by simp
  moreover have "own \<noteq> []" using len i(1) by auto
  ultimately have "own ! (i - 1) \<in> set (h_log \<sigma> (last_term_of own))"
    using last [OF own(2)] by (metis in_set_takeD)
  then have tv: "T \<le> last_term_of own" using leader_terms [OF inv] nth i(3) by metis
  have ne: "es \<noteq> []" using es(2) \<open>own \<noteq> []\<close> by (auto simp: up_to_date_def last_term_of_def)
  let ?L = "last_term_of es"
  have E: "es = take (length es) (h_log \<sigma> ?L)" by (rule last [OF es(1) ne])
  have le: "T \<le> ?L" using tv es(2) by (auto simp: up_to_date_def)
  show ?thesis
  proof (cases "T = ?L")
    case True
    then have "length own \<le> length es" using tv es(2) by (auto simp: up_to_date_def)
    with len have "?P = take i es" by (subst E) (simp add: True min_def)
    then show ?thesis by (simp add: take_is_prefix)
  next
    case False
    have "h_log \<sigma> ?L \<noteq> []" using E ne by (metis take_Nil)
    then obtain m where "h_leader \<sigma> ?L = Some m" using no_leader [OF inv, of ?L] by auto
    then have P: "prefix ?P (h_log \<sigma> ?L)"
      using complete ch le False by (auto simp: completeness_inv_def order_less_le)
    have "prefix es (h_log \<sigma> ?L)" using E by (metis take_is_prefix)
    with P consider "prefix ?P es" | "prefix es ?P" using prefix_same_cases by blast
    then show ?thesis
    proof cases
      case 2
      then have "last es \<in> set ?P" using ne set_mono_prefix by fastforce
      then have "?L \<le> T" using leader_terms [OF inv] ne by (auto simp: last_term_of_def dest: in_set_takeD)
      with le False show ?thesis by simp
    qed
  qed
qed

lemma step_completeness:
  assumes step: "p_step quorum \<sigma> \<sigma>'" and inv: "protocol_inv quorum \<sigma>"
  shows "completeness_inv quorum \<sigma>'"
  unfolding completeness_inv_def
proof (intro allI impI)
  fix T T' i n
  assume lt: "T < T'" and l: "h_leader \<sigma>' T' = Some n" and ch: "choosable quorum \<sigma>' T i"
  have b: "basic_inv quorum \<sigma>" and c: "completeness_inv quorum \<sigma>" and w: "ballots_inv quorum \<sigma>"
    using inv by (simp_all add: protocol_inv_def)
  have g: "history_grows \<sigma> \<sigma>'" using step_grows [OF step b] .
  obtain Q where Q: "quorum Q" "\<forall>m \<in> Q. i \<le> h_ack \<sigma>' T m \<or> v_term (node_at \<sigma>' m) \<le> T"
    using ch by (auto simp: choosable_def)
  obtain Q' where Q': "quorum Q'" "\<forall>m \<in> Q'. h_vote \<sigma>' T' m = Some n"
    using step_leader_election(1) [OF step b l] by blast
  obtain m where m: "m \<in> Q" "m \<in> Q'" using quorum_common [OF Q(1) Q'(1)] .
  have "T' \<le> v_term (node_at \<sigma>' m)" using vote_term [OF step_basic [OF step b]] Q'(2) m(2) by blast
  with lt have later: "T < v_term (node_at \<sigma>' m)" by simp
  then have "i \<le> h_ack \<sigma>' T m" using Q(2) m(1) by auto
  moreover have "h_ack \<sigma>' T m = h_ack \<sigma> T m" using ack_changes [OF step] later by auto
  ultimately have am: "i \<le> h_ack \<sigma> T m" by simp
  from step b ch show "prefix (take i (h_log \<sigma>' T)) (h_log \<sigma>' T')"
  proof (cases rule: choosable_before)
    case old
    have "prefix (take i (h_log \<sigma> T)) (h_log \<sigma>' T')"
    proof (cases "h_leader \<sigma> T' = Some n")
      case True
      then have "prefix (take i (h_log \<sigma> T)) (h_log \<sigma> T')"
        using c lt old(1) by (auto simp: completeness_inv_def)
      then show ?thesis using grows_log [OF g] by (rule prefix_order.trans)
    next
      case False
      with step l have won: "v_role (node_at \<sigma> n) = Candidate" "v_term (node_at \<sigma> n) = T'"
          "h_log \<sigma>' T' = v_log (node_at \<sigma> n)" "h_vote \<sigma>' = h_vote \<sigma>"
        by (cases; auto simp: p_defs Let_def split: if_splits)+
      have "h_vote \<sigma> T' m = Some n" using Q'(2) m(2) won(4) by auto
      then show ?thesis
        using w lt candidate_now [OF b won(1,2)] old(1) am won(3) unfolding ballots_inv_def by metis
    qed
    then show ?thesis using old(3) by simp
  next
    case (new k cmd)
    then show ?thesis using ack_length [OF b, of T m] am by simp
  qed
qed

lemma step_retained:
  assumes step: "p_step quorum \<sigma> \<sigma>'" and inv: "protocol_inv quorum \<sigma>"
  shows "retained_inv quorum \<sigma>'"
  unfolding retained_inv_def
proof (intro allI impI)
  fix T i n
  assume ch: "choosable quorum \<sigma>' T i" and a: "i \<le> h_ack \<sigma>' T n"
  have b: "basic_inv quorum \<sigma>" and c: "completeness_inv quorum \<sigma>" and r: "retained_inv quorum \<sigma>"
    using inv by (simp_all add: protocol_inv_def)
  show "prefix (take i (h_log \<sigma>' T)) (v_log (node_at \<sigma>' n))"
  proof (cases "v_term (node_at \<sigma>' n) = T")
    case True
    have "prefix (take (h_ack \<sigma>' T n) (h_log \<sigma>' T)) (v_log (node_at \<sigma>' n))"
      using ack_now [OF step_basic [OF step b] True] .
    moreover have "prefix (take i (h_log \<sigma>' T)) (take (h_ack \<sigma>' T n) (h_log \<sigma>' T))"
      using a by (metis min.absorb1 take_is_prefix take_take)
    ultimately show ?thesis by (rule prefix_order.trans [rotated])
  next
    case False
    then have a': "i \<le> h_ack \<sigma> T n" using a ack_changes [OF step] by metis
    from step b ch show ?thesis
    proof (cases rule: choosable_before)
      case old
      have P: "prefix (take i (h_log \<sigma> T)) (v_log (node_at \<sigma> n))"
        using r old(1) a' by (simp add: retained_inv_def)
      have "prefix (take i (h_log \<sigma> T)) (v_log (node_at \<sigma>' n))"
        using step
      proof cases
        case (append k cmd)
        then show ?thesis using P by (cases "n = k") (simp_all add: p_defs Let_def prefix_prefix)
      next
        case (follow k T2 es c2)
        have "prefix (take i (h_log \<sigma> T)) (h_log \<sigma> T2)" if k: "k = n"
        proof -
          have "0 < i" using old(1) by (simp add: choosable_def own_entry_def)
          then have "T \<le> T2" using ack_term [OF b, of T n] a' follow(2) k by force
          then show ?thesis
          proof (cases "T = T2")
            case False
            with \<open>T \<le> T2\<close> have "T < T2" by simp
            then show ?thesis using c follow(3) old(1) unfolding completeness_inv_def by blast
          qed (simp add: take_is_prefix)
        qed
        with merged_keeps [OF _ follow(5)] P show ?thesis
          unfolding follow(1) by (auto simp: p_defs Let_def)
      qed (use P in \<open>auto simp: p_defs Let_def\<close>)
      then show ?thesis using old(3) by simp
    next
      case (new k cmd)
      then show ?thesis using ack_length [OF b, of T n] a' by simp
    qed
  qed
qed

lemma step_ballots:
  assumes step: "p_step quorum \<sigma> \<sigma>'" and inv: "protocol_inv quorum \<sigma>"
  shows "ballots_inv quorum \<sigma>'"
  unfolding ballots_inv_def
proof (intro allI impI)
  fix T T' i n c es
  assume lt: "T < T'" and v: "h_vote \<sigma>' T' n = Some c" and e: "h_candidate \<sigma>' T' c = Some es"
    and ch: "choosable quorum \<sigma>' T i" and a: "i \<le> h_ack \<sigma>' T n"
  have b: "basic_inv quorum \<sigma>" and cm: "completeness_inv quorum \<sigma>" and r: "retained_inv quorum \<sigma>"
    and w: "ballots_inv quorum \<sigma>" using inv by (simp_all add: protocol_inv_def)
  have "T' \<le> v_term (node_at \<sigma>' n)" using vote_term [OF step_basic [OF step b] v] .
  then have "v_term (node_at \<sigma>' n) \<noteq> T" using lt by auto
  then have a': "i \<le> h_ack \<sigma> T n" using a ack_changes [OF step] by metis
  from step b ch show "prefix (take i (h_log \<sigma>' T)) es"
  proof (cases rule: choosable_before)
    case old
    have P: "prefix (take i (h_log \<sigma> T)) (v_log (node_at \<sigma> n))"
      using r old(1) a' by (simp add: retained_inv_def)
    have "prefix (take i (h_log \<sigma> T)) es"
    proof (cases "h_vote \<sigma> T' n = Some c")
      case True
      then obtain fs where "h_candidate \<sigma> T' c = Some fs" using vote_candidate [OF b] by blast
      moreover from this have "fs = es" using grows_candidate [OF step_grows [OF step b]] e by force
      ultimately show ?thesis using w lt True old(1) a' unfolding ballots_inv_def by blast
    next
      case False
      from step show ?thesis
      proof cases
        case (campaign k T2)
        then have "c = n" "es = v_log (node_at \<sigma> n)"
          using v e False by (auto simp: p_defs split: if_splits)
        then show ?thesis using P by simp
      next
        case (grant k c2 fs)
        then have "up_to_date (v_log (node_at \<sigma> n)) es" "h_candidate \<sigma> T' c = Some es"
          using v e False by (auto simp: p_defs Let_def split: if_splits)
        then show ?thesis
          using up_to_date_contains [OF b cm old(1) P node_good [OF b] candidate_good [OF b]] by blast
      qed (use v False in \<open>auto simp: p_defs Let_def\<close>)
    qed
    then show ?thesis using old(3) by simp
  next
    case (new k cmd)
    then show ?thesis using ack_length [OF b, of T n] a' by simp
  qed
qed

section \<open>Commits\<close>

lemma backed_length: "backed quorum \<sigma> T es c \<Longrightarrow> c \<le> length es"
proof (cases "c = 0")
  case False
  assume "backed quorum \<sigma> T es c"
  with False obtain T0 i where "c \<le> i" "chosen quorum \<sigma> T0 i" "take c es = take c (h_log \<sigma> T0)"
    by (auto simp: backed_def)
  moreover from this have "c \<le> length (h_log \<sigma> T0)" using chosen_length by (metis order_trans)
  ultimately show ?thesis by (metis length_take min.absorb_iff2)
qed simp

lemma backed_less:
  assumes "backed quorum \<sigma> T es c" and "d \<le> c"
  shows "backed quorum \<sigma> T es d"
proof (cases "c = 0")
  case False
  then obtain T0 i where o: "T0 \<le> T" "c \<le> i" "chosen quorum \<sigma> T0 i" "take c es = take c (h_log \<sigma> T0)"
    using assms(1) by (auto simp: backed_def)
  then have "take d es = take d (h_log \<sigma> T0)" using assms(2) by (metis min.absorb1 take_take)
  with o assms(2) show ?thesis unfolding backed_def by (meson order_trans)
qed (use assms in \<open>simp add: backed_def\<close>)

lemma commit_chosen:
  assumes inv: "basic_inv quorum \<sigma>" and l: "v_role (node_at \<sigma> n) = Leader" "v_term (node_at \<sigma> n) = T"
    and i: "v_commit (node_at \<sigma> n) < i" "i \<le> length (v_log (node_at \<sigma> n))" "term_at (v_log (node_at \<sigma> n)) i = T"
    and q: "quorum {m. m = n \<or> i \<le> v_match (node_at \<sigma> n) m}"
  shows "chosen quorum \<sigma> T i"
proof -
  have "\<forall>m \<in> {m. m = n \<or> i \<le> v_match (node_at \<sigma> n) m}. i \<le> h_ack \<sigma> T m"
    using leader_ack [OF inv l] leader_match [OF inv l] i(2) by (auto intro: order_trans)
  then show ?thesis
    using q i leader_log [OF inv l] unfolding chosen_def own_entry_def by auto
qed

lemma step_commits:
  assumes step: "p_step quorum \<sigma> \<sigma>'" and inv: "protocol_inv quorum \<sigma>"
  shows "commits_inv quorum \<sigma>'"
proof -
  have b: "basic_inv quorum \<sigma>" and cm: "commits_inv quorum \<sigma>" using inv by (simp_all add: protocol_inv_def)
  have g: "history_grows \<sigma> \<sigma>'" using step_grows [OF step b] .
  have old: "backed quorum \<sigma> (v_term (node_at \<sigma> n)) (v_log (node_at \<sigma> n)) (v_commit (node_at \<sigma> n))"
    and oldh: "backed quorum \<sigma> T (h_log \<sigma> T) (h_commit \<sigma> T)" for n T
    using cm by (simp_all add: commits_inv_def)
  have same: "backed quorum \<sigma>' (v_term (node_at \<sigma>' n)) es (v_commit (node_at \<sigma> n))"
    if "take (v_commit (node_at \<sigma> n)) es = take (v_commit (node_at \<sigma> n)) (v_log (node_at \<sigma> n))" for n es
    using backed_grown [OF g old grows_term [OF g] that] .
  have node: "backed quorum \<sigma>' (v_term (node_at \<sigma>' n)) (v_log (node_at \<sigma>' n)) (v_commit (node_at \<sigma>' n))" for n
    using step
  proof cases
    case (append k cmd)
    then show ?thesis using same [of n "v_log (node_at \<sigma>' n)"] backed_length [OF old, of n]
      by (auto simp: p_defs Let_def)
  next
    case (follow k T es c)
    show ?thesis
    proof (cases "n = k \<and> v_commit (node_at \<sigma> n) < min c (length es)")
      case True
      let ?d = "min c (length es)"
      have "backed quorum \<sigma> T (h_log \<sigma> T) ?d"
        using backed_less [OF oldh] follow(6) by (metis min.coboundedI1)
      moreover have "take ?d (merged (v_log (node_at \<sigma> n)) es) = take ?d (h_log \<sigma> T)"
        using prefix_merged [of es "v_log (node_at \<sigma> n)"] follow(5) by (auto simp: prefix_def)
      ultimately have "backed quorum \<sigma>' T (merged (v_log (node_at \<sigma> n)) es) ?d"
        using backed_grown [OF g _ order_refl] by blast
      moreover have "v_term (node_at \<sigma>' n) = T" "v_log (node_at \<sigma>' n) = merged (v_log (node_at \<sigma> n)) es"
        "v_commit (node_at \<sigma>' n) = max (v_commit (node_at \<sigma> n)) ?d"
        using True follow(1) by (simp_all add: p_defs Let_def)
      moreover have "max (v_commit (node_at \<sigma> n)) ?d = ?d" using True by (intro max_absorb2) (metis less_imp_le)
      ultimately show ?thesis by simp
    next
      case False
      then have "v_commit (node_at \<sigma>' n) = v_commit (node_at \<sigma> n)"
        using follow(1) by (auto simp: p_defs Let_def max_def)
      moreover have "take (v_commit (node_at \<sigma> n)) (v_log (node_at \<sigma>' n)) = take (v_commit (node_at \<sigma> n)) (v_log (node_at \<sigma> n))"
        using follow(1,7) by (auto simp: p_defs Let_def)
      ultimately show ?thesis using same by simp
    qed
  next
    case (commit k i)
    show ?thesis
    proof (cases "n = k")
      case True
      have "chosen quorum \<sigma>' (v_term (node_at \<sigma> k)) i"
        using commit_chosen [OF b commit(2) refl commit(3-6)] chosen_grown [OF g] by blast
      then show ?thesis
        using True commit(1) leader_log [OF b commit(2) refl] unfolding backed_def
        by (intro disjI2 exI [of _ "v_term (node_at \<sigma> k)"] exI [of _ i]) (simp add: p_defs Let_def)
    qed (use same [of n "v_log (node_at \<sigma> n)"] commit(1) in \<open>simp add: p_defs Let_def\<close>)
  qed (use same [of n "v_log (node_at \<sigma> n)"] in \<open>auto simp: p_defs Let_def\<close>)
  have hist: "backed quorum \<sigma>' T (h_log \<sigma>' T) (h_commit \<sigma>' T)" for T
  proof (cases "h_commit \<sigma>' T = h_commit \<sigma> T")
    case True
    then show ?thesis
      using backed_grown [OF g oldh order_refl] take_grown [OF g backed_length [OF oldh]] by simp
  next
    case False
    from step have "\<exists>n. T = v_term (node_at \<sigma>' n) \<and> h_log \<sigma>' T = v_log (node_at \<sigma>' n) \<and>
        h_commit \<sigma>' T = v_commit (node_at \<sigma>' n)"
    proof cases
      case (win n)
      with False show ?thesis by (intro exI [of _ n]) (auto simp: p_defs Let_def split: if_splits)
    next
      case (commit n i)
      with False leader_log [OF b commit(2) refl] show ?thesis
        by (intro exI [of _ n]) (auto simp: p_defs Let_def split: if_splits)
    qed (use False in \<open>simp_all add: p_defs Let_def\<close>)
    then show ?thesis using node by metis
  qed
  from node hist show ?thesis by (simp add: commits_inv_def)
qed

lemma step_protocol_inv:
  assumes "p_step quorum \<sigma> \<sigma>'" and "protocol_inv quorum \<sigma>"
  shows "protocol_inv quorum \<sigma>'"
proof -
  have "basic_inv quorum \<sigma>" using assms(2) by (simp add: protocol_inv_def)
  then show ?thesis
    using step_basic [OF assms(1)] step_completeness [OF assms] step_retained [OF assms] step_ballots [OF assms]
      step_commits [OF assms] by (simp add: protocol_inv_def)
qed

lemma protocol_inv_start: "protocol_inv quorum p_start"
proof -
  have "basic_inv quorum p_start"
    by (auto simp: basic_inv_def votes_inv_def candidates_inv_def leaders_inv_def acks_inv_def logs_inv_def
        p_start_def blank_view_def good_log_def)
  then show ?thesis
    by (auto simp: protocol_inv_def completeness_inv_def retained_inv_def ballots_inv_def commits_inv_def
        backed_def choosable_def own_entry_def p_start_def blank_view_def)
qed

lemma steps_protocol_inv: "(p_step quorum)\<^sup>*\<^sup>* p_start \<sigma> \<Longrightarrow> protocol_inv quorum \<sigma>"
  by (induction rule: rtranclp_induct) (auto intro: protocol_inv_start step_protocol_inv)

section \<open>Safety\<close>

lemma one_leader:
  assumes "protocol_inv quorum \<sigma>" and "v_role (node_at \<sigma> n) = Leader" and "v_role (node_at \<sigma> m) = Leader"
    and "v_term (node_at \<sigma> n) = v_term (node_at \<sigma> m)"
  shows "n = m"
proof -
  have b: "basic_inv quorum \<sigma>" using assms(1) by (simp add: protocol_inv_def)
  show ?thesis using leader_now [OF b assms(2,4)] leader_now [OF b assms(3) refl] by simp
qed

lemma all_logs_match:
  assumes "protocol_inv quorum \<sigma>"
  shows "log_matching (v_log (node_at \<sigma> n)) (v_log (node_at \<sigma> m))"
proof -
  have b: "basic_inv quorum \<sigma>" using assms(1) by (simp add: protocol_inv_def)
  show ?thesis using good_logs_match [OF node_good [OF b] node_good [OF b]] .
qed

text \<open>What is chosen is in the log of every leader from its term on.\<close>

lemma chosen_in_leader:
  assumes inv: "protocol_inv quorum \<sigma>" and ch: "chosen quorum \<sigma> T0 i" and "T0 \<le> T" and "h_leader \<sigma> T \<noteq> None"
  shows "prefix (take i (h_log \<sigma> T0)) (h_log \<sigma> T)"
proof (cases "T0 = T")
  case False
  with assms(3) have "T0 < T" by simp
  moreover have "completeness_inv quorum \<sigma>" using inv by (simp add: protocol_inv_def)
  ultimately show ?thesis
    using assms(4) chosen_choosable [OF ch] unfolding completeness_inv_def by blast
qed (simp add: take_is_prefix)

lemma chosen_has_leader:
  assumes "basic_inv quorum \<sigma>" and "chosen quorum \<sigma> T i"
  shows "h_leader \<sigma> T \<noteq> None"
proof
  assume "h_leader \<sigma> T = None"
  then have "h_log \<sigma> T = []" using no_leader [OF assms(1)] by blast
  then show False using chosen_length [OF assms(2)] by auto
qed

lemma backed_agree:
  assumes inv: "protocol_inv quorum \<sigma>" and x: "backed quorum \<sigma> T es c" and y: "backed quorum \<sigma> T' fs d"
  shows "take (min c d) es = take (min c d) fs"
proof (cases "min c d = 0")
  case False
  let ?k = "min c d"
  have b: "basic_inv quorum \<sigma>" using inv by (simp add: protocol_inv_def)
  obtain T0 i where o: "c \<le> i" "chosen quorum \<sigma> T0 i" "take c es = take c (h_log \<sigma> T0)"
    using x False by (auto simp: backed_def)
  obtain T1 j where p: "d \<le> j" "chosen quorum \<sigma> T1 j" "take d fs = take d (h_log \<sigma> T1)"
    using y False by (auto simp: backed_def)
  have same: "take k (h_log \<sigma> S) = take k (h_log \<sigma> S')"
    if "chosen quorum \<sigma> S i" "S \<le> S'" "chosen quorum \<sigma> S' i'" "k \<le> i" for S S' i i' k
  proof -
    have "prefix (take i (h_log \<sigma> S)) (h_log \<sigma> S')"
      using chosen_in_leader [OF inv that(1,2) chosen_has_leader [OF b that(3)]] .
    then have "take i (h_log \<sigma> S) = take i (h_log \<sigma> S')"
      using chosen_length [OF that(1)] by (auto simp: prefix_def)
    then show ?thesis using that(4) by (metis min.absorb1 take_take)
  qed
  have "?k \<le> i" "?k \<le> j" using o(1) p(1) by simp_all
  then have "take ?k (h_log \<sigma> T0) = take ?k (h_log \<sigma> T1)"
    using same [OF o(2) _ p(2)] same [OF p(2) _ o(2)] by (metis linear)
  moreover have "take ?k es = take ?k (h_log \<sigma> T0)" using o(3) by (metis min.cobounded1 min.absorb1 take_take)
  moreover have "take ?k fs = take ?k (h_log \<sigma> T1)" using p(3) by (metis take_take)
  ultimately show ?thesis by simp
qed simp

text \<open>A leader holds everything that was committed up to its term.\<close>

lemma leader_holds_backed:
  assumes inv: "protocol_inv quorum \<sigma>" and l: "v_role (node_at \<sigma> n) = Leader"
    and ba: "backed quorum \<sigma> T es c" and le: "T \<le> v_term (node_at \<sigma> n)"
  shows "prefix (take c es) (v_log (node_at \<sigma> n))"
proof (cases "c = 0")
  case False
  have b: "basic_inv quorum \<sigma>" using inv by (simp add: protocol_inv_def)
  obtain T0 i where o: "T0 \<le> T" "c \<le> i" "chosen quorum \<sigma> T0 i" "take c es = take c (h_log \<sigma> T0)"
    using False ba by (auto simp: backed_def)
  have "prefix (take i (h_log \<sigma> T0)) (v_log (node_at \<sigma> n))"
    using chosen_in_leader [OF inv o(3)] o(1) le leader_now [OF b l refl] leader_log [OF b l refl]
    by (metis option.distinct(1) order_trans)
  moreover have "prefix (take c (h_log \<sigma> T0)) (take i (h_log \<sigma> T0))"
    using o(2) by (metis min.absorb1 take_is_prefix take_take)
  ultimately show ?thesis using o(4) by (metis prefix_order.trans)
qed simp

lemma commits_backed:
  "protocol_inv quorum \<sigma> \<Longrightarrow> backed quorum \<sigma> (v_term (node_at \<sigma> m)) (v_log (node_at \<sigma> m)) (v_commit (node_at \<sigma> m))"
  by (simp add: protocol_inv_def commits_inv_def)

end

section \<open>Majorities\<close>

definition majority_of :: "string list \<Rightarrow> string set \<Rightarrow> bool" where
  "majority_of ms A \<longleftrightarrow> length ms < 2 * card (A \<inter> set ms)"

lemma majorities_meet:
  assumes "majority_of ms A" and "majority_of ms B"
  shows "A \<inter> B \<noteq> {}"
proof
  assume e: "A \<inter> B = {}"
  have "card ((A \<inter> set ms) \<union> (B \<inter> set ms)) = card (A \<inter> set ms) + card (B \<inter> set ms)"
    using e by (intro card_Un_disjoint) auto
  moreover have "card ((A \<inter> set ms) \<union> (B \<inter> set ms)) \<le> card (set ms)"
    by (intro card_mono) auto
  moreover have "card (set ms) \<le> length ms" by (rule card_length)
  ultimately show False using assms by (simp add: majority_of_def)
qed

interpretation majority: quorum_system "majority_of ms" for ms
  by unfold_locales (rule majorities_meet)

end
