(* ===== verification/Raft_Applied.thy ===== *)
theory Raft_Applied
  imports Raft_Durability
begin

text \<open>
  What is committed is applied: every call that returns leaves no committed entry that the key-value
  store has not seen.
\<close>

definition all_applied :: "'g raft_core \<Rightarrow> bool" where
  "all_applied s \<longleftrightarrow> commit_index s \<le> last_applied s"

lemma all_applied_frame [simp]:
  "all_applied (s\<lparr>log_entries := x_0\<rparr>) = all_applied s"
  "all_applied (s\<lparr>role := x_1\<rparr>) = all_applied s"
  "all_applied (s\<lparr>current_term := x_2\<rparr>) = all_applied s"
  "all_applied (s\<lparr>voted_for := x_3\<rparr>) = all_applied s"
  "all_applied (s\<lparr>leader_id := x_4\<rparr>) = all_applied s"
  "all_applied (s\<lparr>votes_received := x_5\<rparr>) = all_applied s"
  "all_applied (s\<lparr>current_time_ms := x_6\<rparr>) = all_applied s"
  "all_applied (s\<lparr>pending_request_vote_actions := x_7\<rparr>) = all_applied s"
  "all_applied (s\<lparr>pending_append_entries_actions := x_8\<rparr>) = all_applied s"
  "all_applied (s\<lparr>next_index := x_9\<rparr>) = all_applied s"
  "all_applied (s\<lparr>match_index := x_10\<rparr>) = all_applied s"
  "all_applied (s\<lparr>disk := x_11\<rparr>) = all_applied s"
  by (simp_all add: all_applied_def)

lemma all_applied_saved [simp]: "all_applied (saved s) = all_applied s"
  by (simp add: all_applied_def)

lemma all_applied_reset [simp]: "all_applied (reset_election_deadline lib s) = all_applied s"
  by (simp add: all_applied_def)

lemma all_applied_demoted [simp]: "all_applied (demoted t s) = all_applied s"
  by (simp add: demoted_def)

text \<open>With the bookkeeping of the log, the two indexes are equal and the store is the replay of the committed log.\<close>

lemma all_applied_replay:
  assumes "core_ok s" and "all_applied s"
  shows "applied_commands s = map command (take (unat (commit_index s)) (log_entries s))"
    and "kv_replay (map command (take (unat (commit_index s)) (log_entries s))) = Inr (key_value_store s)"
proof -
  have j: "journal_ok s" by (rule core_ok_journal [OF assms(1)])
  then have "last_applied s = commit_index s" using assms(2) by (simp add: journal_ok_def all_applied_def)
  then show "applied_commands s = map command (take (unat (commit_index s)) (log_entries s))"
    and "kv_replay (map command (take (unat (commit_index s)) (log_entries s))) = Inr (key_value_store s)"
    using j unfolding journal_ok_def by (elim conjE, simp)+
qed

section \<open>Operations\<close>

definition applies :: "(exc + 'a) \<times> 'g raft_core \<Rightarrow> bool" where
  "applies r \<longleftrightarrow> (returns r \<longrightarrow> all_applied (final r))"

lemma applies_Inr [simp]: "applies (Inr a, s) \<longleftrightarrow> all_applied s"
  by (simp add: applies_def)

lemma applies_Inl [simp]: "applies (Inl e, s)"
  by (simp add: applies_def)

lemma applies_discard [simp]: "applies (discard r) = applies r"
  by (auto simp: applies_def discard_def returns_def split: prod.splits sum.splits)

lemma applies_bind:
  assumes "\<And>a t. m s = (Inr a, t) \<Longrightarrow> applies (k a t)"
  shows "applies (bind_op m k s)"
  using assms by (auto simp: bind_op_def split: prod.splits sum.splits)

lemma applies_then:
  assumes "applies (m s)" and "\<And>a t. all_applied t \<Longrightarrow> applies (k a t)"
  shows "applies (bind_op m k s)"
  using assms by (intro applies_bind) (simp add: applies_def)

lemma apply_committed_entries_applies: "applies (apply_committed_entries s)"
proof (induction s rule: apply_committed_entries.induct)
  case (1 s)
  let ?r = "\<lambda>e. if is_key_value_command (command e) then kv_apply (command e) (key_value_store s) else Inr (key_value_store s)"
  show ?case
  proof (cases "last_applied s < commit_index s")
    case True
    have "applies (case ?r e of Inl x \<Rightarrow> (Inl x, s) | Inr kv \<Rightarrow> apply_committed_entries
        (s\<lparr>key_value_store := kv, applied_commands := applied_commands s @ [command e], last_applied := last_applied s + 1\<rparr>))"
      if "vec_at (log_entries s) (last_applied s) = Inr e" for e
      using 1 [OF True that] by (cases "?r e") (simp_all only: sum.case applies_Inl)
    then show ?thesis using True by (subst apply_committed_entries.simps) (simp split: sum.split)
  qed (subst apply_committed_entries.simps, simp add: all_applied_def)
qed

lemma persist_state_applies: "all_applied s \<Longrightarrow> applies (persist_state s)"
  using persist_state_disk [of s] by (auto simp: applies_def)

lemma become_follower_applies: "all_applied s \<Longrightarrow> applies (become_follower t s)"
  by (simp add: become_follower_def persist_state_applies)

lemma queue_heartbeat_actions_applies: "all_applied s \<Longrightarrow> applies (queue_heartbeat_actions s)"
proof -
  have "all_applied w \<Longrightarrow> applies (push_append_entries_actions ms w)" for ms and w :: "'a raft_core"
    by (induction ms w rule: push_append_entries_actions.induct) (auto split: sum.split)
  then show "all_applied s \<Longrightarrow> ?thesis" by (simp add: queue_heartbeat_actions_def)
qed

lemma become_leader_applies: "all_applied s \<Longrightarrow> applies (become_leader s)"
  by (simp add: become_leader_def initialize_leader_replication_state_def Let_def queue_heartbeat_actions_applies)

lemma start_election_applies: "all_applied s \<Longrightarrow> applies (start_election lib s)"
proof -
  have "applies (queue_request_vote_actions t)" if "all_applied t" for t :: "'a raft_core"
    using that by (simp add: queue_request_vote_actions_def Let_def split: sum.split)
  moreover assume "all_applied s"
  ultimately show ?thesis
    unfolding start_election_def
    by (intro applies_then persist_state_applies) (simp_all add: become_leader_applies)
qed

lemma advance_commit_index_applies: "all_applied s \<Longrightarrow> applies (advance_commit_index s)"
  by (auto simp: advance_commit_index_def split: sum.split option.split
      intro!: applies_then apply_committed_entries_applies persist_state_applies)

lemma append_command_applies: "all_applied s \<Longrightarrow> applies (append_command cmd s)"
  by (auto simp: append_command_def
      intro!: applies_then advance_commit_index_applies persist_state_applies queue_heartbeat_actions_applies)

lemma commit_and_reply_applies: "all_applied s \<Longrightarrow> applies (commit_and_reply request s)"
  unfolding commit_and_reply_def Let_def
  by (intro applies_then persist_state_applies) (auto simp: apply_committed_entries_applies)

lemma handle_append_entries_applies: "all_applied s \<Longrightarrow> applies (handle_append_entries lib request s)"
  unfolding handle_append_entries_def Let_def
  by (auto simp: modify_op_def follow_leader_def become_follower_applies commit_and_reply_applies
      split: sum.split bool.split option.split intro!: applies_then)

lemma handle_request_vote_applies: "all_applied s \<Longrightarrow> applies (handle_request_vote lib request s)"
  unfolding handle_request_vote_def Let_def
  by (auto simp: become_follower_applies persist_state_applies intro!: applies_then)

lemma receive_vote_applies: "all_applied s \<Longrightarrow> applies (receive_vote m response s)"
  by (auto simp: receive_vote_def Let_def become_follower_applies become_leader_applies)

lemma receive_append_entries_response_applies:
  "all_applied s \<Longrightarrow> applies (receive_append_entries_response m response s)"
  by (auto simp: receive_append_entries_response_def Let_def become_follower_applies advance_commit_index_applies
      split: option.split)

lemma call_applies: "all_applied s \<Longrightarrow> applies (call lib c s)"
proof (cases c)
  case (Tick ms)
  moreover assume "all_applied s"
  ultimately show ?thesis
    by (auto simp: tick_def Let_def advance_time_def intro!: applies_then start_election_applies)
qed (simp_all add: start_election_applies advance_time_def handle_request_vote_applies receive_vote_applies
    take_request_vote_actions_def append_command_applies queue_heartbeat_actions_applies
    take_append_entries_actions_def handle_append_entries_applies receive_append_entries_response_applies)

end
