(* ===== verification/Raft_Views.thy ===== *)
theory Raft_Views
  imports Raft_Protocol Raft_Applied
begin

text \<open>
  What the protocol sees of a core, and what the operations of a core do to it: each operation of a
  core whose disk works and whose commands are well formed, as changes of its view.
\<close>

section \<open>The view of a core\<close>

definition view :: "'g raft_core \<Rightarrow> node_view" where
  "view s = \<lparr>v_role = role s, v_term = current_term s, v_vote = voted_for s, v_log = log_entries s,
     v_commit = unat (commit_index s), v_votes = votes_received s, v_match = match_of s\<rparr>"

lemma view_select [simp]:
  "v_role (view s) = role s" "v_term (view s) = current_term s" "v_vote (view s) = voted_for s"
  "v_log (view s) = log_entries s" "v_commit (view s) = unat (commit_index s)"
  "v_votes (view s) = votes_received s" "v_match (view s) = match_of s"
  by (simp_all add: view_def)

lemma view_frame [simp]:
  "view (s\<lparr>disk := x1\<rparr>) = view s" "view (s\<lparr>leader_id := x2\<rparr>) = view s"
  "view (s\<lparr>current_time_ms := x3\<rparr>) = view s" "view (s\<lparr>election_timeout_ms := x4\<rparr>) = view s"
  "view (s\<lparr>election_deadline_ms := x5\<rparr>) = view s" "view (s\<lparr>random_engine := x6\<rparr>) = view s"
  "view (s\<lparr>pending_request_vote_actions := x7\<rparr>) = view s"
  "view (s\<lparr>pending_append_entries_actions := x8\<rparr>) = view s" "view (s\<lparr>next_index := x9\<rparr>) = view s"
  "view (s\<lparr>last_applied := x10\<rparr>) = view s" "view (s\<lparr>applied_commands := x11\<rparr>) = view s"
  "view (s\<lparr>key_value_store := x12\<rparr>) = view s" "view (s\<lparr>storage_path := x13\<rparr>) = view s"
  by (simp_all add: view_def match_of_def fun_eq_iff)

lemma view_update:
  "view (s\<lparr>log_entries := es\<rparr>) = (view s)\<lparr>v_log := es\<rparr>"
  "view (s\<lparr>voted_for := m\<rparr>) = (view s)\<lparr>v_vote := m\<rparr>"
  "view (s\<lparr>role := r\<rparr>) = (view s)\<lparr>v_role := r\<rparr>"
  "view (s\<lparr>votes_received := ms\<rparr>) = (view s)\<lparr>v_votes := ms\<rparr>"
  by (simp_all add: view_def match_of_def fun_eq_iff)

lemma view_saved [simp]: "view (saved s) = view s"
  by (simp add: saved_def)

lemma view_reset [simp]: "view (reset_election_deadline lib s) = view s"
  using reset_election_deadline_shape [of lib s] by (auto simp: view_def match_of_def fun_eq_iff)

lemma no_match [simp]: "match_index s = Map.empty \<Longrightarrow> match_of s = (\<lambda>_. 0)"
  by (simp add: match_of_def fun_eq_iff)

text \<open>A follower keeps no votes and no progress table.\<close>

lemma follower_view:
  assumes "core_ok s" and "role s = Follower"
  shows "votes_received s = {}" and "match_of s = (\<lambda>_. 0)"
  using assms by (simp_all add: core_ok_defs)

section \<open>Sound cores\<close>

definition sound :: "'g raft_core \<Rightarrow> bool" where
  "sound s \<longleftrightarrow> core_ok s \<and> synced s \<and> commands_ok (log_entries s) \<and> all_applied s"

lemma soundD: "sound s \<Longrightarrow> core_ok s" "sound s \<Longrightarrow> synced s" "sound s \<Longrightarrow> commands_ok (log_entries s)"
  "sound s \<Longrightarrow> working s" "sound s \<Longrightarrow> all_applied s"
  by (simp_all add: sound_def synced_working)

text \<open>A call that returns leaves a sound core when the log it leaves has well-formed commands.\<close>

lemma sound_after_call:
  assumes "sound s" and "within_bounds c s" and "call lib c s = (Inr (), t)" and "commands_ok (log_entries t)"
  shows "sound t"
  using call_leaves [of s c lib] call_durable [of s c lib] call_applies [of s lib c] assms
  by (simp add: sound_def leaves_def)

section \<open>Following\<close>

lemma view_demoted [simp]: "current_term s < T \<Longrightarrow> view (demoted T s) = followed T (view s)"
  by (simp add: demoted_def followed_def view_def)

lemma view_in_term:
  assumes "core_ok s"
  shows "view (in_term T s) = (if current_term s < T then followed T (view s) else view s)"
  by (simp add: in_term_def)

lemma view_follow_leader:
  assumes "core_ok s"
  shows "view (follow_leader s) = followed (current_term s) (view s)"
proof (cases "role s = Follower")
  case True
  then show ?thesis using follower_view [OF assms True] by (simp add: follow_leader_def followed_def view_def)
next
  case False
  then show ?thesis by (simp add: follow_leader_def followed_def view_def)
qed

lemma view_under_leader:
  assumes "core_ok s" and "current_term s \<le> ae_term request"
  shows "view (under_leader lib request s) = followed (ae_term request) (view s)"
  using assms view_follow_leader [OF assms(1)] by (auto simp: under_leader_def)

lemma view_committed_to:
  assumes "core_ok s" and "commit_index s \<le> c" and "unat c \<le> length (log_entries s)"
  shows "view (committed_to c s) = (view s)\<lparr>v_commit := unat c\<rparr>"
  using committed_to_select [OF assms] by (simp add: view_def match_of_def fun_eq_iff)

lemma unat_max_min: "unat (max c (min l m)) = max (unat c) (min (unat l) (unat m))" for c l m :: u64
  by (auto simp: max_def min_def word_le_nat_alt)

lemma view_appended:
  assumes "core_ok s" and "current_term s \<le> ae_term request" and "ae_leader_id request \<in> set (cluster_members s)"
    and "reconciled_log request s = Some es" and "length (log_entries s) + length (entries request) \<le> log_max_size"
  shows "view (appended lib request es s) = (followed (ae_term request) (view s))\<lparr>v_log := es,
     v_commit := max (unat (commit_index s))
       (min (unat (leader_commit request)) (unat (prev_log_index request) + length (entries request)))\<rparr>"
proof -
  let ?u = "under_leader lib request s\<lparr>log_entries := es\<rparr>"
  have ok: "core_ok ?u" and len: "unat (prev_log_index request) + length (entries request) \<le> length es"
    by (rule reconciled_log_ok [OF assms(1-5)])+
  have le: "length es \<le> log_max_size" using core_ok_length [OF ok] by simp
  have m: "unat (prev_log_index request + of_nat (length (entries request))) =
      unat (prev_log_index request) + length (entries request)"
    using len le by (intro unat_add_small) simp
  let ?c = "verified_commit request (commit_index s)"
  have c: "unat ?c = max (unat (commit_index s))
       (min (unat (leader_commit request)) (unat (prev_log_index request) + length (entries request)))"
    by (simp add: verified_commit_def unat_max_min m)
  have "unat ?c \<le> length es" using len core_ok_commit [OF ok] unfolding c by simp
  moreover have "commit_index s \<le> ?c" by (simp add: verified_commit_def)
  ultimately have "view (committed_to ?c ?u) = (view ?u)\<lparr>v_commit := unat ?c\<rparr>"
    by (intro view_committed_to [OF ok]) simp_all
  then show ?thesis
    using view_under_leader [OF assms(1,2), of lib] c by (simp add: appended_def view_update)
qed

section \<open>Elections\<close>

definition candidate_view :: "string \<Rightarrow> node_view \<Rightarrow> node_view" where
  "candidate_view n v = v\<lparr>v_role := Candidate, v_term := v_term v + 1, v_vote := Some n, v_votes := {n},
     v_match := (\<lambda>_. 0)\<rparr>"

definition leader_view :: "node_view \<Rightarrow> node_view" where
  "leader_view v = v\<lparr>v_role := Leader, v_match := (\<lambda>_. 0)\<rparr>"

lemma match_of_initialized: "match_of (initialize_leader_replication_state s) = (\<lambda>_. 0)"
  by (auto simp: match_of_def initialize_leader_replication_state_def Let_def fun_eq_iff split: option.split
      dest!: map_of_SomeD)

lemma become_leader_view:
  assumes "core_ok s" and "role s = Candidate" and "majority_size s \<le> vote_count s"
  obtains t where "become_leader s = (Inr (), t)" and "view t = leader_view (view s)"
    and "pending_append_entries_actions t = heartbeat_actions t" and "pending_request_vote_actions t = []"
proof -
  let ?w = "initialize_leader_replication_state (s\<lparr>role := Leader, leader_id := Some (node_id s),
      pending_request_vote_actions := []\<rparr>)"
  have ok: "core_ok ?w" by (rule initialize_leader_ok [OF assms])
  have sel: "role ?w = Leader" "pending_request_vote_actions ?w = []"
    by (simp_all add: initialize_leader_replication_state_def Let_def)
  have "view ?w = leader_view (view s)"
    using match_of_initialized [of "s\<lparr>role := Leader, leader_id := Some (node_id s), pending_request_vote_actions := []\<rparr>"]
    by (simp add: leader_view_def view_def initialize_leader_replication_state_def Let_def)
  moreover have "become_leader s = (Inr (), ?w\<lparr>pending_append_entries_actions := heartbeat_actions ?w\<rparr>)"
    unfolding become_leader_def
    by (rule queue_heartbeat_actions_eq [OF sel(1) core_ok_length [OF ok] core_ok_replication [OF ok sel(1)]])
  ultimately show thesis
    using sel(2) by (intro that [of "?w\<lparr>pending_append_entries_actions := heartbeat_actions ?w\<rparr>"]) simp_all
qed

lemma start_election_view:
  assumes "core_ok s" and "working s" and "current_term s \<noteq> - 1"
  obtains (candidate) t where "start_election lib s = (Inr (), t)" and "view t = candidate_view (node_id s) (view s)"
      and "pending_append_entries_actions t = []" and "pending_request_vote_actions t = vote_actions t"
      and "1 < majority_size s"
    | (leader) t where "start_election lib s = (Inr (), t)"
      and "view t = leader_view (candidate_view (node_id s) (view s))"
      and "pending_append_entries_actions t = heartbeat_actions t" and "pending_request_vote_actions t = []"
      and "majority_size s \<le> 1"
proof -
  let ?c = "reset_election_deadline lib (candidacy s)"
  have ok: "core_ok ?c" and w: "working ?c"
    using core_ok_candidacy [OF assms(1,3)] assms(2) by (simp_all add: candidacy_def)
  let ?v = "saved ?c\<lparr>pending_request_vote_actions := vote_actions (saved ?c)\<rparr>"
  have role: "role (saved ?c) = Candidate" "majority_size (saved ?c) = majority_size s" "vote_count (saved ?c) = 1"
    "majority_size ?v = majority_size s" "vote_count ?v = 1"
    by (simp_all add: candidacy_def vote_count_def majority_size_def cluster_size_def)
  have run: "start_election lib s = (if majority_size s \<le> 1 then become_leader ?v else (Inr (), ?v))"
    unfolding start_election_eq bind_persist_working [OF ok w] campaign_eq [OF role(1)] Let_def role ..
  have view: "view ?v = candidate_view (node_id s) (view s)"
    by (simp add: candidacy_def candidate_view_def view_def match_of_def)
  have va: "vote_actions ?v = vote_actions (saved ?c)"
    by (simp add: vote_actions_def last_log_index_def last_log_term_def)
  show thesis
  proof (cases "majority_size s \<le> 1")
    case False
    then show thesis using run view va by (intro candidate [of ?v]) (simp_all add: candidacy_def)
  next
    case True
    have "core_ok ?v" using core_ok_vote_actions [of "saved ?c"] ok role(1) by simp
    then obtain t where "become_leader ?v = (Inr (), t)" "view t = leader_view (view ?v)"
        "pending_append_entries_actions t = heartbeat_actions t" "pending_request_vote_actions t = []"
      using role True by (elim become_leader_view) simp_all
    then show thesis using run True view by (intro leader [of t]) simp_all
  qed
qed

lemma receive_vote_view:
  assumes "core_ok s" and "working s"
  obtains (unknown) e where "receive_vote m r s = (Inl e, s)" and "m \<notin> set (cluster_members s)"
    | (ignored) "receive_vote m r s = (Inr (), s)"
      and "rvr_term r = current_term s \<Longrightarrow> role s = Candidate \<Longrightarrow> \<not> vote_granted r"
    | (later) "receive_vote m r s = (Inr (), saved (demoted (rvr_term r) s))" and "current_term s < rvr_term r"
    | (counted) "receive_vote m r s = (Inr (), s\<lparr>votes_received := insert m (votes_received s)\<rparr>)"
      and "role s = Candidate" and "rvr_term r = current_term s" and "vote_granted r"
      and "card (insert m (votes_received s)) < majority_size s"
    | (won) t where "receive_vote m r s = (Inr (), t)"
      and "role s = Candidate" and "rvr_term r = current_term s" and "vote_granted r"
      and "majority_size s \<le> card (insert m (votes_received s))" and "insert m (votes_received s) \<subseteq> set (cluster_members s)"
      and "view t = leader_view ((view s)\<lparr>v_votes := insert m (votes_received s)\<rparr>)"
      and "pending_append_entries_actions t = heartbeat_actions t" and "pending_request_vote_actions t = []"
proof -
  let ?s = "s\<lparr>votes_received := insert m (votes_received s)\<rparr>"
  consider (a) "m \<notin> set (cluster_members s)" | (b) "m \<in> set (cluster_members s)" "current_term s < rvr_term r"
    | (c) "m \<in> set (cluster_members s)" "\<not> current_term s < rvr_term r"
        "rvr_term r < current_term s \<or> role s \<noteq> Candidate \<or> \<not> vote_granted r"
    | (d) "m \<in> set (cluster_members s)" "rvr_term r = current_term s" "role s = Candidate" "vote_granted r"
    by fastforce
  then show thesis
  proof cases
    case a
    then show thesis by (intro unknown) (simp_all add: receive_vote_def)
  next
    case b
    then show thesis using become_follower_working [OF assms b(2)] by (intro later) (simp_all add: receive_vote_def)
  next
    case c
    then show thesis by (intro ignored) (auto simp: receive_vote_def)
  next
    case d
    have sub: "insert m (votes_received s) \<subseteq> set (cluster_members s)"
      using assms(1) d by (auto simp: core_ok_defs)
    have ok: "core_ok ?s" using assms(1) d by (auto simp: core_ok_defs)
    have run: "receive_vote m r s = (if majority_size s \<le> card (insert m (votes_received s))
        then become_leader ?s else (Inr (), ?s))"
      using d by (simp add: receive_vote_def Let_def vote_count_def majority_size_def cluster_size_def)
    show thesis
    proof (cases "majority_size s \<le> card (insert m (votes_received s))")
      case True
      then have "majority_size ?s \<le> vote_count ?s" by (simp add: vote_count_def)
      moreover have "role ?s = Candidate" using d by simp
      ultimately obtain t where "become_leader ?s = (Inr (), t)" "view t = leader_view (view ?s)"
          "pending_append_entries_actions t = heartbeat_actions t" "pending_request_vote_actions t = []"
        using become_leader_view [OF ok] by blast
      then show thesis using run True d sub by (intro won [of t]) (simp_all add: view_update)
    next
      case False
      then show thesis using run d by (intro counted) simp_all
    qed
  qed
qed

section \<open>Leading\<close>

text \<open>The index a leader commits, if it commits any.\<close>

definition commits_to :: "'g raft_core \<Rightarrow> u64 \<Rightarrow> bool" where
  "commits_to s c \<longleftrightarrow> c = commit_index s \<or> commit_index s < c \<and> unat c \<le> length (log_entries s) \<and>
     term_at (log_entries s) (unat c) = current_term s \<and> majority_size s \<le> card (replicas s (unat c))"

lemma highest_commits_to: "highest_committable s c \<Longrightarrow> commits_to s c"
  by (simp add: highest_committable_def committable_def commits_to_def word_less_nat_alt)

lemma append_command_view:
  assumes "sound s" and "role s = Leader" and "length (log_entries s) < log_max_size"
    and "cmd \<noteq> []" and "is_key_value_command cmd \<Longrightarrow> well_formed_command cmd"
  defines "s1 \<equiv> s\<lparr>log_entries := log_entries s @ [\<lparr>entry_term = current_term s, command = cmd\<rparr>]\<rparr>"
  obtains c t where "append_command cmd s = (Inr (of_nat (Suc (length (log_entries s)))), t)" and "commits_to s1 c"
    and "view t = (view s1)\<lparr>v_commit := unat c\<rparr>" and "pending_append_entries_actions t = heartbeat_actions t"
    and "pending_request_vote_actions t = pending_request_vote_actions s" and "settled t"
proof -
  have ok: "core_ok s" and w: "working s" using soundD [OF assms(1)] by simp_all
  have cmds: "commands_ok (log_entries s @ [\<lparr>entry_term = current_term s, command = cmd\<rparr>])"
    using soundD(3) [OF assms(1)] assms(5) by (simp add: commands_ok_def)
  obtain c where run: "append_command cmd s = (Inr (of_nat (Suc (length (log_entries s)))),
       saved (committed_to c s1)\<lparr>pending_append_entries_actions := heartbeat_actions (committed_to c s1)\<rparr>)"
    and c: "commit_index s \<le> c" "unat c \<le> Suc (length (log_entries s))"
      "c \<noteq> commit_index s \<Longrightarrow> highest_committable s1 c" "core_ok (committed_to c s1)" "settled (committed_to c s1)"
    unfolding s1_def using append_command_working [OF ok w assms(2,4,3) cmds] by blast
  have ok1: "core_ok s1" unfolding s1_def by (rule core_ok_append [OF ok assms(2,4,3)])
  have le: "commit_index s1 \<le> c" "unat c \<le> length (log_entries s1)" using c(1,2) by (simp_all add: s1_def)
  have "commits_to s1 c"
  proof (cases "c = commit_index s")
    case True
    then show ?thesis by (simp add: commits_to_def s1_def)
  qed (use c(3) highest_commits_to in blast)
  moreover have "settled (saved (committed_to c s1)\<lparr>pending_append_entries_actions := as\<rparr>)" for as
    using c(5) committable_cong [of "saved (committed_to c s1)\<lparr>pending_append_entries_actions := as\<rparr>" "committed_to c s1"]
    by (simp add: settled_def)
  ultimately show thesis
    using run view_committed_to [OF ok1 le] committed_to_select [OF ok1 le]
    by (intro that [of "saved (committed_to c s1)\<lparr>pending_append_entries_actions := heartbeat_actions (committed_to c s1)\<rparr>" c])
      (simp_all, simp_all add: s1_def)
qed

text \<open>A success: the progress table first, then the commit index.\<close>

lemma confirmed_match:
  assumes "match_index s m = Some k"
  shows "match_of (confirmed m r i k s) = (match_of s)(m := max (match_of s m) (unat r))"
  using assms by (auto simp: confirmed_def Let_def match_of_def fun_eq_iff word_less_nat_alt not_less)

lemma confirmed_next:
  assumes "next_index s m = Some i" and "unat r \<le> log_max_size"
  shows "next_of (confirmed m r i k s) = (next_of s)(m := max (next_of s m) (Suc (unat r)))"
proof -
  have "unat (r + 1) = Suc (unat r)" using assms(2) by (intro unat_Suc_small) simp
  then show ?thesis
    using assms(1) by (auto simp: confirmed_def Let_def next_of_def fun_eq_iff word_less_nat_alt not_less)
qed

lemma append_response_view:
  assumes "sound s" and "m \<in> set (others s)"
  obtains (later) "receive_append_entries_response m r s = (Inr (), saved (demoted (aer_term r) s))"
      and "current_term s < aer_term r"
    | (stale) "receive_append_entries_response m r s = (Inr (), s)" and "aer_term r < current_term s \<or> role s \<noteq> Leader"
    | (refused) t where "receive_append_entries_response m r s = (Inr (), t)"
      and "role s = Leader" and "aer_term r = current_term s" and "\<not> success r"
      and "t = (if 1 < next_of s m then s\<lparr>next_index := (next_index s)(m \<mapsto> of_nat (next_of s m - 1))\<rparr> else s)"
    | (beyond) e where "receive_append_entries_response m r s = (Inl e, s)"
      and "role s = Leader" and "aer_term r = current_term s" and "success r" and "length (log_entries s) < unat (matched_index r)"
    | (confirmed) c t i k where "receive_append_entries_response m r s = (Inr (), t)"
      and "role s = Leader" and "aer_term r = current_term s" and "success r"
      and "unat (matched_index r) \<le> length (log_entries s)"
      and "next_index s m = Some i" and "match_index s m = Some k"
      and "core_ok (confirmed m (matched_index r) i k s)"
      and "commits_to (confirmed m (matched_index r) i k s) c"
      and "t = confirmed m (matched_index r) i k s \<and> c = commit_index s \<or>
           t = saved (committed_to c (confirmed m (matched_index r) i k s))"
      and "settled t"
proof -
  have ok: "core_ok s" and w: "working s" using soundD [OF assms(1)] by simp_all
  have m: "m \<in> set (cluster_members s)" "m \<noteq> node_id s" using assms(2) by (auto simp: others_def)
  have last: "unat (last_log_index s) = length (log_entries s)"
    using core_ok_length [OF ok] by (simp add: last_log_index_def unat_last_index)
  consider (a) "current_term s < aer_term r" | (b) "\<not> current_term s < aer_term r" "aer_term r < current_term s \<or> role s \<noteq> Leader"
    | (c) "aer_term r = current_term s" "role s = Leader" by fastforce
  then show thesis
  proof cases
    case a
    then show thesis using become_follower_working [OF ok w a] m
      by (intro later) (simp_all add: receive_append_entries_response_def)
  next
    case b
    then show thesis using m by (intro stale) (auto simp: receive_append_entries_response_def)
  next
    case c
    obtain i k where ik: "next_index s m = Some i" "match_index s m = Some k" "next_of s m = unat i" "0 < unat i"
      using replication_okE [OF core_ok_replication [OF ok c(2)] assms(2)] by metis
    let ?u = "confirmed m (matched_index r) i k s"
    have eq: "receive_append_entries_response m r s =
        (if \<not> success r then (Inr (), if 1 < i then s\<lparr>next_index := (next_index s)(m \<mapsto> i - 1)\<rparr> else s)
         else if last_log_index s < matched_index r
           then (Inl (InvalidArgument ''Follower matched index exceeds leader log''), s)
         else advance_commit_index ?u)"
      using c m ik(1,2) by (simp add: receive_append_entries_response_def Let_def confirmed_def)
    consider (r) "\<not> success r" | (e) "success r" "last_log_index s < matched_index r"
      | (s) "success r" "matched_index r \<le> last_log_index s" by fastforce
    then show thesis
    proof cases
      case r
      have "(1 < i) = (1 < next_of s m)" by (simp add: ik(3) word_less_nat_alt)
      moreover have "of_nat (next_of s m - 1) = i - 1"
      proof -
        have "unat (i - 1) = unat i - 1" using ik(4) by (intro unat_pred) (simp add: unat_pos)
        then show ?thesis by (metis ucast_id of_nat_unat ik(3))
      qed
      ultimately show thesis using eq r c by (intro refused [OF _ c(2,1) r refl]) simp
    next
      case e
      then show thesis using eq c last by (intro beyond) (simp_all add: word_less_nat_alt)
    next
      case s
      have le: "unat (matched_index r) \<le> length (log_entries s)" using s(2) last by (simp add: word_le_nat_alt)
      have run: "receive_append_entries_response m r s = advance_commit_index ?u"
        using eq s by (simp add: not_less [symmetric])
      have oku: "core_ok ?u" by (rule core_ok_confirmed_by [OF ok c(2) assms(2) s(2)])
      have u: "working ?u" "commands_ok (log_entries ?u)" "role ?u = Leader" "commit_index ?u = commit_index s"
        using w c(2) soundD(3) [OF assms(1)] by (simp_all add: confirmed_def Let_def)
      note conf = confirmed [OF _ c(2,1) s(1) le ik(1,2) oku]
      from oku u(1-3) show thesis
      proof (cases rule: advance_commit_index_working)
        case none
        then show thesis using run u(4) by (intro conf [of ?u "commit_index s"]) (simp_all add: commits_to_def settled_def)
      next
        case (found j)
        then show thesis
          using run highest_commits_to [OF found(2)] settled_committed_to [OF oku found(2,4)] by (intro conf [of "saved (committed_to j ?u)" j]) simp_all
      qed
    qed
  qed
qed

lemma view_confirmed:
  assumes "match_index s m = Some k"
  shows "view (confirmed m r i k s) = (view s)\<lparr>v_match := (match_of s)(m := max (match_of s m) (unat r))\<rparr>"
proof -
  have "view (confirmed m r i k s) = (view s)\<lparr>v_match := match_of (confirmed m r i k s)\<rparr>"
    by (simp add: confirmed_def Let_def view_def)
  then show ?thesis by (simp add: confirmed_match [OF assms])
qed

text \<open>A request of a leader ends where its log ends.\<close>

lemma replication_request_end:
  assumes "length (log_entries s) \<le> log_max_size" and "0 < i" and "i \<le> Suc (length (log_entries s))"
  shows "unat (prev_log_index (replication_request s i)) = i - 1"
    and "unat (prev_log_index (replication_request s i)) + length (entries (replication_request s i)) = length (log_entries s)"
proof -
  show "unat (prev_log_index (replication_request s i)) = i - 1"
    using assms by (cases i) (simp_all add: replication_request_def unat_of_nat log_max_size_def)
  then show "unat (prev_log_index (replication_request s i)) + length (entries (replication_request s i)) = length (log_entries s)"
    using assms(2,3) by (simp add: replication_request_def)
qed

end
