(* ===== verification/Raft_Network.thy ===== *)
theory Raft_Network
  imports Raft_Views
begin

text \<open>
  A cluster of cores and a network that may lose, duplicate, delay and reorder every message, with
  nodes that may crash and restart from their files; and the proof that it follows the protocol.
\<close>

section \<open>The world\<close>

text \<open>Messages carry their sender and their receiver; one that was sent may arrive at any time, and again.\<close>

record 'g world =
  cores :: "string \<Rightarrow> 'g raft_core"
  vote_requests :: "(string \<times> string \<times> request_vote_request) list"
  vote_replies :: "(string \<times> string \<times> request_vote_response) list"
  append_requests :: "(string \<times> string \<times> append_entries_request) list"
  append_replies :: "(string \<times> string \<times> append_entries_response) list"

definition put_core :: "string \<Rightarrow> 'g raft_core \<Rightarrow> 'g world \<Rightarrow> 'g world" where
  "put_core n s w = w\<lparr>cores := (cores w)(n := s)\<rparr>"

text \<open>
  The calls that the node's own thread and the clients make; a client's command is one that the
  service built, or at least not a malformed one.
\<close>

fun local_call :: "core_call \<Rightarrow> bool" where
  "local_call (Tick ms) = True"
| "local_call Start_Election = True"
| "local_call (Advance_Time ms) = True"
| "local_call (Append_Command cmd) = (is_key_value_command cmd \<longrightarrow> well_formed_command cmd)"
| "local_call Queue_Heartbeat_Actions = True"
| "local_call _ = False"

text \<open>The reply of a handler, when it returned.\<close>

definition reply_of :: "string \<Rightarrow> string \<Rightarrow> (exc + 'r) \<times> 's \<Rightarrow> (string \<times> string \<times> 'r) list" where
  "reply_of m n r = (case fst r of Inl _ \<Rightarrow> [] | Inr x \<Rightarrow> [(m, n, x)])"

inductive world_step ::
    "'g std_lib \<Rightarrow> string list \<Rightarrow> u64 \<Rightarrow> u64 \<Rightarrow> 'g world \<Rightarrow> 'g world \<Rightarrow> bool" for lib ms lo hi where
  local: "n \<in> set ms \<Longrightarrow> local_call c \<Longrightarrow> within_bounds c (cores w n) \<Longrightarrow>
    world_step lib ms lo hi w (put_core n (final (call lib c (cores w n))) w)"
| send_votes: "n \<in> set ms \<Longrightarrow> take_request_vote_actions (cores w n) = (as, s) \<Longrightarrow>
    world_step lib ms lo hi w ((put_core n s w)\<lparr>vote_requests := vote_requests w @
      map (\<lambda>a. (n, rv_target a, rv_request a)) as\<rparr>)"
| send_appends: "n \<in> set ms \<Longrightarrow> take_append_entries_actions (cores w n) = (as, s) \<Longrightarrow>
    world_step lib ms lo hi w ((put_core n s w)\<lparr>append_requests := append_requests w @
      map (\<lambda>a. (n, ae_target a, ae_request a)) as\<rparr>)"
| vote_request: "(n, m, q) \<in> set (vote_requests w) \<Longrightarrow> handle_request_vote lib q (cores w m) = r \<Longrightarrow>
    world_step lib ms lo hi w ((put_core m (final r) w)\<lparr>vote_replies := vote_replies w @ reply_of m n r\<rparr>)"
| vote_reply: "(m, n, r) \<in> set (vote_replies w) \<Longrightarrow>
    world_step lib ms lo hi w (put_core n (final (receive_vote m r (cores w n))) w)"
| append_request: "(n, m, q) \<in> set (append_requests w) \<Longrightarrow>
    within_bounds (Handle_Append_Entries q) (cores w m) \<Longrightarrow> handle_append_entries lib q (cores w m) = r \<Longrightarrow>
    world_step lib ms lo hi w ((put_core m (final r) w)\<lparr>append_replies := append_replies w @ reply_of m n r\<rparr>)"
| append_reply: "(m, n, r) \<in> set (append_replies w) \<Longrightarrow>
    world_step lib ms lo hi w (put_core n (final (receive_append_entries_response m r (cores w n))) w)"
| restart: "n \<in> set ms \<Longrightarrow> storage_path (cores w n) \<noteq> [] \<Longrightarrow>
    new_raft_core lib n ms 0 [] lo hi seed (storage_path (cores w n)) (disk (cores w n)) = (Inr s, d) \<Longrightarrow>
    world_step lib ms lo hi w (put_core n s w)"

text \<open>
  The start: every member constructed with the same configuration, with storage that works and a
  file that does not exist yet, and nothing sent.
\<close>

definition world_start :: "'g std_lib \<Rightarrow> string list \<Rightarrow> u64 \<Rightarrow> u64 \<Rightarrow> 'g world \<Rightarrow> bool" where
  "world_start lib ms lo hi w \<longleftrightarrow>
     (\<forall>n \<in> set ms. \<exists>seed path f d. (path = [] \<or> healthy f \<and> contents f = None) \<and>
        new_raft_core lib n ms 0 [] lo hi seed path f = (Inr (cores w n), d)) \<and>
     vote_requests w = [] \<and> vote_replies w = [] \<and> append_requests w = [] \<and> append_replies w = []"

definition world_reachable :: "'g std_lib \<Rightarrow> string list \<Rightarrow> u64 \<Rightarrow> u64 \<Rightarrow> 'g world \<Rightarrow> bool" where
  "world_reachable lib ms lo hi w \<longleftrightarrow>
     (\<exists>w0. world_start lib ms lo hi w0 \<and> (world_step lib ms lo hi)\<^sup>*\<^sup>* w0 w)"

section \<open>What messages say\<close>

definition vote_request_ok :: "protocol \<Rightarrow> string \<Rightarrow> request_vote_request \<Rightarrow> bool" where
  "vote_request_ok \<sigma> n q \<longleftrightarrow> candidate_id q = n \<and>
     (\<exists>es. h_candidate \<sigma> (rv_term q) n = Some es \<and> rv_last_log_term q = last_term_of es \<and>
        rv_last_log_index q = last_index_of es \<and> length es \<le> log_max_size)"

definition vote_reply_ok :: "protocol \<Rightarrow> string \<Rightarrow> string \<Rightarrow> request_vote_response \<Rightarrow> bool" where
  "vote_reply_ok \<sigma> m n r \<longleftrightarrow> (vote_granted r \<longrightarrow> h_vote \<sigma> (rvr_term r) m = Some n)"

definition append_request_ok :: "protocol \<Rightarrow> string \<Rightarrow> append_entries_request \<Rightarrow> bool" where
  "append_request_ok \<sigma> n q \<longleftrightarrow> ae_leader_id q = n \<and> h_leader \<sigma> (ae_term q) = Some n \<and>
     unat (leader_commit q) \<le> h_commit \<sigma> (ae_term q) \<and>
     (\<exists>es p. prefix es (h_log \<sigma> (ae_term q)) \<and> request_for es p q \<and> valid_log (ae_term q) es \<and>
        commands_ok es \<and> length es \<le> log_max_size)"

definition append_reply_ok :: "protocol \<Rightarrow> string \<Rightarrow> append_entries_response \<Rightarrow> bool" where
  "append_reply_ok \<sigma> m r \<longleftrightarrow> (success r \<longrightarrow> unat (matched_index r) \<le> h_ack \<sigma> (aer_term r) m)"

lemma messages_grow:
  assumes g: "history_grows \<sigma> \<sigma>'"
  shows "vote_request_ok \<sigma> n q \<Longrightarrow> vote_request_ok \<sigma>' n q"
    and "vote_reply_ok \<sigma> m n r \<Longrightarrow> vote_reply_ok \<sigma>' m n r"
    and "append_request_ok \<sigma> n a \<Longrightarrow> append_request_ok \<sigma>' n a"
    and "append_reply_ok \<sigma> m b \<Longrightarrow> append_reply_ok \<sigma>' m b"
proof -
  show "vote_request_ok \<sigma> n q \<Longrightarrow> vote_request_ok \<sigma>' n q"
    unfolding vote_request_ok_def using grows_candidate [OF g] by blast
  show "vote_reply_ok \<sigma> m n r \<Longrightarrow> vote_reply_ok \<sigma>' m n r"
    unfolding vote_reply_ok_def using grows_vote [OF g] by blast
  show "append_request_ok \<sigma> n a \<Longrightarrow> append_request_ok \<sigma>' n a"
    unfolding append_request_ok_def
    using grows_leader [OF g] grows_log [OF g] grows_commit [OF g] by (meson order_trans prefix_order.trans)
  show "append_reply_ok \<sigma> m b \<Longrightarrow> append_reply_ok \<sigma>' m b"
    unfolding append_reply_ok_def using grows_ack [OF g] by (meson order_trans)
qed

lemma history_grows_refl [simp]: "history_grows \<sigma> \<sigma>"
  by (simp add: history_grows_def)

lemma history_grows_trans:
  assumes "history_grows \<sigma> \<sigma>'" and "history_grows \<sigma>' \<sigma>''"
  shows "history_grows \<sigma> \<sigma>''"
  unfolding history_grows_def
proof (intro conjI allI impI)
  fix T n assume "T < v_term (node_at \<sigma> n)"
  moreover from this have "T < v_term (node_at \<sigma>' n)" using grows_term [OF assms(1)] by (rule less_le_trans)
  ultimately show "h_vote \<sigma>'' T n = h_vote \<sigma> T n" "h_ack \<sigma>'' T n = h_ack \<sigma> T n"
    using grows_past [OF assms(1)] grows_past [OF assms(2)] by simp_all
qed (auto intro: order_trans [OF grows_term [OF assms(1)] grows_term [OF assms(2)]]
  grows_vote [OF assms(2) grows_vote [OF assms(1)]] grows_candidate [OF assms(2) grows_candidate [OF assms(1)]]
  grows_leader [OF assms(2) grows_leader [OF assms(1)]]
  prefix_order.trans [OF grows_log [OF assms(1)] grows_log [OF assms(2)]]
  order_trans [OF grows_ack [OF assms(1)] grows_ack [OF assms(2)]]
  order_trans [OF grows_commit [OF assms(1)] grows_commit [OF assms(2)]])

text \<open>Any number of protocol steps.\<close>

definition p_steps :: "string list \<Rightarrow> protocol \<Rightarrow> protocol \<Rightarrow> bool" where
  "p_steps ms = (p_step (majority_of ms))\<^sup>*\<^sup>*"

lemma p_steps_refl [simp]: "p_steps ms \<sigma> \<sigma>"
  by (simp add: p_steps_def)

lemma p_steps_step: "p_steps ms \<sigma> \<sigma>' \<Longrightarrow> p_step (majority_of ms) \<sigma>' \<sigma>'' \<Longrightarrow> p_steps ms \<sigma> \<sigma>''"
  by (simp add: p_steps_def)

lemma p_steps_one: "p_step (majority_of ms) \<sigma> \<sigma>' \<Longrightarrow> p_steps ms \<sigma> \<sigma>'"
  by (rule p_steps_step [OF p_steps_refl])

lemma p_steps_trans: "p_steps ms \<sigma> \<sigma>' \<Longrightarrow> p_steps ms \<sigma>' \<sigma>'' \<Longrightarrow> p_steps ms \<sigma> \<sigma>''"
  by (simp add: p_steps_def)

lemma p_steps_inv:
  assumes "p_steps ms \<sigma> \<sigma>'" and "protocol_inv (majority_of ms) \<sigma>"
  shows "protocol_inv (majority_of ms) \<sigma>' \<and> history_grows \<sigma> \<sigma>'"
  using assms(1) unfolding p_steps_def
proof (induction rule: rtranclp_induct)
  case (step \<tau> \<tau>')
  then have "history_grows \<tau> \<tau>'" by (intro majority.step_grows [of ms]) (simp_all add: protocol_inv_def)
  then show ?case
    using step majority.step_protocol_inv [OF step.hyps(2)] history_grows_trans by blast
qed (use assms(2) in simp)

section \<open>One core and the protocol\<close>

text \<open>The core \<open>s\<close> is the node \<open>n\<close> of \<open>\<sigma>\<close>, and what it is about to send is true.\<close>

definition core_matches :: "string list \<Rightarrow> protocol \<Rightarrow> string \<Rightarrow> 'g raft_core \<Rightarrow> bool" where
  "core_matches ms \<sigma> n s \<longleftrightarrow> node_at \<sigma> n = view s \<and> sound s \<and> node_id s = n \<and>
     set (cluster_members s) = set ms \<and> length (cluster_members s) = length ms \<and>
     (\<forall>a \<in> set (pending_request_vote_actions s). vote_request_ok \<sigma> n (rv_request a)) \<and>
     (\<forall>a \<in> set (pending_append_entries_actions s). append_request_ok \<sigma> n (ae_request a))"

lemma core_matchesD:
  assumes "core_matches ms \<sigma> n s"
  shows cm_view: "node_at \<sigma> n = view s" and cm_sound: "sound s" and cm_id: "node_id s = n"
    and cm_members: "set (cluster_members s) = set ms" "length (cluster_members s) = length ms"
    and cm_votes: "a \<in> set (pending_request_vote_actions s) \<Longrightarrow> vote_request_ok \<sigma> n (rv_request a)"
    and cm_appends: "b \<in> set (pending_append_entries_actions s) \<Longrightarrow> append_request_ok \<sigma> n (ae_request b)"
  using assms by (simp_all add: core_matches_def)

text \<open>An operation took the node from \<open>s\<close> to \<open>t\<close>, and the protocol along.\<close>

definition moves :: "string list \<Rightarrow> protocol \<Rightarrow> string \<Rightarrow> 'g raft_core \<Rightarrow> protocol \<Rightarrow> bool" where
  "moves ms \<sigma> n t \<sigma>' \<longleftrightarrow> p_steps ms \<sigma> \<sigma>' \<and> (\<forall>m. m \<noteq> n \<longrightarrow> node_at \<sigma>' m = node_at \<sigma> m) \<and> core_matches ms \<sigma>' n t"

lemma moves_same: "core_matches ms \<sigma> n s \<Longrightarrow> moves ms \<sigma> n s \<sigma>"
  by (simp add: moves_def)

lemma call_advances:
  assumes "core_ok s" and "within_bounds c s" and "call lib c s = (r, t)"
  shows "core_ok t" and "advances s t"
  using call_progress [OF assms(1,2), of lib] unfolding assms(3) by (simp_all add: leaves_def progress_def)

lemma call_keeps_id:
  assumes "core_matches ms \<sigma> n s" and "within_bounds c s" and "call lib c s = (r, t)"
  shows "node_id t = n" and "cluster_members t = cluster_members s"
  using call_advances(2) [OF soundD(1) [OF cm_sound [OF assms(1)]] assms(2,3)] cm_id [OF assms(1)]
  by (simp_all add: advances_def)

lemma moves_call:
  assumes cm: "core_matches ms \<sigma> n s" and b: "within_bounds c s" and run: "call lib c s = (Inr (), t)"
    and cmds: "commands_ok (log_entries t)"
    and steps: "p_steps ms \<sigma> \<sigma>'" "node_at \<sigma>' = (node_at \<sigma>)(n := view t)"
    and votes: "\<forall>a \<in> set (pending_request_vote_actions t). vote_request_ok \<sigma>' n (rv_request a)"
    and appends: "\<forall>a \<in> set (pending_append_entries_actions t). append_request_ok \<sigma>' n (ae_request a)"
  shows "moves ms \<sigma> n t \<sigma>'"
proof -
  have "sound t" using sound_after_call [OF cm_sound [OF cm] b run cmds] .
  then show ?thesis
    using call_keeps_id [OF cm b run] cm_members [OF cm] steps votes appends
    by (simp add: moves_def core_matches_def)
qed

text \<open>The queue of heartbeats tells the truth about a leader.\<close>

lemma replication_request_ok:
  assumes inv: "basic_inv Q \<sigma>" and s: "node_at \<sigma> n = view s" "sound s" "node_id s = n" "role s = Leader"
    and i: "0 < i" "i \<le> Suc (length (log_entries s))"
  shows "append_request_ok \<sigma> n (replication_request s i)"
proof -
  have l: "v_role (node_at \<sigma> n) = Leader" "v_term (node_at \<sigma> n) = current_term s" using s(1,4) by simp_all
  have len: "length (log_entries s) \<le> log_max_size" using core_ok_length soundD(1) [OF s(2)] by blast
  then have "unat (of_nat (i - 1) :: u64) = i - 1"
    using i by (cases i) (simp_all add: unat_of_nat log_max_size_def)
  then have "request_for (log_entries s) (i - 1) (replication_request s i)"
    using i by (simp add: request_for_def replication_request_def)
  moreover have "valid_log (current_term s) (log_entries s)" using core_ok_valid_log soundD(1) [OF s(2)] by blast
  ultimately show ?thesis
    using leader_now [OF inv l] leader_log [OF inv l] leader_commit [OF inv l] s len soundD(3) [OF s(2)]
    by (auto simp: append_request_ok_def replication_request_def intro!: exI [of _ "log_entries s"])
qed

lemma heartbeat_actions_ok:
  assumes inv: "basic_inv Q \<sigma>" and s: "node_at \<sigma> n = view s" "sound s" "node_id s = n" "role s = Leader"
  shows "\<forall>a \<in> set (heartbeat_actions s). append_request_ok \<sigma> n (ae_request a)"
proof -
  have "0 < next_of s m \<and> next_of s m \<le> Suc (length (log_entries s))" if "m \<in> set (others s)" for m
    using core_ok_replication [OF soundD(1) [OF s(2)] s(4)] that by (simp add: replication_ok_def)
  then show ?thesis
    using replication_request_ok [OF inv s] by (auto simp: heartbeat_actions_def)
qed

text \<open>Majorities of the core are majorities of the members.\<close>

lemma majority_votes:
  assumes "core_matches ms \<sigma> n s" and "A \<subseteq> set (cluster_members s)" and "majority_size s \<le> card A"
  shows "majority_of ms A"
proof -
  have "A \<inter> set ms = A" using assms(2) cm_members(1) [OF assms(1)] by blast
  then show ?thesis
    using assms(3) cm_members(2) [OF assms(1)] by (simp add: majority_of_def majority_size_def cluster_size_def)
qed

lemma majority_replicas:
  assumes "core_matches ms \<sigma> n s" and "set (cluster_members u) = set (cluster_members s)"
    and "length (cluster_members u) = length (cluster_members s)" and "node_id u = n" and "n \<in> set ms"
    and "majority_size u \<le> card (replicas u i)"
  shows "majority_of ms {m. m = n \<or> i \<le> match_of u m}"
proof -
  have "replicas u i \<subseteq> {m. m = n \<or> i \<le> match_of u m} \<inter> set ms"
    using assms(2,4,5) cm_members(1) [OF assms(1)] by (auto simp: replicas_def others_def)
  then have "card (replicas u i) \<le> card ({m. m = n \<or> i \<le> match_of u m} \<inter> set ms)"
    by (intro card_mono) auto
  then show ?thesis
    using assms(3,6) cm_members(2) [OF assms(1)] by (simp add: majority_of_def majority_size_def cluster_size_def)
qed

section \<open>The operations follow the protocol\<close>

lemma step_down_to:
  assumes "node_at \<sigma> n = view s" and "current_term s < T \<or> current_term s = T \<and> role s \<noteq> Leader"
  obtains \<sigma>' where "p_steps ms \<sigma> \<sigma>'" and "node_at \<sigma>' = (node_at \<sigma>)(n := followed T (view s))"
    and "h_vote \<sigma>' = h_vote \<sigma>" and "h_candidate \<sigma>' = h_candidate \<sigma>"
proof
  show "p_steps ms \<sigma> (p_step_down n T \<sigma>)"
    using assms by (intro p_steps_one p_step.step_down) auto
qed (simp_all add: p_step_down_def assms(1))

text \<open>A message of a later term makes any node a follower.\<close>

lemma moves_demoted:
  assumes cm: "core_matches ms \<sigma> n s" and run: "call lib c s = (Inr (), saved (demoted T s))"
    and b: "within_bounds c s" and T: "current_term s < T"
  obtains \<sigma>' where "moves ms \<sigma> n (saved (demoted T s)) \<sigma>'"
proof -
  obtain \<sigma>' where s: "p_steps ms \<sigma> \<sigma>'" "node_at \<sigma>' = (node_at \<sigma>)(n := followed T (view s))"
    using step_down_to [OF cm_view [OF cm]] T by blast
  have "moves ms \<sigma> n (saved (demoted T s)) \<sigma>'"
    using cm_sound [OF cm] T s by (intro moves_call [OF cm b run]) (simp_all add: sound_def)
  then show thesis by (rule that)
qed

lemma moves_start_election:
  assumes inv: "protocol_inv (majority_of ms) \<sigma>" and cm: "core_matches ms \<sigma> n s" and n: "n \<in> set ms"
    and s': "core_ok s'" "working s'" "view s' = view s" "majority_size s' = majority_size s" "node_id s' = n"
    and b: "within_bounds c s" "current_term s \<noteq> - 1"
    and run: "\<And>t. start_election lib s' = (Inr (), t) \<Longrightarrow> call lib c s = (Inr (), t)"
  obtains t \<sigma>' where "call lib c s = (Inr (), t)" and "moves ms \<sigma> n t \<sigma>'"
proof -
  let ?T = "current_term s + 1"
  have same: "current_term s' = current_term s" "log_entries s' = log_entries s"
    using arg_cong [OF s'(3), of v_term] arg_cong [OF s'(3), of v_log] by simp_all
  have lt: "current_term s < ?T"
    using b(2) later_term [OF b(2)] by (simp add: less_le)
  let ?\<sigma> = "p_campaign n ?T \<sigma>"
  have cmds: "commands_ok (log_entries s)" using soundD(3) [OF cm_sound [OF cm]] .
  have len: "length (log_entries s) \<le> log_max_size" using core_ok_length soundD(1) [OF cm_sound [OF cm]] by blast
  have st: "p_steps ms \<sigma> ?\<sigma>"
    using lt cm_view [OF cm] by (intro p_steps_one p_step.campaign) simp
  have node: "node_at ?\<sigma> = (node_at \<sigma>)(n := candidate_view n (view s))"
    by (simp add: p_campaign_def candidate_view_def cm_view [OF cm])
  have "current_term s' \<noteq> - 1" using b(2) same by simp
  with s'(1,2) show thesis
  proof (cases rule: start_election_view [where lib = lib])
    case (candidate t)
    have r: "call lib c s = (Inr (), t)" by (rule run [OF candidate(1)])
    have v: "view t = candidate_view n (view s)" using candidate(2) s'(3,5) by simp
    have t: "current_term t = ?T" "log_entries t = log_entries s"
      using arg_cong [OF v, of v_term] arg_cong [OF v, of v_log] by (simp_all add: candidate_view_def)
    have "node_id t = n" by (rule call_keeps_id(1) [OF cm b(1) r])
    then have "\<forall>a \<in> set (pending_request_vote_actions t). vote_request_ok ?\<sigma> n (rv_request a)"
      using candidate(4) t len cm_view [OF cm]
      by (auto simp: vote_actions_def vote_request_ok_def p_campaign_def last_log_index_def last_log_term_def)
    then have "moves ms \<sigma> n t ?\<sigma>"
      using candidate(3) t(2) cmds node v by (intro moves_call [OF cm b(1) r _ st]) simp_all
    with r show thesis by (rule that)
  next
    case (leader t)
    have r: "call lib c s = (Inr (), t)" by (rule run [OF leader(1)])
    have v: "view t = leader_view (candidate_view n (view s))" using leader(2) s'(3,5) by simp
    have t: "log_entries t = log_entries s" "role t = Leader"
      using arg_cong [OF v, of v_log] arg_cong [OF v, of v_role] by (simp_all add: candidate_view_def leader_view_def)
    have "majority_of ms {n}"
      using majority_votes [OF cm, of "{n}"] leader(5) s'(4) n cm_members(1) [OF cm] by simp
    then have st2: "p_steps ms \<sigma> (p_win n ?\<sigma>)"
      using node by (intro p_steps_step [OF st] p_step.win) (simp_all add: candidate_view_def)
    have node2: "node_at (p_win n ?\<sigma>) = (node_at \<sigma>)(n := view t)"
      using node v by (simp add: p_win_def Let_def leader_view_def)
    have snd: "sound t" using sound_after_call [OF cm_sound [OF cm] b(1) r] t(1) cmds by simp
    have "node_id t = n" by (rule call_keeps_id(1) [OF cm b(1) r])
    moreover have "basic_inv (majority_of ms) (p_win n ?\<sigma>)"
      using p_steps_inv [OF st2 inv] by (simp add: protocol_inv_def)
    ultimately have "\<forall>a \<in> set (pending_append_entries_actions t). append_request_ok (p_win n ?\<sigma>) n (ae_request a)"
      using heartbeat_actions_ok [of "majority_of ms" "p_win n ?\<sigma>" n t] node2 snd t(2) leader(3) by simp
    then have "moves ms \<sigma> n t (p_win n ?\<sigma>)"
      using leader(4) t(1) cmds by (intro moves_call [OF cm b(1) r _ st2 node2]) simp_all
    with r show thesis by (rule that)
  qed
qed

text \<open>Pending messages stay true when an operation leaves the queue alone.\<close>

lemma moves_kept:
  assumes cm: "core_matches ms \<sigma> n s" and inv: "protocol_inv (majority_of ms) \<sigma>"
    and b: "within_bounds c s" and run: "call lib c s = (Inr (), t)"
    and steps: "p_steps ms \<sigma> \<sigma>'" "node_at \<sigma>' = (node_at \<sigma>)(n := view t)"
    and log: "commands_ok (log_entries t)"
    and votes: "set (pending_request_vote_actions t) \<subseteq> set (pending_request_vote_actions s)"
    and appends: "set (pending_append_entries_actions t) \<subseteq> set (pending_append_entries_actions s)"
  shows "moves ms \<sigma> n t \<sigma>'"
proof -
  have g: "history_grows \<sigma> \<sigma>'" using p_steps_inv [OF steps(1) inv] by simp
  show ?thesis
    using votes appends cm_votes [OF cm] cm_appends [OF cm] messages_grow(1,3) [OF g]
    by (intro moves_call [OF cm b run log steps]) blast+
qed

lemma up_to_date_position:
  assumes "length own \<le> log_max_size" and "length es \<le> log_max_size"
  shows "position_of own \<le> Log_Position (last_term_of es) (last_index_of es) \<longleftrightarrow> up_to_date own es"
proof -
  have "last_index_of own \<le> last_index_of es \<longleftrightarrow> length own \<le> length es"
    using assms by (simp add: word_le_nat_alt unat_last_index)
  then show ?thesis by (auto simp: position_of_def less_eq_log_position_def up_to_date_def)
qed

lemma in_term_pending:
  "set (pending_request_vote_actions (in_term T s)) \<subseteq> set (pending_request_vote_actions s)"
  "set (pending_append_entries_actions (in_term T s)) \<subseteq> set (pending_append_entries_actions s)"
  by (simp_all add: in_term_def)

lemma moves_request_vote:
  assumes inv: "protocol_inv (majority_of ms) \<sigma>" and cm: "core_matches ms \<sigma> n s"
    and q: "vote_request_ok \<sigma> m q"
  obtains t r \<sigma>' where "handle_request_vote lib q s = (Inr r, t)" and "moves ms \<sigma> n t \<sigma>'" and "vote_reply_ok \<sigma>' n m r"
proof -
  have ok: "core_ok s" and w: "working s" and cmds: "commands_ok (log_entries s)"
    using soundD [OF cm_sound [OF cm]] by simp_all
  let ?T = "rv_term q" and ?u = "in_term (rv_term q) s"
  obtain es where es: "h_candidate \<sigma> ?T m = Some es" "rv_last_log_term q = last_term_of es"
      "rv_last_log_index q = last_index_of es" "length es \<le> log_max_size" and c: "candidate_id q = m"
    using q by (auto simp: vote_request_ok_def)
  have b: "within_bounds (Handle_Request_Vote q) s" by (simp add: within_bounds_def)
  show thesis
  proof (cases "m \<notin> set (cluster_members s) \<or> ?T < current_term s")
    case True
    then have "handle_request_vote lib q s = (Inr \<lparr>rvr_term = current_term s, vote_granted = False\<rparr>, s)"
      using c by (simp add: handle_request_vote_working [OF ok w])
    then show thesis using moves_same [OF cm] by (rule that) (simp add: vote_reply_ok_def)
  next
    case False
    have le: "current_term s \<le> ?T" using False by (simp add: not_less)
    obtain \<sigma>' where st: "p_steps ms \<sigma> \<sigma>'" and node: "node_at \<sigma>' = (node_at \<sigma>)(n := view ?u)"
      and hist: "h_candidate \<sigma>' = h_candidate \<sigma>"
    proof (cases "current_term s < ?T")
      case True
      then obtain \<sigma>' where "p_steps ms \<sigma> \<sigma>'" "node_at \<sigma>' = (node_at \<sigma>)(n := followed ?T (view s))"
          "h_candidate \<sigma>' = h_candidate \<sigma>"
        using step_down_to [OF cm_view [OF cm]] by blast
      then show thesis using that True by (simp add: view_in_term [OF ok])
    next
      case False
      then have "node_at \<sigma> = (node_at \<sigma>)(n := view ?u)"
        using cm_view [OF cm] by (simp add: in_term_def fun_upd_idem)
      then show thesis by (intro that [of \<sigma>]) simp_all
    qed
    have run: "handle_request_vote lib q s = (if grants ?u q
        then (Inr \<lparr>rvr_term = ?T, vote_granted = True\<rparr>, voted lib m ?u)
        else (Inr \<lparr>rvr_term = ?T, vote_granted = False\<rparr>, ?u))"
      using False c by (simp add: handle_request_vote_working [OF ok w] Let_def)
    show thesis
    proof (cases "grants ?u q")
      case False
      then have r: "handle_request_vote lib q s = (Inr \<lparr>rvr_term = ?T, vote_granted = False\<rparr>, ?u)" using run by simp
      then have "call lib (Handle_Request_Vote q) s = (Inr (), ?u)" by (simp add: discard_def)
      then have "moves ms \<sigma> n ?u \<sigma>'"
        using cmds in_term_pending by (intro moves_kept [OF cm inv b _ st node]) simp_all
      with r show thesis by (rule that) (simp add: vote_reply_ok_def)
    next
      case True
      let ?t = "voted lib m ?u"
      have r: "handle_request_vote lib q s = (Inr \<lparr>rvr_term = ?T, vote_granted = True\<rparr>, ?t)" using run True by simp
      then have run': "call lib (Handle_Request_Vote q) s = (Inr (), ?t)" by (simp add: discard_def)
      have view: "view ?t = (view ?u)\<lparr>v_vote := Some m\<rparr>" by (simp add: voted_def view_update)
      have ct: "current_term ?u = ?T" using le by (simp add: max_def)
      have "up_to_date (log_entries s) es"
        using True es up_to_date_position [OF core_ok_length [OF ok] es(4)] by (simp add: grants_def)
      then have g: "p_step (majority_of ms) \<sigma>' (p_grant n m \<sigma>')"
        using True es(1) node hist ct c by (intro p_step.grant [where es = es]) (simp_all add: grants_def)
      have n2: "node_at (p_grant n m \<sigma>') = (node_at \<sigma>)(n := view ?t)"
        using node view by (simp add: p_grant_def Let_def)
      have "moves ms \<sigma> n ?t (p_grant n m \<sigma>')"
      proof (rule moves_kept [OF cm inv b run' p_steps_step [OF st g] n2])
        show "commands_ok (log_entries ?t)" using cmds by (simp add: voted_def)
        show "set (pending_request_vote_actions ?t) \<subseteq> set (pending_request_vote_actions s)"
          "set (pending_append_entries_actions ?t) \<subseteq> set (pending_append_entries_actions s)"
          using in_term_pending by (simp_all add: voted_def)
      qed
      moreover have "vote_reply_ok (p_grant n m \<sigma>') n m \<lparr>rvr_term = ?T, vote_granted = True\<rparr>"
        using node ct by (simp add: vote_reply_ok_def p_grant_def Let_def)
      ultimately show thesis using r that by blast
    qed
  qed
qed

lemma moves_receive_vote:
  assumes inv: "protocol_inv (majority_of ms) \<sigma>" and cm: "core_matches ms \<sigma> n s"
    and r: "vote_reply_ok \<sigma> m n r"
  obtains \<sigma>' where "moves ms \<sigma> n (final (receive_vote m r s)) \<sigma>'"
proof -
  have ok: "core_ok s" and w: "working s" and cmds: "commands_ok (log_entries s)"
    using soundD [OF cm_sound [OF cm]] by simp_all
  have b: "within_bounds (Receive_Vote m r) s" by (simp add: within_bounds_def)
  have count: "p_steps ms \<sigma> (p_collect n m \<sigma>)"
      "node_at (p_collect n m \<sigma>) = (node_at \<sigma>)(n := (view s)\<lparr>v_votes := insert m (votes_received s)\<rparr>)"
    if "role s = Candidate" "rvr_term r = current_term s" "vote_granted r"
  proof -
    show "p_steps ms \<sigma> (p_collect n m \<sigma>)"
      using that r cm_view [OF cm] by (intro p_steps_one p_step.collect) (simp_all add: vote_reply_ok_def)
  qed (simp add: p_collect_def cm_view [OF cm])
  from ok w show thesis
  proof (cases rule: receive_vote_view [where m = m and r = r])
    case (unknown e)
    then show thesis using moves_same [OF cm] by (intro that [of \<sigma>]) simp
  next
    case ignored
    then show thesis using moves_same [OF cm] by (intro that [of \<sigma>]) simp
  next
    case later
    then show thesis using moves_demoted [OF cm _ b later(2), of lib] that by auto
  next
    case counted
    let ?t = "s\<lparr>votes_received := insert m (votes_received s)\<rparr>"
    have run: "call lib (Receive_Vote m r) s = (Inr (), ?t)" using counted(1) by simp
    have "moves ms \<sigma> n ?t (p_collect n m \<sigma>)"
      using cmds count(2) [OF counted(2-4)]
      by (intro moves_kept [OF cm inv b run count(1) [OF counted(2-4)]]) (simp_all add: view_update)
    then show thesis using counted(1) that by simp
  next
    case (won t)
    have run: "call lib (Receive_Vote m r) s = (Inr (), t)" using won(1) by simp
    note c = count [OF won(2-4)]
    have "majority_of ms (insert m (votes_received s))" using majority_votes [OF cm won(6,5)] .
    then have st: "p_steps ms \<sigma> (p_win n (p_collect n m \<sigma>))"
      using c(2) won(2) by (intro p_steps_step [OF c(1)] p_step.win) simp_all
    have node: "node_at (p_win n (p_collect n m \<sigma>)) = (node_at \<sigma>)(n := view t)"
      using c(2) won(7) by (simp add: p_win_def Let_def leader_view_def)
    have t: "log_entries t = log_entries s" "role t = Leader"
      using arg_cong [OF won(7), of v_log] arg_cong [OF won(7), of v_role] by (simp_all add: leader_view_def)
    have snd: "sound t" using sound_after_call [OF cm_sound [OF cm] b run] t(1) cmds by simp
    have "node_id t = n" by (rule call_keeps_id(1) [OF cm b run])
    moreover have "basic_inv (majority_of ms) (p_win n (p_collect n m \<sigma>))"
      using p_steps_inv [OF st inv] by (simp add: protocol_inv_def)
    ultimately have "\<forall>a \<in> set (pending_append_entries_actions t).
        append_request_ok (p_win n (p_collect n m \<sigma>)) n (ae_request a)"
      using heartbeat_actions_ok [of "majority_of ms" _ n t] node snd t(2) won(8) by simp
    then have "moves ms \<sigma> n t (p_win n (p_collect n m \<sigma>))"
      using won(9) t(1) cmds by (intro moves_call [OF cm b run _ st node]) simp_all
    then show thesis using won(1) that by simp
  qed
qed

lemma moves_commit:
  assumes cm: "core_matches ms \<sigma> n s" and n: "n \<in> set ms"
    and u: "node_at \<tau> = (node_at \<sigma>)(n := view u)" "role u = Leader" "node_id u = n"
      "cluster_members u = cluster_members s"
    and c: "commits_to u c" and st: "p_steps ms \<sigma> \<tau>"
  obtains \<sigma>' where "p_steps ms \<sigma> \<sigma>'" and "node_at \<sigma>' = (node_at \<sigma>)(n := (view u)\<lparr>v_commit := unat c\<rparr>)"
proof (cases "c = commit_index u")
  case True
  have "(view u)\<lparr>v_commit := unat c\<rparr> = view u" using True by (simp add: view_def)
  then show thesis using st u(1) by (intro that [of \<tau>]) simp_all
next
  case False
  with c have i: "commit_index u < c" "unat c \<le> length (log_entries u)"
    "term_at (log_entries u) (unat c) = current_term u" "majority_size u \<le> card (replicas u (unat c))"
    by (simp_all add: commits_to_def)
  have "majority_of ms {m. m = n \<or> unat c \<le> match_of u m}"
    using majority_replicas [OF cm _ _ u(3) n i(4)] u(4) by simp
  then have "p_step (majority_of ms) \<tau> (p_commit n (unat c) \<tau>)"
    using u i by (intro p_step.commit) (simp_all add: word_less_nat_alt)
  moreover have "node_at (p_commit n (unat c) \<tau>) = (node_at \<sigma>)(n := (view u)\<lparr>v_commit := unat c\<rparr>)"
    by (simp add: p_commit_def Let_def u(1))
  ultimately show thesis using that p_steps_step [OF st] by blast
qed

lemma moves_append_command:
  assumes inv: "protocol_inv (majority_of ms) \<sigma>" and cm: "core_matches ms \<sigma> n s" and n: "n \<in> set ms"
    and b: "within_bounds (Append_Command cmd) s" and cmd: "is_key_value_command cmd \<Longrightarrow> well_formed_command cmd"
  obtains \<sigma>' where "moves ms \<sigma> n (final (append_command cmd s)) \<sigma>'"
proof (cases "role s = Leader \<and> cmd \<noteq> []")
  case False
  then have "final (append_command cmd s) = s" by (auto simp: append_command_def)
  then show thesis using moves_same [OF cm] that by simp
next
  case True
  let ?e = "\<lparr>entry_term = current_term s, command = cmd\<rparr>"
  let ?s1 = "s\<lparr>log_entries := log_entries s @ [?e]\<rparr>" and ?\<sigma> = "p_append n cmd \<sigma>"
  have len: "length (log_entries s) < log_max_size" using b by (simp add: within_bounds_def)
  obtain c t where run: "append_command cmd s = (Inr (of_nat (Suc (length (log_entries s)))), t)"
    and c: "commits_to ?s1 c" and view: "view t = (view ?s1)\<lparr>v_commit := unat c\<rparr>"
    and pend: "pending_append_entries_actions t = heartbeat_actions t"
      "pending_request_vote_actions t = pending_request_vote_actions s"
    using True cmd by (elim append_command_view [OF cm_sound [OF cm] _ len, rotated 2]) simp_all
  have run': "call lib (Append_Command cmd) s = (Inr (), t)" for lib :: "'a std_lib"
    using run by (simp add: discard_def)
  have st: "p_steps ms \<sigma> ?\<sigma>"
    using True cm_view [OF cm] by (intro p_steps_one p_step.append) simp
  have node: "node_at ?\<sigma> = (node_at \<sigma>)(n := view ?s1)"
    using cm_view [OF cm] by (simp add: p_append_def Let_def view_update)
  obtain \<sigma>' where st': "p_steps ms \<sigma> \<sigma>'" and node': "node_at \<sigma>' = (node_at \<sigma>)(n := view t)"
    using moves_commit [OF cm n node _ _ _ c st] True cm_id [OF cm] view by auto
  have t: "log_entries t = log_entries s @ [?e]" "role t = Leader"
    using arg_cong [OF view, of v_log] arg_cong [OF view, of v_role] True by (simp_all add: view_update)
  have cmds: "commands_ok (log_entries t)"
    using t soundD(3) [OF cm_sound [OF cm]] cmd by (simp add: commands_ok_def)
  have snd: "sound t" using sound_after_call [OF cm_sound [OF cm] b run' cmds] .
  have "node_id t = n" by (rule call_keeps_id(1) [OF cm b run'])
  then have "\<forall>a \<in> set (pending_append_entries_actions t). append_request_ok \<sigma>' n (ae_request a)"
    using heartbeat_actions_ok [of "majority_of ms" \<sigma>' n t] node' snd t(2) pend(1) p_steps_inv [OF st' inv]
    by (simp add: protocol_inv_def)
  moreover have "\<forall>a \<in> set (pending_request_vote_actions t). vote_request_ok \<sigma>' n (rv_request a)"
    using pend(2) cm_votes [OF cm] messages_grow(1) p_steps_inv [OF st' inv] by metis
  ultimately have "moves ms \<sigma> n t \<sigma>'"
    using moves_call [OF cm b run' cmds st' node'] by blast
  then show thesis using run that by simp
qed

lemma moves_queue_heartbeats:
  assumes inv: "protocol_inv (majority_of ms) \<sigma>" and cm: "core_matches ms \<sigma> n s"
  shows "moves ms \<sigma> n (final (queue_heartbeat_actions s)) \<sigma>"
proof (cases "role s = Leader")
  case False
  then show ?thesis using moves_same [OF cm] by (simp add: queue_heartbeat_actions_def)
next
  case True
  have ok: "core_ok s" using soundD(1) [OF cm_sound [OF cm]] .
  let ?t = "s\<lparr>pending_append_entries_actions := heartbeat_actions s\<rparr>"
  have run: "queue_heartbeat_actions s = (Inr (), ?t)"
    by (rule queue_heartbeat_actions_eq [OF True core_ok_length [OF ok] core_ok_replication [OF ok True]])
  then have run': "call lib Queue_Heartbeat_Actions s = (Inr (), ?t)" for lib :: "'a std_lib" by simp
  have "basic_inv (majority_of ms) \<sigma>" using inv by (simp add: protocol_inv_def)
  then have "\<forall>a \<in> set (heartbeat_actions s). append_request_ok \<sigma> n (ae_request a)"
    using cm True by (intro heartbeat_actions_ok) (simp_all add: core_matches_def)
  moreover have "within_bounds Queue_Heartbeat_Actions s" by (simp add: within_bounds_def)
  ultimately have "moves ms \<sigma> n ?t \<sigma>"
    using soundD(3) [OF cm_sound [OF cm]] cm_view [OF cm] cm_votes [OF cm]
    by (intro moves_call [OF cm _ run']) auto
  then show ?thesis using run by simp
qed

lemma under_leader_pending:
  assumes "core_ok s"
  shows "pending_request_vote_actions (under_leader lib q s) = [] \<and>
    pending_append_entries_actions (under_leader lib q s) = []"
  using assms by (auto simp: under_leader_def follow_leader_def core_ok_defs)

lemma moves_append_entries:
  assumes inv: "protocol_inv (majority_of ms) \<sigma>" and cm: "core_matches ms \<sigma> n s"
    and q: "append_request_ok \<sigma> l q" "l \<noteq> n" and b: "within_bounds (Handle_Append_Entries q) s"
  obtains t r \<sigma>' where "handle_append_entries lib q s = (Inr r, t)" and "moves ms \<sigma> n t \<sigma>'" and "append_reply_ok \<sigma>' n r"
proof -
  have ok: "core_ok s" and w: "working s" and cmds: "commands_ok (log_entries s)"
    using soundD [OF cm_sound [OF cm]] by simp_all
  have inv': "basic_inv (majority_of ms) \<sigma>" using inv by (simp add: protocol_inv_def)
  let ?T = "ae_term q" and ?own = "log_entries s"
  obtain es p where es: "prefix es (h_log \<sigma> ?T)" "request_for es p q" "valid_log ?T es" "commands_ok es"
      "length es \<le> log_max_size"
    and l: "ae_leader_id q = l" "h_leader \<sigma> ?T = Some l" "unat (leader_commit q) \<le> h_commit \<sigma> ?T"
    using q(1) by (auto simp: append_request_ok_def)
  have qe: "entries q = drop p es" "unat (prev_log_index q) = p" "p \<le> length es"
    using es(2) by (simp_all add: request_for_def)
  have cq: "commands_ok (entries q)" using es(4) qe(1) by (auto simp: commands_ok_def dest: in_set_dropD)
  have room: "length ?own + length (entries q) \<le> log_max_size" using b by (simp add: within_bounds_def)
  note run = handle_append_entries_working [OF ok w room cmds cq, of lib]
  show thesis
  proof (cases "l \<notin> set (cluster_members s) \<or> ?T < current_term s")
    case True
    then have "handle_append_entries lib q s = (Inr \<lparr>aer_term = current_term s, success = False, matched_index = 0\<rparr>, s)"
      using run l(1) by simp
    then show thesis using moves_same [OF cm] by (rule that) (simp add: append_reply_ok_def)
  next
    case False
    then have le: "current_term s \<le> ?T" and mem: "ae_leader_id q \<in> set (cluster_members s)"
      using l(1) by (simp_all add: not_less)
    have nl: "\<not> (current_term s = ?T \<and> role s = Leader)"
      using leader_now [OF inv', of n ?T] cm_view [OF cm] l(2) q(2) by auto
    show thesis
    proof (cases "reconciled_log q s")
      case None
      let ?t = "under_leader lib q s"
      have r: "handle_append_entries lib q s = (Inr \<lparr>aer_term = ?T, success = False, matched_index = 0\<rparr>, ?t)"
        using run None False l(1) by simp
      then have run': "call lib (Handle_Append_Entries q) s = (Inr (), ?t)" by (simp add: discard_def)
      obtain \<sigma>' where st: "p_steps ms \<sigma> \<sigma>'" "node_at \<sigma>' = (node_at \<sigma>)(n := followed ?T (view s))"
        using step_down_to [OF cm_view [OF cm], of ?T ms] le nl by (auto simp: order_le_less)
      have "moves ms \<sigma> n ?t \<sigma>'"
        using cmds under_leader_pending [OF ok] st(2) view_under_leader [OF ok le]
        by (intro moves_call [OF cm b run' _ st(1)]) simp_all
      with r show thesis by (rule that) (simp add: append_reply_ok_def)
    next
      case (Some new)
      let ?t = "appended lib q new s" and ?\<sigma> = "p_follow n ?T es (unat (leader_commit q)) \<sigma>"
      have good: "log_matching ?own es"
        using good_logs_match [OF node_good [OF inv', of n]
          good_log_prefix [OF leader_good [OF inv'] es(1)]] cm_view [OF cm] by simp
      have new: "new = merged ?own es"
        using Some unfolding reconciled_log_matching [OF es(2) good es(3,5)]
        by (auto simp: Let_def split: if_splits)
      have r: "handle_append_entries lib q s = (Inr \<lparr>aer_term = ?T, success = True,
          matched_index = prev_log_index q + of_nat (length (entries q))\<rparr>, ?t)"
        using run Some False l(1) by simp
      then have run': "call lib (Handle_Append_Entries q) s = (Inr (), ?t)" by (simp add: discard_def)
      have m: "unat (prev_log_index q + of_nat (length (entries q))) = length es"
      proof -
        have "unat (prev_log_index q) + length (entries q) \<le> log_max_size" using qe es(5) by simp
        then show ?thesis using qe by (subst unat_add_small) simp_all
      qed
      have view: "view ?t = (followed ?T (view s))\<lparr>v_log := merged ?own es,
          v_commit := max (unat (commit_index s)) (min (unat (leader_commit q)) (length es))\<rparr>"
        using view_appended [OF ok le mem Some room, of lib] qe new by simp
      have log: "log_entries ?t = merged ?own es" using arg_cong [OF view, of v_log] by simp
      have "take (unat (commit_index s)) (log_entries ?t) = take (unat (commit_index s)) ?own"
        using call_advances(2) [OF ok b run'] by (simp add: advances_def)
      then have st: "p_step (majority_of ms) \<sigma> ?\<sigma>"
        using cm_view [OF cm] le l q(2) es(1) log by (intro p_step.follow) simp_all
      have node: "node_at ?\<sigma> = (node_at \<sigma>)(n := view ?t)"
        using view cm_view [OF cm] by (simp add: p_follow_def Let_def)
      have "pending_request_vote_actions ?t = [] \<and> pending_append_entries_actions ?t = []"
      proof -
        have "core_ok ?t" by (rule call_advances(1) [OF ok b run'])
        moreover have "role ?t = Follower" using arg_cong [OF view, of v_role] by simp
        ultimately show ?thesis by (simp add: core_ok_defs)
      qed
      moreover have "commands_ok (merged ?own es)" using cmds es(4) by (simp add: merged_def)
      ultimately have "moves ms \<sigma> n ?t ?\<sigma>"
        using log by (intro moves_call [OF cm b run' _ p_steps_one [OF st] node]) simp_all
      moreover have "append_reply_ok ?\<sigma> n \<lparr>aer_term = ?T, success = True,
          matched_index = prev_log_index q + of_nat (length (entries q))\<rparr>"
        using m by (simp add: append_reply_ok_def p_follow_def Let_def)
      ultimately show thesis using r that by blast
    qed
  qed
qed

lemma moves_append_reply:
  assumes inv: "protocol_inv (majority_of ms) \<sigma>" and cm: "core_matches ms \<sigma> n s" and n: "n \<in> set ms"
    and r: "append_reply_ok \<sigma> m r" and m: "m \<in> set ms" "m \<noteq> n"
  obtains \<sigma>' where "moves ms \<sigma> n (final (receive_append_entries_response m r s)) \<sigma>'"
proof -
  have ok: "core_ok s" and cmds: "commands_ok (log_entries s)" using soundD [OF cm_sound [OF cm]] by simp_all
  have b: "within_bounds (Receive_Append_Entries_Response m r) s" by (simp add: within_bounds_def)
  have o: "m \<in> set (others s)" using m cm_members(1) [OF cm] cm_id [OF cm] by (simp add: others_def)
  note run = call.simps(11) [where follower = m and response = r and s = s]
  from cm_sound [OF cm] o show thesis
  proof (cases rule: append_response_view [where r = r])
    case later
    then show thesis using moves_demoted [OF cm _ b later(2)] that by auto
  next
    case stale
    then show thesis using moves_same [OF cm] by (intro that [of \<sigma>]) simp
  next
    case (refused t)
    have "view t = view s" using refused(5) by simp
    then have "node_at \<sigma> = (node_at \<sigma>)(n := view t)" using cm_view [OF cm] by (simp add: fun_upd_idem)
    then have "moves ms \<sigma> n t \<sigma>"
      using refused(1,5) cmds by (intro moves_kept [OF cm inv b _ p_steps_refl]) (simp_all add: run)
    then show thesis using refused(1) that by simp
  next
    case (beyond e)
    then show thesis using moves_same [OF cm] by (intro that [of \<sigma>]) simp
  next
    case (confirmed c t i k)
    let ?u = "confirmed m (matched_index r) i k s" and ?\<tau> = "p_confirm n m (unat (matched_index r)) \<sigma>"
    have vu: "view ?u = (view s)\<lparr>v_match := (match_of s)(m := max (match_of s m) (unat (matched_index r)))\<rparr>"
      by (rule view_confirmed [OF confirmed(7)])
    have su: "role ?u = Leader" "node_id ?u = n" "cluster_members ?u = cluster_members s"
        "log_entries ?u = log_entries s" "commit_index ?u = commit_index s" "working ?u"
        "pending_request_vote_actions ?u = pending_request_vote_actions s"
        "pending_append_entries_actions ?u = pending_append_entries_actions s"
      using confirmed(2) cm_id [OF cm] soundD(4) [OF cm_sound [OF cm]] by (simp_all add: confirmed_def Let_def)
    have "unat (matched_index r) \<le> h_ack \<sigma> (current_term s) m"
      using r confirmed(3,4) by (simp add: append_reply_ok_def)
    then have st: "p_steps ms \<sigma> ?\<tau>"
      using confirmed(2) cm_view [OF cm] by (intro p_steps_one p_step.confirm) simp_all
    have node: "node_at ?\<tau> = (node_at \<sigma>)(n := view ?u)"
      using vu cm_view [OF cm] by (simp add: p_confirm_def Let_def)
    obtain \<sigma>' where st': "p_steps ms \<sigma> \<sigma>'" and node': "node_at \<sigma>' = (node_at \<sigma>)(n := (view ?u)\<lparr>v_commit := unat c\<rparr>)"
      using moves_commit [OF cm n node su(1-3) confirmed(9) st] by blast
    have c: "commit_index ?u \<le> c" "unat c \<le> length (log_entries ?u)"
      using confirmed(9) core_ok_commit [OF confirmed(8)] by (auto simp: commits_to_def)
    note sel = committed_to_select [OF confirmed(8) c]
    have t: "view t = (view ?u)\<lparr>v_commit := unat c\<rparr> \<and> log_entries t = log_entries s \<and>
        pending_request_vote_actions t = pending_request_vote_actions s \<and>
        pending_append_entries_actions t = pending_append_entries_actions s"
      using confirmed(10)
    proof
      assume "t = ?u \<and> c = commit_index s"
      then show ?thesis using su vu by (simp add: view_def)
    next
      assume "t = saved (committed_to c ?u)"
      then show ?thesis using su sel view_committed_to [OF confirmed(8) c] by simp
    qed
    then have "moves ms \<sigma> n t \<sigma>'"
      using node' cmds confirmed(1) by (intro moves_kept [OF cm inv b _ st']) (simp_all add: run)
    then show thesis using confirmed(1) that by simp
  qed
qed

text \<open>A restart keeps what is on disk, and forgets the rest.\<close>

lemma fresh_view:
  assumes "fresh_node (persistent_part s) t" and "core_ok s"
  shows "view t = (view s)\<lparr>v_role := Follower, v_votes := {}, v_match := (\<lambda>_. 0)\<rparr>"
    and "pending_request_vote_actions t = []" and "pending_append_entries_actions t = []"
    and "log_entries t = log_entries s" and "core_ok t"
proof -
  have t: "core_ok t" "role t = Follower" "persistent_part t = persistent_part s"
    using assms(1) by (simp_all add: fresh_node_def)
  then show "pending_request_vote_actions t = []" "pending_append_entries_actions t = []" "core_ok t"
    by (simp_all add: core_ok_defs)
  show "log_entries t = log_entries s" using t(3) by (simp add: persistent_part_def)
  show "view t = (view s)\<lparr>v_role := Follower, v_votes := {}, v_match := (\<lambda>_. 0)\<rparr>"
    using t(2,3) follower_view [OF t(1,2)] by (simp add: view_def persistent_part_def)
qed

lemma moves_restart:
  assumes lib: "iterates_once lib" and inv: "protocol_inv (majority_of ms) \<sigma>" and cm: "core_matches ms \<sigma> n s"
    and p: "storage_path s \<noteq> []"
    and run: "new_raft_core lib n ms 0 [] lo hi seed (storage_path s) (disk s) = (Inr t, d)"
  shows "moves ms \<sigma> n t (p_restart n \<sigma>)"
proof -
  have ok: "core_ok s" "synced s" "commands_ok (log_entries s)" using soundD [OF cm_sound [OF cm]] by simp_all
  have conf: "check_configuration n lo hi ms = Inr ms"
    using new_raft_core_cases [OF lib, of "[]" n ms 0 lo hi seed "storage_path s" "disk s"] run by force
  obtain u where u: "new_raft_core lib n ms 0 [] lo hi seed (storage_path s) (disk s) = (Inr u, disk u)"
    and fresh: "fresh_node (persistent_part s) u" "synced u" and id: "node_id u = n"
    and mem: "set (cluster_members u) = set (cluster_members s)" "cluster_members u = set_order lib ms"
    using restart_result [OF ok(1,2) p lib, of lo hi ms "[]" 0 seed] conf cm_id [OF cm] cm_members(1) [OF cm] ok(3)
    by (metis commands_ok_take list.size(3) zero_le)
  have "t = u" using u run by simp
  note f = fresh_view [OF fresh(1) ok(1)]
  have "distinct (set_order lib ms) \<and> set (set_order lib ms) = set ms"
    using lib conf by (simp add: iterates_once_def check_configuration_iff)
  then have len: "length (cluster_members u) = length ms"
    using mem(2) conf by (simp add: check_configuration_iff) (metis distinct_card)
  have node: "node_at (p_restart n \<sigma>) = (node_at \<sigma>)(n := view u)"
    using f(1) cm_view [OF cm] by (simp add: p_restart_def)
  have "all_applied u" using fresh(1) \<open>t = u\<close> by (simp add: fresh_node_def all_applied_def)
  then have "sound u" using f(4,5) fresh(2) ok(3) by (simp add: sound_def)
  then have "core_matches ms (p_restart n \<sigma>) n u"
    using f(2,3) id mem(1) cm_members(1) [OF cm] len node by (simp add: core_matches_def)
  then show ?thesis
    using node \<open>t = u\<close> by (simp add: moves_def p_steps_one p_step.restart)
qed

section \<open>The simulation\<close>

definition messages_ok :: "string list \<Rightarrow> 'g world \<Rightarrow> protocol \<Rightarrow> bool" where
  "messages_ok ms w \<sigma> \<longleftrightarrow>
     (\<forall>(n, m, q) \<in> set (vote_requests w). n \<in> set ms \<and> m \<in> set ms \<and> vote_request_ok \<sigma> n q) \<and>
     (\<forall>(m, n, r) \<in> set (vote_replies w). n \<in> set ms \<and> vote_reply_ok \<sigma> m n r) \<and>
     (\<forall>(n, m, q) \<in> set (append_requests w). n \<in> set ms \<and> m \<in> set ms \<and> n \<noteq> m \<and> append_request_ok \<sigma> n q) \<and>
     (\<forall>(m, n, r) \<in> set (append_replies w). n \<in> set ms \<and> m \<in> set ms \<and> m \<noteq> n \<and> append_reply_ok \<sigma> m r)"

definition simulates :: "string list \<Rightarrow> 'g world \<Rightarrow> protocol \<Rightarrow> bool" where
  "simulates ms w \<sigma> \<longleftrightarrow> protocol_inv (majority_of ms) \<sigma> \<and>
     (\<forall>n \<in> set ms. core_matches ms \<sigma> n (cores w n)) \<and> messages_ok ms w \<sigma>"

lemma put_core_select [simp]:
  "cores (put_core n s w) = (cores w)(n := s)" "vote_requests (put_core n s w) = vote_requests w"
  "vote_replies (put_core n s w) = vote_replies w" "append_requests (put_core n s w) = append_requests w"
  "append_replies (put_core n s w) = append_replies w"
  by (simp_all add: put_core_def)

lemma messages_ok_put_core [simp]: "messages_ok ms (put_core n s w) \<sigma> = messages_ok ms w \<sigma>"
  by (simp add: messages_ok_def)

lemma messages_ok_grow:
  assumes "messages_ok ms w \<sigma>" and g: "history_grows \<sigma> \<sigma>'"
  shows "messages_ok ms w \<sigma>'"
  using assms(1) messages_grow [OF g] unfolding messages_ok_def by (auto split: prod.splits)

lemma core_matches_grow:
  assumes "core_matches ms \<sigma> n s" and "node_at \<sigma>' n = node_at \<sigma> n" and g: "history_grows \<sigma> \<sigma>'"
  shows "core_matches ms \<sigma>' n s"
  using assms(1,2) messages_grow(1,3) [OF g] unfolding core_matches_def by auto

lemma simulates_move:
  assumes sim: "simulates ms w \<sigma>" and m: "moves ms \<sigma> n t \<sigma>'"
  shows "simulates ms (put_core n t w) \<sigma>'" and "p_steps ms \<sigma> \<sigma>'"
proof -
  show st: "p_steps ms \<sigma> \<sigma>'" using m by (simp add: moves_def)
  have inv: "protocol_inv (majority_of ms) \<sigma>'" and g: "history_grows \<sigma> \<sigma>'"
    using p_steps_inv [OF st] sim by (simp_all add: simulates_def)
  have "core_matches ms \<sigma>' k (cores (put_core n t w) k)" if "k \<in> set ms" for k
  proof (cases "k = n")
    case True
    then show ?thesis using m by (simp add: moves_def)
  next
    case False
    then have "node_at \<sigma>' k = node_at \<sigma> k" using m by (simp add: moves_def)
    moreover have "core_matches ms \<sigma> k (cores w k)" using sim that by (simp add: simulates_def)
    ultimately show ?thesis using core_matches_grow [OF _ _ g] False by simp
  qed
  moreover have "messages_ok ms (put_core n t w) \<sigma>'"
    using messages_ok_grow [OF _ g] sim unfolding simulates_def by simp blast
  ultimately show "simulates ms (put_core n t w) \<sigma>'" using inv by (simp add: simulates_def)
qed

lemma simulates_core: "simulates ms w \<sigma> \<Longrightarrow> n \<in> set ms \<Longrightarrow> core_matches ms \<sigma> n (cores w n)"
  by (simp add: simulates_def)

lemma simulates_inv: "simulates ms w \<sigma> \<Longrightarrow> protocol_inv (majority_of ms) \<sigma>"
  by (simp add: simulates_def)

text \<open>The calls of the node's own thread and of clients.\<close>

lemma moves_local:
  assumes inv: "protocol_inv (majority_of ms) \<sigma>" and cm: "core_matches ms \<sigma> n s" and n: "n \<in> set ms"
    and c: "local_call c" and b: "within_bounds c s"
  obtains \<sigma>' where "moves ms \<sigma> n (final (call lib c s)) \<sigma>'"
proof -
  have ok: "core_ok s" "working s" "node_id s = n" using soundD [OF cm_sound [OF cm]] cm_id [OF cm] by simp_all
  have advanced: "moves ms \<sigma> n (advance_time d s) \<sigma>" for d
  proof -
    have b: "within_bounds (Advance_Time d) s" by (simp add: within_bounds_def)
    have run: "call lib (Advance_Time d) s = (Inr (), advance_time d s)" by simp
    have "node_at \<sigma> = (node_at \<sigma>)(n := view (advance_time d s))"
      using cm_view [OF cm] by (simp add: advance_time_def fun_upd_idem)
    then show ?thesis
      using soundD(3) [OF cm_sound [OF cm]]
      by (intro moves_kept [OF cm inv b run p_steps_refl]) (simp_all add: advance_time_def)
  qed
  show thesis
  proof (cases c)
    case (Tick d)
    let ?s = "advance_time d s"
    have t: "current_term s \<noteq> - 1" using b Tick by (simp add: within_bounds_def)
    show thesis
    proof (cases "election_timeout_expired ?s")
      case False
      then show thesis using Tick advanced [of d] that [of \<sigma>] by (simp add: tick_def discard_def)
    next
      case True
      have "call lib c s = (Inr (), t)" if "start_election lib ?s = (Inr (), t)" for t
        using that Tick True by (simp add: tick_def discard_def)
      moreover have "core_ok ?s" "working ?s" "view ?s = view s" "majority_size ?s = majority_size s" "node_id ?s = n"
        using ok by (simp_all, simp_all add: advance_time_def)
      ultimately obtain u \<sigma>' where "call lib c s = (Inr (), u)" "moves ms \<sigma> n u \<sigma>'"
        using moves_start_election [OF inv cm n _ _ _ _ _ b t] by blast
      then show thesis using that by simp
    qed
  next
    case Start_Election
    then have t: "current_term s \<noteq> - 1" using b by (simp add: within_bounds_def)
    have "call lib c s = (Inr (), t)" if "start_election lib s = (Inr (), t)" for t
      using that Start_Election by simp
    then obtain u \<sigma>' where "call lib c s = (Inr (), u)" "moves ms \<sigma> n u \<sigma>'"
      using moves_start_election [OF inv cm n ok(1,2) _ _ ok(3) b t] by blast
    then show thesis using that by simp
  next
    case (Advance_Time d)
    then show thesis using advanced [of d] that by simp
  next
    case (Append_Command cmd)
    then have "is_key_value_command cmd \<Longrightarrow> well_formed_command cmd" and "within_bounds (Append_Command cmd) s"
      using c b by simp_all
    then show thesis using moves_append_command [OF inv cm n] that Append_Command by auto
  next
    case Queue_Heartbeat_Actions
    then show thesis using moves_queue_heartbeats [OF inv cm] that by simp
  qed (use c in simp_all)
qed

text \<open>Every step of the world is a number of steps of the protocol.\<close>

lemma world_step_simulated:
  assumes lib: "iterates_once lib" and step: "world_step lib ms lo hi w w'" and sim: "simulates ms w \<sigma>"
  obtains \<sigma>' where "p_steps ms \<sigma> \<sigma>'" and "simulates ms w' \<sigma>'"
proof -
  note inv = simulates_inv [OF sim] and core = simulates_core [OF sim]
  have msgs: "messages_ok ms w \<sigma>" using sim by (simp add: simulates_def)
  have moved: thesis if "moves ms \<sigma> n t \<sigma>'" and "w' = put_core n t w" for n t \<sigma>'
    using simulates_move [OF sim that(1)] that(2) \<open>\<And>\<sigma>'. p_steps ms \<sigma> \<sigma>' \<Longrightarrow> simulates ms w' \<sigma>' \<Longrightarrow> thesis\<close> by blast
  show thesis
    using step
  proof cases
    case (local n c)
    obtain \<sigma>' where "moves ms \<sigma> n (final (call lib c (cores w n))) \<sigma>'"
      using moves_local [OF inv core [OF local(2)] local(2-4)] .
    then show thesis using moved local(1) by blast
  next
    case (send_votes n as s)
    have s: "s = (cores w n)\<lparr>pending_request_vote_actions := []\<rparr>" "as = pending_request_vote_actions (cores w n)"
      using send_votes(3) by (simp_all add: take_request_vote_actions_def)
    have b: "within_bounds Take_Request_Vote_Actions (cores w n)" by (simp add: within_bounds_def)
    have run: "call lib Take_Request_Vote_Actions (cores w n) = (Inr (), s)"
      using send_votes(3) by simp
    note cm = core [OF send_votes(2)]
    have "node_at \<sigma> = (node_at \<sigma>)(n := view s)" using cm_view [OF cm] s(1) by (simp add: fun_upd_idem)
    then have m: "moves ms \<sigma> n s \<sigma>"
      using s(1) soundD(3) [OF cm_sound [OF cm]]
      by (intro moves_kept [OF cm inv b run p_steps_refl]) simp_all
    have "rv_target a \<in> set ms" if "a \<in> set as" for a
      using soundD(1) [OF cm_sound [OF cm]] that s(2) cm_members(1) [OF cm]
      by (auto simp: core_ok_def references_ok_def others_def)
    then have "simulates ms w' \<sigma>"
      using simulates_move(1) [OF sim m] send_votes(1,2) s(2) cm_votes [OF cm]
      by (auto simp: simulates_def messages_ok_def)
    then show thesis using that p_steps_refl by blast
  next
    case (send_appends n as s)
    have s: "s = (cores w n)\<lparr>pending_append_entries_actions := []\<rparr>" "as = pending_append_entries_actions (cores w n)"
      using send_appends(3) by (simp_all add: take_append_entries_actions_def)
    have b: "within_bounds Take_Append_Entries_Actions (cores w n)" by (simp add: within_bounds_def)
    have run: "call lib Take_Append_Entries_Actions (cores w n) = (Inr (), s)"
      using send_appends(3) by simp
    note cm = core [OF send_appends(2)]
    have "node_at \<sigma> = (node_at \<sigma>)(n := view s)" using cm_view [OF cm] s(1) by (simp add: fun_upd_idem)
    then have m: "moves ms \<sigma> n s \<sigma>"
      using s(1) soundD(3) [OF cm_sound [OF cm]]
      by (intro moves_kept [OF cm inv b run p_steps_refl]) simp_all
    have "ae_target a \<in> set ms \<and> ae_target a \<noteq> n" if "a \<in> set as" for a
      using soundD(1) [OF cm_sound [OF cm]] that s(2) cm_members(1) [OF cm] cm_id [OF cm]
      by (auto simp: core_ok_def references_ok_def others_def)
    then have "simulates ms w' \<sigma>"
      using simulates_move(1) [OF sim m] send_appends(1,2) s(2) cm_appends [OF cm]
      by (auto simp: simulates_def messages_ok_def)
    then show thesis using that p_steps_refl by blast
  next
    case (vote_request n m q r)
    have q: "n \<in> set ms" "m \<in> set ms" "vote_request_ok \<sigma> n q"
      using msgs vote_request(2) by (auto simp: messages_ok_def)
    obtain t x \<sigma>' where run: "handle_request_vote lib q (cores w m) = (Inr x, t)" and mv: "moves ms \<sigma> m t \<sigma>'"
      and x: "vote_reply_ok \<sigma>' m n x"
      using moves_request_vote [OF inv core [OF q(2)] q(3)] .
    have "simulates ms w' \<sigma>'"
      using simulates_move(1) [OF sim mv] vote_request(1,3) run x q(1)
      by (auto simp: simulates_def messages_ok_def reply_of_def)
    then show thesis using that simulates_move(2) [OF sim mv] by blast
  next
    case (vote_reply m n r)
    have r: "n \<in> set ms" "vote_reply_ok \<sigma> m n r" using msgs vote_reply(2) by (auto simp: messages_ok_def)
    show thesis using moves_receive_vote [OF inv core [OF r(1)] r(2)] moved vote_reply(1) by blast
  next
    case (append_request n m q r)
    have q: "n \<in> set ms" "m \<in> set ms" "n \<noteq> m" "append_request_ok \<sigma> n q"
      using msgs append_request(2) by (auto simp: messages_ok_def)
    obtain t x \<sigma>' where run: "handle_append_entries lib q (cores w m) = (Inr x, t)" and mv: "moves ms \<sigma> m t \<sigma>'"
      and x: "append_reply_ok \<sigma>' m x"
      using moves_append_entries [OF inv core [OF q(2)] q(4,3) append_request(3)] .
    have "simulates ms w' \<sigma>'"
      using simulates_move(1) [OF sim mv] append_request(1,4) run x q(1-3)
      by (auto simp: simulates_def messages_ok_def reply_of_def)
    then show thesis using that simulates_move(2) [OF sim mv] by blast
  next
    case (append_reply m n r)
    have r: "n \<in> set ms" "m \<in> set ms" "m \<noteq> n" "append_reply_ok \<sigma> m r"
      using msgs append_reply(2) by (auto simp: messages_ok_def)
    show thesis using moves_append_reply [OF inv core [OF r(1)] r(1,4,2,3)] moved append_reply(1) by blast
  next
    case (restart n seed s d)
    show thesis using moves_restart [OF lib inv core [OF restart(2)] restart(3,4)] moved restart(1) by blast
  qed
qed

lemma world_start_simulated:
  assumes lib: "iterates_once lib" and start: "world_start lib ms lo hi w"
  shows "simulates ms w p_start"
proof -
  have "core_matches ms p_start n (cores w n)" if n: "n \<in> set ms" for n
  proof -
    obtain seed path f d where f: "path = [] \<or> healthy f \<and> contents f = None"
      and run: "new_raft_core lib n ms 0 [] lo hi seed path f = (Inr (cores w n), d)"
      using start n unfolding world_start_def by blast
    let ?st = "\<lparr>ps_current_term = 0, ps_voted_for = None, ps_log_entries = [], ps_commit_index = 0\<rparr>"
    have conf: "check_configuration n lo hi ms = Inr ms"
      using new_raft_core_cases [OF lib, of "[]" n ms 0 lo hi seed path f] run by force
    have boot: "boot_state 0 [] path f = Inr ?st" using f by (auto simp: boot_state_def file_exists_def)
    have ok: "acceptable_boot ms ?st" by (simp add: acceptable_boot_def)
    have hd: "path = [] \<or> healthy f" using f by blast
    obtain s where s: "new_raft_core lib n ms 0 [] lo hi seed path f = (Inr s, disk s)" "fresh_node ?st s"
      "storage_path s = path" "node_id s = n" "cluster_members s = set_order lib ms"
      "disk s = (if path = [] then f else f\<lparr>contents := Some (state_text ?st)\<rparr>)"
      using new_raft_core_succeeds [OF lib _ conf boot ok _ hd] by (metis commands_ok_Nil list.size(3) take_Nil
          persistent_state.select_convs(3) zero_le)
    have eq: "cores w n = s" using run s(1) by simp
    have fr: "core_ok s" "role s = Follower" "persistent_part s = ?st" using s(2) by (simp_all add: fresh_node_def)
    then have "view s = blank_view"
      using follower_view [OF fr(1,2)] by (simp add: view_def blank_view_def persistent_part_def)
    moreover have "synced s" using s(3,6) hd fr(3) by (auto simp: synced_def healthy_def)
    moreover have "log_entries s = []" using fr(3) by (simp add: persistent_part_def)
    moreover have "all_applied s" using s(2) by (simp add: fresh_node_def all_applied_def)
    moreover have "distinct (set_order lib ms) \<and> set (set_order lib ms) = set ms"
      using lib conf by (simp add: iterates_once_def check_configuration_iff)
    moreover from this have "length (set_order lib ms) = length ms"
      using conf by (simp add: check_configuration_iff) (metis distinct_card)
    moreover have "pending_request_vote_actions s = []" "pending_append_entries_actions s = []"
      using fr(1,2) by (simp_all add: core_ok_defs)
    ultimately show ?thesis
      using fr(1) s(4,5) eq by (simp add: core_matches_def sound_def p_start_def)
  qed
  then show ?thesis
    using start majority.protocol_inv_start by (simp add: simulates_def messages_ok_def world_start_def)
qed

lemma world_steps_simulated:
  assumes lib: "iterates_once lib" and "(world_step lib ms lo hi)\<^sup>*\<^sup>* w w'" and "simulates ms w \<sigma>"
  obtains \<sigma>' where "p_steps ms \<sigma> \<sigma>'" and "simulates ms w' \<sigma>'"
proof -
  from assms(2) have "\<exists>\<sigma>'. p_steps ms \<sigma> \<sigma>' \<and> simulates ms w' \<sigma>'"
  proof (induction rule: rtranclp_induct)
    case base
    then show ?case using assms(3) p_steps_refl by blast
  next
    case (step w1 w2)
    then show ?case using world_step_simulated [OF lib step.hyps(2)] p_steps_trans by metis
  qed
  then show thesis using that by blast
qed

lemma world_simulated:
  assumes lib: "iterates_once lib" and "world_reachable lib ms lo hi w"
  obtains \<sigma> where "p_steps ms p_start \<sigma>" and "simulates ms w \<sigma>"
  using assms(2) world_start_simulated [OF lib] world_steps_simulated [OF lib] unfolding world_reachable_def by metis

end
