(* ===== verification/Raft_Safety.thy ===== *)
theory Raft_Safety
  imports Raft_Network Raft_Properties
begin

text \<open>
  The safety of a cluster of cores, and a run in which a leader is elected and a write committed.
\<close>

section \<open>A sample run\<close>

text \<open>A reachable world, with the cores of the members \<^verbatim>\<open>a\<close> and \<^verbatim>\<open>b\<close>.\<close>

definition sample_world :: "u64 raft_core \<Rightarrow> u64 raft_core \<Rightarrow> u64 world \<Rightarrow> bool" where
  "sample_world A B w \<longleftrightarrow> world_reachable sample_lib sample_members 150 300 w \<and>
     cores w ''a'' = A \<and> cores w ''b'' = B"

abbreviation sample_step :: "u64 world \<Rightarrow> u64 world \<Rightarrow> bool" where
  "sample_step \<equiv> world_step sample_lib sample_members 150 300"

lemma sample_world_step:
  "sample_world A B w \<Longrightarrow> sample_step w w' \<Longrightarrow> cores w' ''a'' = A' \<Longrightarrow> cores w' ''b'' = B' \<Longrightarrow> sample_world A' B' w'"
  by (auto simp: sample_world_def world_reachable_def intro: rtranclp.rtrancl_into_rtrancl)

lemma sample_member [simp]: "''a'' \<in> set sample_members"
  by (simp add: sample_members_def)

lemma sample_local:
  assumes "sample_world A B w" and "local_call c" and "within_bounds c A"
  shows "\<exists>w'. sample_world (final (call sample_lib c A)) B w'"
proof -
  have A: "cores w ''a'' = A" "cores w ''b'' = B" using assms(1) by (simp_all add: sample_world_def)
  have "sample_step w (put_core ''a'' (final (call sample_lib c A)) w)"
    using world_step.local [of "''a''" sample_members c w] assms(2,3) A by simp
  then have "sample_world (final (call sample_lib c A)) B (put_core ''a'' (final (call sample_lib c A)) w)"
    by (rule sample_world_step [OF assms(1)]) (simp_all add: A)
  then show ?thesis by blast
qed

lemma sample_vote_round:
  assumes w: "sample_world A B w" and x: "pending_request_vote_actions A = x # xs" "rv_target x = ''b''"
    and run: "handle_request_vote sample_lib (rv_request x) B = (Inr r, B')"
  shows "\<exists>w'. sample_world (final (receive_vote ''b'' r (A\<lparr>pending_request_vote_actions := []\<rparr>))) B' w'"
proof -
  let ?A = "A\<lparr>pending_request_vote_actions := []\<rparr>"
  have A: "cores w ''a'' = A" "cores w ''b'' = B" using w by (simp_all add: sample_world_def)
  define w1 where "w1 = (put_core ''a'' ?A w)\<lparr>vote_requests := vote_requests w @
      map (\<lambda>a. (''a'', rv_target a, rv_request a)) (x # xs)\<rparr>"
  have "sample_step w w1"
    unfolding w1_def using A(1) x(1)
    by (intro world_step.send_votes) (simp_all add: take_request_vote_actions_def)
  then have s1: "sample_world ?A B w1" by (rule sample_world_step [OF w]) (simp_all add: w1_def A)
  define w2 where "w2 = (put_core ''b'' B' w1)\<lparr>vote_replies := vote_replies w1 @ [(''b'', ''a'', r)]\<rparr>"
  have "sample_step w1 w2"
    using world_step.vote_request [of "''a''" "''b''" "rv_request x" w1 sample_lib _ sample_members 150 300] s1 run x(2)
    by (simp add: w1_def w2_def sample_world_def reply_of_def)
  then have s2: "sample_world ?A B' w2" by (rule sample_world_step [OF s1]) (use s1 in \<open>simp_all add: w2_def sample_world_def\<close>)
  have "sample_step w2 (put_core ''a'' (final (receive_vote ''b'' r ?A)) w2)"
    using world_step.vote_reply [of "''b''" "''a''" r w2 sample_lib sample_members 150 300] s2
    by (simp add: w2_def sample_world_def)
  then have "sample_world (final (receive_vote ''b'' r ?A)) B' (put_core ''a'' (final (receive_vote ''b'' r ?A)) w2)"
    by (rule sample_world_step [OF s2]) (use s2 in \<open>simp_all add: sample_world_def\<close>)
  then show ?thesis by blast
qed

lemma sample_append_round:
  assumes w: "sample_world A B w" and x: "pending_append_entries_actions A = x # xs" "ae_target x = ''b''"
    and run: "handle_append_entries sample_lib (ae_request x) B = (Inr r, B')"
    and room: "length (log_entries B) + length (entries (ae_request x)) \<le> log_max_size"
  shows "\<exists>w'. sample_world (final (receive_append_entries_response ''b'' r (A\<lparr>pending_append_entries_actions := []\<rparr>))) B' w' \<and>
    append_requests w' \<noteq> []"
proof -
  let ?A = "A\<lparr>pending_append_entries_actions := []\<rparr>"
  have A: "cores w ''a'' = A" "cores w ''b'' = B" using w by (simp_all add: sample_world_def)
  define w1 where "w1 = (put_core ''a'' ?A w)\<lparr>append_requests := append_requests w @
      map (\<lambda>a. (''a'', ae_target a, ae_request a)) (x # xs)\<rparr>"
  have "sample_step w w1"
    unfolding w1_def using A(1) x(1)
    by (intro world_step.send_appends) (simp_all add: take_append_entries_actions_def)
  then have s1: "sample_world ?A B w1" by (rule sample_world_step [OF w]) (simp_all add: w1_def A)
  define w2 where "w2 = (put_core ''b'' B' w1)\<lparr>append_replies := append_replies w1 @ [(''b'', ''a'', r)]\<rparr>"
  have "sample_step w1 w2"
    using world_step.append_request [of "''a''" "''b''" "ae_request x" w1 sample_lib _ sample_members 150 300] s1 run x(2) room
    by (simp add: w1_def w2_def sample_world_def reply_of_def within_bounds_def)
  then have s2: "sample_world ?A B' w2" by (rule sample_world_step [OF s1]) (use s1 in \<open>simp_all add: w2_def sample_world_def\<close>)
  have "sample_step w2 (put_core ''a'' (final (receive_append_entries_response ''b'' r ?A)) w2)"
    using world_step.append_reply [of "''b''" "''a''" r w2 sample_lib sample_members 150 300] s2
    by (simp add: w2_def sample_world_def)
  then have "sample_world (final (receive_append_entries_response ''b'' r ?A)) B'
      (put_core ''a'' (final (receive_append_entries_response ''b'' r ?A)) w2)"
    by (rule sample_world_step [OF s2]) (use s2 in \<open>simp_all add: sample_world_def\<close>)
  moreover have "append_requests w2 \<noteq> []" by (simp add: w2_def w1_def)
  ultimately show ?thesis by (metis put_core_select(4))
qed
section \<open>The sample run\<close>

text \<open>\<^verbatim>\<open>a\<close> is elected by \<^verbatim>\<open>b\<close>, replicates a write to it, commits it, and tells \<^verbatim>\<open>b\<close> in a heartbeat.\<close>

definition sample_boot :: "string \<Rightarrow> u64 raft_core" where
  "sample_boot n = (case fst (new_raft_core sample_lib n sample_members 0 [] 150 300 7 [] sample_disk) of
     Inr s \<Rightarrow> s | Inl e \<Rightarrow> sample_follower)"

definition elected_a :: "u64 raft_core" where
  "elected_a = final (start_election sample_lib (sample_boot ''a''))"

definition voted_b :: "(exc + request_vote_response) \<times> u64 raft_core" where
  "voted_b = handle_request_vote sample_lib (rv_request (hd (pending_request_vote_actions elected_a))) (sample_boot ''b'')"

definition leading_a :: "u64 raft_core" where
  "leading_a = final (receive_vote ''b'' (projr (fst voted_b)) (elected_a\<lparr>pending_request_vote_actions := []\<rparr>))"

definition writing_a :: "u64 raft_core" where
  "writing_a = final (append_command ''SET x 1'' leading_a)"

definition stored_b :: "(exc + append_entries_response) \<times> u64 raft_core" where
  "stored_b = handle_append_entries sample_lib (ae_request (hd (pending_append_entries_actions writing_a))) (final voted_b)"

definition committed_a :: "u64 raft_core" where
  "committed_a = final (receive_append_entries_response ''b'' (projr (fst stored_b))
     (writing_a\<lparr>pending_append_entries_actions := []\<rparr>))"

definition beating_a :: "u64 raft_core" where
  "beating_a = final (queue_heartbeat_actions committed_a)"

definition committed_b :: "(exc + append_entries_response) \<times> u64 raft_core" where
  "committed_b = handle_append_entries sample_lib (ae_request (hd (pending_append_entries_actions beating_a))) (final stored_b)"

definition settled_a :: "u64 raft_core" where
  "settled_a = final (receive_append_entries_response ''b'' (projr (fst committed_b))
     (beating_a\<lparr>pending_append_entries_actions := []\<rparr>))"

lemma sample_boots_run:
  "list_all (\<lambda>n. \<not> isl (fst (new_raft_core sample_lib n sample_members 0 [] 150 300 7 [] sample_disk))) sample_members"
  by code_simp

lemma sample_boots:
  assumes "n \<in> set sample_members"
  shows "\<exists>d. new_raft_core sample_lib n sample_members 0 [] 150 300 7 [] sample_disk = (Inr (sample_boot n), d)"
  using sample_boots_run assms
  by (cases "new_raft_core sample_lib n sample_members 0 [] 150 300 7 [] sample_disk")
     (auto simp: sample_boot_def list_all_iff split: sum.splits)

lemma sample_election:
  "current_term (sample_boot ''a'') = 0" "rv_target (hd (pending_request_vote_actions elected_a)) = ''b''"
  "pending_request_vote_actions elected_a \<noteq> []" "isl (fst voted_b) = False"
  "role leading_a = Leader" "current_term leading_a = 1" "current_term (final voted_b) = 1"
  by code_simp+

lemma sample_write:
  "length (log_entries leading_a) = 0" "pending_append_entries_actions writing_a \<noteq> []"
  "ae_target (hd (pending_append_entries_actions writing_a)) = ''b''" "isl (fst stored_b) = False"
  "length (log_entries (final voted_b)) = 0" "length (entries (ae_request (hd (pending_append_entries_actions writing_a)))) = 1" by code_simp+

lemma sample_messages:
  "pending_append_entries_actions beating_a \<noteq> []" "isl (fst committed_b) = False"
  "ae_target (hd (pending_append_entries_actions beating_a)) = ''b''"
  "length (log_entries (final stored_b)) = 1" "length (entries (ae_request (hd (pending_append_entries_actions beating_a)))) = 0"
  by code_simp+

lemma sample_commit:
  "log_entries settled_a = [\<lparr>entry_term = 1, command = ''SET x 1''\<rparr>]"
  "commit_index settled_a = 1" "role settled_a = Leader" "current_term settled_a = 1" "applied_commands settled_a = [''SET x 1'']"
  "commit_index (final committed_b) = 1" "current_term (final committed_b) = 1"
  "applied_commands (final committed_b) = [''SET x 1'']"
  "log_entries (final committed_b) = [\<lparr>entry_term = 1, command = ''SET x 1''\<rparr>]"
  by code_simp+
lemma sample_start: "\<exists>w. sample_world (sample_boot ''a'') (sample_boot ''b'') w"
proof -
  let ?w = "\<lparr>cores = sample_boot, vote_requests = [], vote_replies = [], append_requests = [], append_replies = []\<rparr>"
  have "world_start sample_lib sample_members 150 300 ?w"
    using sample_boots unfolding world_start_def by fastforce
  then have "world_reachable sample_lib sample_members 150 300 ?w"
    unfolding world_reachable_def by blast
  then show ?thesis by (intro exI [of _ ?w]) (simp add: sample_world_def)
qed

lemma returned: "isl (fst r) = False \<Longrightarrow> r = (Inr (projr (fst r)), final r)"
  by (cases r) (auto simp: isl_def split: sum.splits)

lemma sample_elected: "\<exists>w. sample_world leading_a (final voted_b) w"
proof -
  obtain w where w: "sample_world (sample_boot ''a'') (sample_boot ''b'') w" using sample_start by blast
  have "within_bounds Start_Election (sample_boot ''a'')"
    by (simp add: within_bounds_def sample_election(1))
  then obtain w where w: "sample_world elected_a (sample_boot ''b'') w"
    using sample_local [OF w, of Start_Election] by (auto simp: elected_a_def)
  let ?x = "hd (pending_request_vote_actions elected_a)"
  have x: "pending_request_vote_actions elected_a = ?x # tl (pending_request_vote_actions elected_a)"
    using sample_election(3) by simp
  have run: "handle_request_vote sample_lib (rv_request ?x) (sample_boot ''b'') = (Inr (projr (fst voted_b)), final voted_b)"
    using returned [OF sample_election(4)] by (simp add: voted_b_def)
  show ?thesis using sample_vote_round [OF w x sample_election(2) run] by (simp add: leading_a_def)
qed

lemma sample_stored: "\<exists>w. sample_world committed_a (final stored_b) w"
proof -
  obtain w where w: "sample_world leading_a (final voted_b) w" using sample_elected by blast
  have c: "local_call (Append_Command ''SET x 1'')"
    using well_formed_set [of "''x''" "''1''"] by (simp add: valid_key_def)
  have "within_bounds (Append_Command ''SET x 1'') leading_a"
    by (simp add: within_bounds_def sample_write(1) log_max_size_def)
  then obtain w where w: "sample_world writing_a (final voted_b) w"
    using sample_local [OF w c] by (auto simp: writing_a_def)
  let ?x = "hd (pending_append_entries_actions writing_a)"
  have x: "pending_append_entries_actions writing_a = ?x # tl (pending_append_entries_actions writing_a)"
    using sample_write(2) by simp
  have run: "handle_append_entries sample_lib (ae_request ?x) (final voted_b) = (Inr (projr (fst stored_b)), final stored_b)"
    using returned [OF sample_write(4)] by (simp add: stored_b_def)
  show ?thesis
    using sample_append_round [OF w x sample_write(3) run] sample_write(5,6)
    unfolding committed_a_def by (simp only: log_max_size_def) force
qed

lemma sample_committed: "\<exists>w. sample_world settled_a (final committed_b) w \<and> append_requests w \<noteq> []"
proof -
  obtain w where w: "sample_world committed_a (final stored_b) w" using sample_stored by blast
  have "within_bounds Queue_Heartbeat_Actions committed_a" by (simp add: within_bounds_def)
  then obtain w where w: "sample_world beating_a (final stored_b) w"
    using sample_local [OF w, of Queue_Heartbeat_Actions] by (auto simp: beating_a_def)
  let ?x = "hd (pending_append_entries_actions beating_a)"
  have x: "pending_append_entries_actions beating_a = ?x # tl (pending_append_entries_actions beating_a)"
    using sample_messages(1) by simp
  have run: "handle_append_entries sample_lib (ae_request ?x) (final stored_b) = (Inr (projr (fst committed_b)), final committed_b)"
    using returned [OF sample_messages(2)] by (simp add: committed_b_def)
  show ?thesis
    using sample_append_round [OF w x sample_messages(3) run] sample_messages(4,5)
    by (simp add: settled_a_def log_max_size_def)
qed

section \<open>Two moments of a run\<close>

text \<open>What the protocol says of a reachable world \<open>w\<close> and of a later world \<open>w'\<close>.\<close>

lemma later_world:
  assumes lib: "iterates_once lib" and w: "world_reachable lib ms lo hi w" and later: "(world_step lib ms lo hi)\<^sup>*\<^sup>* w w'"
  obtains \<sigma> \<sigma>' where "simulates ms w \<sigma>" and "simulates ms w' \<sigma>'" and "history_grows \<sigma> \<sigma>'"
    and "protocol_inv (majority_of ms) \<sigma>" and "protocol_inv (majority_of ms) \<sigma>'"
proof -
  obtain \<sigma> where s: "simulates ms w \<sigma>" by (rule world_simulated [OF lib w])
  obtain \<sigma>' where s': "p_steps ms \<sigma> \<sigma>'" "simulates ms w' \<sigma>'" by (rule world_steps_simulated [OF lib later s])
  show thesis
    using that [OF s s'(2)] p_steps_inv [OF s'(1) simulates_inv [OF s]] simulates_inv [OF s] by blast
qed

lemma later_leader:
  assumes "basic_inv Q \<sigma>" and "basic_inv Q \<sigma>'" and "history_grows \<sigma> \<sigma>'"
    and "v_role (node_at \<sigma> n) = Leader" and "v_role (node_at \<sigma>' m) = Leader"
    and "v_term (node_at \<sigma> n) = v_term (node_at \<sigma>' m)"
  shows "n = m"
proof -
  have "h_leader \<sigma> (v_term (node_at \<sigma> n)) = Some n" by (rule leader_now [OF assms(1,4) refl])
  then have "h_leader \<sigma>' (v_term (node_at \<sigma> n)) = Some n" by (rule grows_leader [OF assms(3)])
  moreover have "h_leader \<sigma>' (v_term (node_at \<sigma> n)) = Some m" by (rule leader_now [OF assms(2,5)]) (simp add: assms(6))
  ultimately show ?thesis by simp
qed

lemma node_commit_backed:
  assumes "simulates ms w \<sigma>" and "n \<in> set ms"
  shows "backed (majority_of ms) \<sigma> (current_term (cores w n)) (log_entries (cores w n)) (unat (commit_index (cores w n)))"
  using majority.commits_backed [OF simulates_inv [OF assms(1)], of n] cm_view [OF simulates_core [OF assms]] by simp

lemma applied_is_log:
  assumes "core_ok s"
  shows "applied_commands s = map command (take (unat (last_applied s)) (log_entries s))"
    and "unat (last_applied s) \<le> unat (commit_index s)"
  using core_ok_journal [OF assms] by (simp_all add: journal_ok_def word_le_nat_alt)

lemma prefixes_comparable:
  assumes "take (min c d) es = take (min c d) fs" and "a \<le> c" and "b \<le> d"
  shows "prefix (map f (take a es)) (map f (take b fs)) \<or> prefix (map f (take b fs)) (map f (take a es))"
proof -
  have same: "take (min a b) es = take (min a b) fs"
    using arg_cong [OF assms(1), of "take (min a b)"] assms(2,3) by (simp add: min_def split: if_splits)
  have "prefix (take i xs) (take j xs)" if "i \<le> j" for i j and xs :: "'a list"
    using that by (metis min.absorb1 take_is_prefix take_take)
  then have "prefix (take a es) (take b fs) \<or> prefix (take b fs) (take a es)"
    using same by (cases "a \<le> b") (simp, metis min.absorb2 nat_le_linear)
  then show ?thesis by (auto intro: map_mono_prefix)
qed

lemma reachable_sound:
  assumes "iterates_once lib" and "world_reachable lib ms lo hi w" and "n \<in> set ms"
  shows "core_ok (cores w n)" and "all_applied (cores w n)"
proof -
  obtain \<sigma> where s: "simulates ms w \<sigma>" by (rule world_simulated [OF assms(1,2)])
  show "core_ok (cores w n)" "all_applied (cores w n)"
    using soundD(1,5) [OF cm_sound [OF simulates_core [OF s assms(3)]]] by simp_all
qed

text \<open>What two nodes have committed at two moments agrees as far as both reach.\<close>

lemma committed_logs_agree:
  assumes "iterates_once lib" and "world_reachable lib ms lo hi w" and "(world_step lib ms lo hi)\<^sup>*\<^sup>* w w'"
    and "n \<in> set ms" and "m \<in> set ms"
  defines "k \<equiv> min (unat (commit_index (cores w n))) (unat (commit_index (cores w' m)))"
  shows "take k (log_entries (cores w n)) = take k (log_entries (cores w' m))"
proof (rule later_world [OF assms(1-3)])
  fix \<sigma> \<sigma>'
  assume s: "simulates ms w \<sigma>" "simulates ms w' \<sigma>'" and g: "history_grows \<sigma> \<sigma>'"
    and i: "protocol_inv (majority_of ms) \<sigma>'"
  have "backed (majority_of ms) \<sigma>' (current_term (cores w n)) (log_entries (cores w n)) (unat (commit_index (cores w n)))"
    by (rule backed_grown [OF g node_commit_backed [OF s(1) assms(4)] order_refl refl])
  from majority.backed_agree [OF i this node_commit_backed [OF s(2) assms(5)]] show ?thesis by (simp add: k_def)
qed

section \<open>Safety\<close>

text \<open>
  C2: Election safety.  In a cluster started from new nodes, however messages are lost, duplicated,
  delayed or reordered and however often nodes restart, no two different nodes are ever leader of
  the same term, not even at different times.
\<close>

theorem election_safety:
  assumes "iterates_once lib" and "world_reachable lib ms lo hi w" and "(world_step lib ms lo hi)\<^sup>*\<^sup>* w w'"
    and "n \<in> set ms" and "m \<in> set ms" and "role (cores w n) = Leader" and "role (cores w' m) = Leader"
    and "current_term (cores w n) = current_term (cores w' m)"
  shows "n = m"
proof (rule later_world [OF assms(1-3)])
  fix \<sigma> \<sigma>'
  assume s: "simulates ms w \<sigma>" "simulates ms w' \<sigma>'" and g: "history_grows \<sigma> \<sigma>'"
    and i: "protocol_inv (majority_of ms) \<sigma>" "protocol_inv (majority_of ms) \<sigma>'"
  have "node_at \<sigma> n = view (cores w n)" "node_at \<sigma>' m = view (cores w' m)"
    using cm_view [OF simulates_core [OF s(1) assms(4)]] cm_view [OF simulates_core [OF s(2) assms(5)]] .
  then show ?thesis
    using later_leader [OF _ _ g, of "majority_of ms" n m] i assms(6-8) by (simp add: protocol_inv_def)
qed

theorem election_safety_witness:
  "\<exists>w n. world_reachable sample_lib sample_members 150 300 w \<and> role (cores w n) = Leader \<and>
     current_term (cores w n) = 1 \<and> n = ''a''"
proof -
  obtain w where w: "sample_world leading_a (final voted_b) w" using sample_elected by blast
  then have "world_reachable sample_lib sample_members 150 300 w" and "role (cores w ''a'') = Leader"
    and "current_term (cores w ''a'') = 1"
    by (simp_all add: sample_world_def sample_election)
  moreover from this have "''a'' = ''a''"
    using election_safety [of sample_lib sample_members 150 300 w w "''a''" "''a''"] by simp
  ultimately show ?thesis by blast
qed

text \<open>
  C4: Log matching.  If the logs of two nodes have an entry of the same term at the same index,
  they are equal up to and including it.
\<close>

theorem logs_match:
  assumes "iterates_once lib" and "world_reachable lib ms lo hi w" and "n \<in> set ms" and "m \<in> set ms"
    and "i < length (log_entries (cores w n))" and "i < length (log_entries (cores w m))"
    and "entry_term (log_entries (cores w n) ! i) = entry_term (log_entries (cores w m) ! i)"
  shows "take (Suc i) (log_entries (cores w n)) = take (Suc i) (log_entries (cores w m))"
proof (rule world_simulated [OF assms(1,2)])
  fix \<sigma> assume s: "simulates ms w \<sigma>"
  have "log_matching (log_entries (cores w n)) (log_entries (cores w m))"
    using majority.all_logs_match [OF simulates_inv [OF s], of n m]
      cm_view [OF simulates_core [OF s assms(3)]] cm_view [OF simulates_core [OF s assms(4)]] by simp
  then show ?thesis using assms(5-7) by (rule log_matchingD)
qed

theorem logs_match_witness:
  "\<exists>w. world_reachable sample_lib sample_members 150 300 w \<and> length (log_entries (cores w ''a'')) = 1 \<and>
     take (Suc 0) (log_entries (cores w ''a'')) = take (Suc 0) (log_entries (cores w ''b''))"
proof -
  obtain w where w: "sample_world settled_a (final committed_b) w" using sample_committed by blast
  have "''b'' \<in> set sample_members" by (simp add: sample_members_def)
  with w show ?thesis
    using logs_match [of sample_lib sample_members 150 300 w "''a''" "''b''" 0]
    by (intro exI [of _ w]) (simp add: sample_world_def sample_commit)
qed

text \<open>
  C3: Leader completeness.  Whatever a node has committed at some moment is in the log of every
  later leader whose term is not smaller: a committed entry survives every election.
\<close>

theorem leaders_hold_committed_entries:
  assumes "iterates_once lib" and "world_reachable lib ms lo hi w" and "(world_step lib ms lo hi)\<^sup>*\<^sup>* w w'"
    and "n \<in> set ms" and "m \<in> set ms" and "role (cores w' m) = Leader"
    and "current_term (cores w n) \<le> current_term (cores w' m)"
  shows "prefix (take (unat (commit_index (cores w n))) (log_entries (cores w n))) (log_entries (cores w' m))"
proof (rule later_world [OF assms(1-3)])
  fix \<sigma> \<sigma>'
  assume s: "simulates ms w \<sigma>" "simulates ms w' \<sigma>'" and g: "history_grows \<sigma> \<sigma>'"
    and i: "protocol_inv (majority_of ms) \<sigma>'"
  have m: "node_at \<sigma>' m = view (cores w' m)" by (rule cm_view [OF simulates_core [OF s(2) assms(5)]])
  have "backed (majority_of ms) \<sigma>' (current_term (cores w n)) (log_entries (cores w n)) (unat (commit_index (cores w n)))"
    by (rule backed_grown [OF g node_commit_backed [OF s(1) assms(4)] order_refl refl])
  then show ?thesis
    using majority.leader_holds_backed [OF i, of m] m assms(6,7) by simp
qed

theorem leaders_hold_committed_entries_witness:
  "\<exists>w. world_reachable sample_lib sample_members 150 300 w \<and> commit_index (cores w ''b'') = 1 \<and>
     prefix (take 1 (log_entries (cores w ''b''))) (log_entries (cores w ''a''))"
proof -
  obtain w where w: "sample_world settled_a (final committed_b) w" using sample_committed by blast
  have "''b'' \<in> set sample_members" by (simp add: sample_members_def)
  with w show ?thesis
    using leaders_hold_committed_entries [of sample_lib sample_members 150 300 w w "''b''" "''a''"]
    by (intro exI [of _ w]) (simp add: sample_world_def sample_commit)
qed

text \<open>
  C1: State machine safety.  What one node has committed at some moment and what another node has
  committed at a later one never differ where both reach, the lists of commands that the two
  have applied to their stores are prefixes one of the other, and with the same commit index the two
  stores are equal.
\<close>

theorem state_machine_safety:
  assumes "iterates_once lib" and "world_reachable lib ms lo hi w" and "(world_step lib ms lo hi)\<^sup>*\<^sup>* w w'"
    and "n \<in> set ms" and "m \<in> set ms"
    and "k = min (unat (commit_index (cores w n))) (unat (commit_index (cores w' m)))"
  shows "take k (log_entries (cores w n)) = take k (log_entries (cores w' m)) \<and>
    (prefix (applied_commands (cores w n)) (applied_commands (cores w' m)) \<or>
     prefix (applied_commands (cores w' m)) (applied_commands (cores w n))) \<and>
    (commit_index (cores w n) = commit_index (cores w' m) \<longrightarrow>
     key_value_store (cores w n) = key_value_store (cores w' m))"
proof -
  note agree = committed_logs_agree [OF assms(1-5), folded assms(6)]
  note ok = reachable_sound(1,2) [OF assms(1)]
  have later: "world_reachable lib ms lo hi w'" using assms(2,3) unfolding world_reachable_def by (meson rtranclp_trans)
  have "key_value_store (cores w n) = key_value_store (cores w' m)"
    if "commit_index (cores w n) = commit_index (cores w' m)"
    using all_applied_replay(2) [OF ok [OF assms(2,4)]] all_applied_replay(2) [OF ok [OF later assms(5)]]
      agree that by (simp add: assms(6))
  then show ?thesis
    using agree prefixes_comparable [OF agree [unfolded assms(6)], where f = command]
      applied_is_log [OF ok(1) [OF assms(2,4)]] applied_is_log [OF ok(1) [OF later assms(5)]] by simp
qed

theorem state_machine_safety_witness:
  "\<exists>w. world_reachable sample_lib sample_members 150 300 w \<and> commit_index (cores w ''b'') = 1 \<and>
     take 1 (log_entries (cores w ''a'')) = take 1 (log_entries (cores w ''b''))"
proof -
  obtain w where w: "sample_world settled_a (final committed_b) w" using sample_committed by blast
  have "''b'' \<in> set sample_members" by (simp add: sample_members_def)
  with w show ?thesis
    using state_machine_safety [of sample_lib sample_members 150 300 w w "''a''" "''b''" 1]
    by (intro exI [of _ w]) (simp add: sample_world_def sample_commit)
qed

text \<open>
  C28: The network of cores refines the abstract protocol: every reachable world is, seen through
  \<open>view\<close> (role, term, vote, log, commit index, votes, match indexes), a state that the protocol
  reaches from its start, by the protocol's steps alone.
\<close>

theorem network_refines_protocol:
  assumes "iterates_once lib" and "world_reachable lib ms lo hi w"
  shows "\<exists>\<sigma>. (p_step (majority_of ms))\<^sup>*\<^sup>* p_start \<sigma> \<and> list_all (\<lambda>n. node_at \<sigma> n = view (cores w n)) ms"
proof (rule world_simulated [OF assms])
  fix \<sigma> assume "p_steps ms p_start \<sigma>" and s: "simulates ms w \<sigma>"
  then show ?thesis
    using cm_view [OF simulates_core [OF s]] by (auto simp: p_steps_def list_all_iff)
qed

theorem network_refines_protocol_witness:
  "\<exists>w \<sigma>. world_reachable sample_lib sample_members 150 300 w \<and>
     (p_step (majority_of sample_members))\<^sup>*\<^sup>* p_start \<sigma> \<and> v_role (node_at \<sigma> ''a'') = Leader \<and>
     v_commit (node_at \<sigma> ''b'') = 1"
proof -
  obtain w where w: "sample_world settled_a (final committed_b) w" using sample_committed by blast
  then show ?thesis
    using network_refines_protocol [of sample_lib sample_members 150 300 w]
    by (auto simp: sample_world_def sample_members_def sample_commit)
qed

text \<open>
  C29: In such a cluster a node answers every request that reaches it: neither handler throws, while
  the node's log has room.  In particular no committed command of a client stops a node.
\<close>

theorem requests_are_answered:
  assumes "iterates_once lib" and "world_reachable lib ms lo hi w"
  shows "list_all (\<lambda>(n, m, q). \<not> isl (fst (handle_request_vote lib q (cores w m)))) (vote_requests w) \<and>
    list_all (\<lambda>(n, m, q). \<not> isl (fst (handle_append_entries lib q (cores w m))))
      (filter (\<lambda>(n, m, q). length (log_entries (cores w m)) + length (entries q) \<le> log_max_size) (append_requests w))"
proof (rule world_simulated [OF assms])
  fix \<sigma> assume s: "simulates ms w \<sigma>"
  have "\<not> isl (fst (handle_request_vote lib q (cores w m)))" if "(n, m, q) \<in> set (vote_requests w)" for n m q
  proof -
    have q: "m \<in> set ms" "vote_request_ok \<sigma> n q" using s that by (auto simp: simulates_def messages_ok_def)
    show ?thesis
      using moves_request_vote [OF simulates_inv [OF s] simulates_core [OF s q(1)] q(2), of lib]
      by (metis fst_conv sum.disc(2))
  qed
  moreover have "\<not> isl (fst (handle_append_entries lib q (cores w m)))"
    if "(n, m, q) \<in> set (append_requests w)" "length (log_entries (cores w m)) + length (entries q) \<le> log_max_size" for n m q
  proof -
    have q: "m \<in> set ms" "append_request_ok \<sigma> n q" "n \<noteq> m"
      using s that(1) by (auto simp: simulates_def messages_ok_def)
    have b: "within_bounds (Handle_Append_Entries q) (cores w m)" using that(2) by (simp add: within_bounds_def)
    show ?thesis
      using moves_append_entries [OF simulates_inv [OF s] simulates_core [OF s q(1)] q(2,3) b, of lib]
      by (metis fst_conv sum.disc(2))
  qed
  ultimately show ?thesis by (auto simp: list_all_iff)
qed

theorem requests_are_answered_witness:
  "\<exists>w. world_reachable sample_lib sample_members 150 300 w \<and> append_requests w \<noteq> [] \<and>
    list_all (\<lambda>(n, m, q). \<not> isl (fst (handle_append_entries sample_lib q (cores w m))))
      (filter (\<lambda>(n, m, q). length (log_entries (cores w m)) + length (entries q) \<le> log_max_size) (append_requests w))"
proof -
  obtain w where "sample_world settled_a (final committed_b) w" and "append_requests w \<noteq> []"
    using sample_committed by blast
  then show ?thesis
    using requests_are_answered [of sample_lib sample_members 150 300 w] by (auto simp: sample_world_def)
qed

text \<open>What a message of each kind is made of, when the cluster has the members \<open>ms\<close>.\<close>

definition vote_request_typed :: "string list \<Rightarrow> string \<times> string \<times> request_vote_request \<Rightarrow> bool" where
  "vote_request_typed ms = (\<lambda>(n, m, q). n \<in> set ms \<and> m \<in> set ms \<and> candidate_id q = n \<and>
     unat (rv_last_log_index q) \<le> log_max_size)"

definition append_request_typed :: "string list \<Rightarrow> string \<times> string \<times> append_entries_request \<Rightarrow> bool" where
  "append_request_typed ms = (\<lambda>(n, m, q). n \<in> set ms \<and> m \<in> set ms \<and> n \<noteq> m \<and> ae_leader_id q = n \<and>
     unat (prev_log_index q) + length (entries q) \<le> log_max_size \<and>
     valid_log (ae_term q) (entries q) \<and> commands_ok (entries q) \<and>
     list_all (\<lambda>e. prev_log_term q \<le> entry_term e) (entries q))"

lemma append_request_ok_typed:
  assumes "append_request_ok \<sigma> n q" and "n \<in> set ms" and "m \<in> set ms" and "n \<noteq> m"
  shows "append_request_typed ms (n, m, q)"
proof -
  obtain es p where leader: "ae_leader_id q = n" and r: "request_for es p q" and es: "valid_log (ae_term q) es" "commands_ok es"
    "length es \<le> log_max_size" using assms(1) by (auto simp: append_request_ok_def)
  have q: "p \<le> length es" "unat (prev_log_index q) = p" "prev_log_term q = term_at es p" "entries q = drop p es"
    using r by (simp_all add: request_for_def)
  have "entries_acceptable (ae_term q) (term_at es p) (drop p es)" by (rule valid_log_acceptable [OF es(1)])
  then have "valid_log (ae_term q) (entries q)" "list_all (\<lambda>e. prev_log_term q \<le> entry_term e) (entries q)"
    using q by (auto simp: entries_acceptable_iff list_all_iff)
  moreover have "commands_ok (entries q)" using es(2) q(4) by (auto simp: commands_ok_def dest: in_set_dropD)
  moreover have "unat (prev_log_index q) + length (entries q) \<le> log_max_size" using q es(3) by simp
  ultimately show ?thesis using leader assms(2-4) by (simp add: append_request_typed_def)
qed

text \<open>
  C10: The types of the messages.  Whatever is ever on the network of a cluster has the form that its
  receivers count on: a vote request comes from a member, in its own name, with a log index that a
  log can have; an append entries request goes from one member to another in the sender's own name,
  with entries of nonzero terms in order, none later than the request's and none earlier than the
  term before them, no empty or malformed command, and no index beyond what a log can hold; answers
  go to members, and those to append entries requests never to their sender itself.
\<close>

theorem messages_are_well_typed:
  assumes "iterates_once lib" and "world_reachable lib ms lo hi w"
  shows "list_all (vote_request_typed ms) (vote_requests w) \<and>
    list_all (append_request_typed ms) (append_requests w) \<and>
    list_all (\<lambda>(m, n, r). n \<in> set ms) (vote_replies w) \<and>
    list_all (\<lambda>(m, n, r). n \<in> set ms \<and> m \<in> set ms \<and> m \<noteq> n) (append_replies w)"
proof (rule world_simulated [OF assms])
  fix \<sigma> assume "simulates ms w \<sigma>"
  then have ok: "messages_ok ms w \<sigma>" by (simp add: simulates_def)
  have "vote_request_typed ms x" if "x \<in> set (vote_requests w)" for x
    using ok that by (cases x) (fastforce simp: vote_request_typed_def messages_ok_def vote_request_ok_def unat_last_index)
  moreover have "append_request_typed ms x" if "x \<in> set (append_requests w)" for x
    using ok that append_request_ok_typed by (cases x) (fastforce simp: messages_ok_def)
  moreover have "list_all (\<lambda>(m, n, r). n \<in> set ms) (vote_replies w)"
    and "list_all (\<lambda>(m, n, r). n \<in> set ms \<and> m \<in> set ms \<and> m \<noteq> n) (append_replies w)"
    using ok unfolding list_all_iff messages_ok_def by fast+
  ultimately show ?thesis unfolding list_all_iff by blast
qed

theorem messages_are_well_typed_witness:
  "\<exists>w. world_reachable sample_lib sample_members 150 300 w \<and> append_requests w \<noteq> [] \<and>
    list_all (append_request_typed sample_members) (append_requests w)"
proof -
  obtain w where "sample_world settled_a (final committed_b) w" and "append_requests w \<noteq> []"
    using sample_committed by blast
  then show ?thesis
    using messages_are_well_typed [of sample_lib sample_members 150 300 w] by (auto simp: sample_world_def)
qed

end
