(* ===== verification/Node_Network.thy ===== *)
theory Node_Network
  imports Node_Main Raft_Safety
begin

text \<open>
  The processes and the network together: a node process whose peers are nodes of the network is
  itself a node of the network, through every layer of the program (the process, its runtime, the
  peer clients, the conversions, the service of the other node, its core).  The locale \<open>transport\<close>
  says what is assumed of gRPC; what other threads and processes do meanwhile is assumed to be steps
  of the world, and \<open>other_round_by_steps\<close> shows that the rounds of the other processes are such steps.
\<close>

section \<open>Worlds that know more messages\<close>

text \<open>The same cores; every message of \<open>x\<close> is one of \<open>w\<close>.\<close>

definition covers :: "'g world \<Rightarrow> 'g world \<Rightarrow> bool" where
  "covers w x \<longleftrightarrow> cores w = cores x \<and>
     set (vote_requests x) \<subseteq> set (vote_requests w) \<and> set (vote_replies x) \<subseteq> set (vote_replies w) \<and>
     set (append_requests x) \<subseteq> set (append_requests w) \<and> set (append_replies x) \<subseteq> set (append_replies w)"

lemma covers_refl [simp]: "covers w w"
  by (simp add: covers_def)

lemma covers_put_core [intro]: "covers w x \<Longrightarrow> covers (put_core n s w) (put_core n s x)"
  by (simp add: covers_def)

lemma covers_step:
  assumes "world_step lib ms lo hi x x'" and c: "covers w x"
  shows "\<exists>w'. world_step lib ms lo hi w w' \<and> covers w' x'"
  using assms(1)
proof cases
  case (local n c)
  then show ?thesis using world_step.local [of n ms c w lib] c
    by (intro exI [of _ "put_core n (final (call lib c (cores w n))) w"]) (auto simp: covers_def)
next
  case (send_votes n as s)
  then show ?thesis using world_step.send_votes [of n ms w as s] c
    by (intro exI [of _ "(put_core n s w)\<lparr>vote_requests := vote_requests w @ map (\<lambda>a. (n, rv_target a, rv_request a)) as\<rparr>"])
       (auto simp: covers_def)
next
  case (send_appends n as s)
  then show ?thesis using world_step.send_appends [of n ms w as s] c
    by (intro exI [of _ "(put_core n s w)\<lparr>append_requests := append_requests w @ map (\<lambda>a. (n, ae_target a, ae_request a)) as\<rparr>"])
       (auto simp: covers_def)
next
  case (vote_request n m q r)
  then show ?thesis using world_step.vote_request [of n m q w lib r] c
    by (intro exI [of _ "(put_core m (final r) w)\<lparr>vote_replies := vote_replies w @ reply_of m n r\<rparr>"])
       (auto simp: covers_def)
next
  case (vote_reply m n r)
  then show ?thesis using world_step.vote_reply [of m n r w] c
    by (intro exI [of _ "put_core n (final (receive_vote m r (cores w n))) w"]) (auto simp: covers_def)
next
  case (append_request n m q r)
  then show ?thesis using world_step.append_request [of n m q w lib r] c
    by (intro exI [of _ "(put_core m (final r) w)\<lparr>append_replies := append_replies w @ reply_of m n r\<rparr>"])
       (auto simp: covers_def)
next
  case (append_reply m n r)
  then show ?thesis using world_step.append_reply [of m n r w] c
    by (intro exI [of _ "put_core n (final (receive_append_entries_response m r (cores w n))) w"]) (auto simp: covers_def)
next
  case (restart n seed s d)
  then show ?thesis using world_step.restart [of n ms w lib lo hi seed s d] c
    by (intro exI [of _ "put_core n s w"]) (auto simp: covers_def)
qed

lemma covers_steps:
  assumes "(world_step lib ms lo hi)\<^sup>*\<^sup>* x x'" and c: "covers w x"
  shows "\<exists>w'. (world_step lib ms lo hi)\<^sup>*\<^sup>* w w' \<and> covers w' x'"
  using assms(1)
proof (induction rule: rtranclp_induct)
  case base
  then show ?case using c by blast
next
  case (step x1 x2)
  then show ?case using covers_step [OF step.hyps(2)] by (meson rtranclp.rtrancl_into_rtrancl)
qed

text \<open>From \<open>w\<close> the world can go on so that all is as in \<open>x\<close>, with at least the messages that \<open>x\<close> knows.\<close>

definition leads_to :: "'g std_lib \<Rightarrow> string list \<Rightarrow> u64 \<Rightarrow> u64 \<Rightarrow> 'g world \<Rightarrow> 'g world \<Rightarrow> bool" where
  "leads_to lib ms lo hi w x \<longleftrightarrow> (\<exists>w'. (world_step lib ms lo hi)\<^sup>*\<^sup>* w w' \<and> covers w' x)"

lemma covers_trans: "covers u w \<Longrightarrow> covers w x \<Longrightarrow> covers u x"
  by (auto simp: covers_def)

lemma leads_to_steps: "(world_step lib ms lo hi)\<^sup>*\<^sup>* w x \<Longrightarrow> leads_to lib ms lo hi w x"
  unfolding leads_to_def using covers_refl by blast

lemma covers_leads:
  assumes "covers w x" and "leads_to lib ms lo hi x y"
  shows "leads_to lib ms lo hi w y"
proof -
  obtain x' where x': "(world_step lib ms lo hi)\<^sup>*\<^sup>* x x'" "covers x' y" using assms(2) unfolding leads_to_def by blast
  obtain w' where "(world_step lib ms lo hi)\<^sup>*\<^sup>* w w'" "covers w' x'" using covers_steps [OF x'(1) assms(1)] by blast
  then show ?thesis unfolding leads_to_def using covers_trans x'(2) by blast
qed

text \<open>No message is ever forgotten.\<close>

lemma requests_stay:
  assumes "(world_step lib ms lo hi)\<^sup>*\<^sup>* w w'"
  shows "set (vote_requests w) \<subseteq> set (vote_requests w')" and "set (append_requests w) \<subseteq> set (append_requests w')"
proof -
  have "set (vote_requests w) \<subseteq> set (vote_requests w') \<and> set (append_requests w) \<subseteq> set (append_requests w')"
    using assms
  proof (induction rule: rtranclp_induct)
    case (step w1 w2)
    from step.hyps(2) have "set (vote_requests w1) \<subseteq> set (vote_requests w2)" "set (append_requests w1) \<subseteq> set (append_requests w2)"
      by (cases; auto)+
    then show ?case using step.IH by blast
  qed simp
  then show "set (vote_requests w) \<subseteq> set (vote_requests w')" "set (append_requests w) \<subseteq> set (append_requests w')" by simp_all
qed

lemma covers_more:
  "covers w x \<Longrightarrow> m \<in> set (vote_requests w) \<Longrightarrow> covers w (x\<lparr>vote_requests := vote_requests x @ [m]\<rparr>)"
  "covers w x \<Longrightarrow> a \<in> set (append_requests w) \<Longrightarrow> covers w (x\<lparr>append_requests := append_requests x @ [a]\<rparr>)"
  by (simp_all add: covers_def)

section \<open>The network under a node\<close>

text \<open>
  What the runtime of the node \<open>n\<close> relies on: \<open>host\<close> says which node listens at an address.  A call
  puts the request on the network; until it returns the world goes on in any way (the request may
  arrive, once, more often or never; handlers of the node itself may run); and an answer that is
  not an error is one that the called node gave.
\<close>

locale transport =
  fixes lib :: "'g std_lib" and ms :: "string list" and lo hi :: u64 and host :: "string \<Rightarrow> string"
    and n :: string and st :: "('g raft_core \<times> 'g world) stub"
  assumes vote_call: "stub_request_vote st address deadline q (s, x) = ((status, response), (s', x')) \<Longrightarrow>
      leads_to lib ms lo hi
        ((put_core n s x)\<lparr>vote_requests := vote_requests x @ [(n, host address, request_vote_request_from_rpc q)]\<rparr>)
        (put_core n s' x') \<and>
      (status_ok status \<longrightarrow> (host address, n, request_vote_response_from_rpc response) \<in> set (vote_replies x'))"
    and append_call: "stub_append_entries st address deadline a (s, x) = ((status', reply), (s', x')) \<Longrightarrow>
      leads_to lib ms lo hi
        ((put_core n s x)\<lparr>append_requests := append_requests x @ [(n, host address, append_entries_request_from_rpc a)]\<rparr>)
        (put_core n s' x') \<and>
      (status_ok status' \<longrightarrow> (host address, n, append_entries_response_from_rpc reply) \<in> set (append_replies x'))"

text \<open>The node is a member.\<close>

locale network_node = transport lib ms lo hi host n st
  for lib :: "'g std_lib" and ms :: "string list" and lo hi :: u64 and host :: "string \<Rightarrow> string"
    and n :: string and st :: "('g raft_core \<times> 'g world) stub" +
  assumes member: "n \<in> set ms"

text \<open>The runtime \<open>rt\<close> is the node \<open>n\<close> of the world \<open>w\<close>, and what it knows of the rest is so in \<open>w\<close>.\<close>

definition runs_in :: "string \<Rightarrow> 'g world \<Rightarrow> ('g, 'g world) runtime \<Rightarrow> bool" where
  "runs_in n w rt \<longleftrightarrow> covers w (put_core n (rt_core rt) (rt_net rt))"

text \<open>From \<open>rt\<close> to \<open>rt'\<close> the world goes on by its steps; the table of peers is the same.\<close>

definition world_goes :: "'g std_lib \<Rightarrow> string list \<Rightarrow> u64 \<Rightarrow> u64 \<Rightarrow> string \<Rightarrow>
    'g world \<Rightarrow> ('g, 'g world) runtime \<Rightarrow> bool" where
  "world_goes lib ms lo hi n w rt \<longleftrightarrow> (\<exists>w'. (world_step lib ms lo hi)\<^sup>*\<^sup>* w w' \<and> runs_in n w' rt)"

lemma world_goes_iff: "world_goes lib ms lo hi n w rt \<longleftrightarrow> leads_to lib ms lo hi w (put_core n (rt_core rt) (rt_net rt))"
  by (simp add: world_goes_def leads_to_def runs_in_def)

lemma world_goesI: "runs_in n w rt \<Longrightarrow> world_goes lib ms lo hi n w rt"
  unfolding world_goes_def by blast

lemma world_goes_trans:
  "(world_step lib ms lo hi)\<^sup>*\<^sup>* w w' \<Longrightarrow> world_goes lib ms lo hi n w' rt \<Longrightarrow> world_goes lib ms lo hi n w rt"
  unfolding world_goes_def by (meson rtranclp_trans)

lemma runs_in_core: "runs_in n w rt \<Longrightarrow> cores w n = rt_core rt"
  by (simp add: runs_in_def covers_def)

text \<open>The timer is not part of the world.\<close>

lemma runs_in_timer [simp]: "runs_in n w (rt\<lparr>heartbeat_elapsed_ms := t\<rparr>) = runs_in n w rt"
  by (simp add: runs_in_def)

lemma put_core_twice [simp]: "put_core n s (put_core n t w) = put_core n s w"
  by (simp add: put_core_def)

text \<open>One step of the world that changes the core of the node only.\<close>

lemma runs_in_step:
  assumes "runs_in n w rt" and "world_step lib ms lo hi w (put_core n s w)"
  shows "world_goes lib ms lo hi n w (rt\<lparr>rt_core := s\<rparr>)"
  using assms covers_put_core [of w "put_core n (rt_core rt) (rt_net rt)" n s]
  unfolding world_goes_def runs_in_def by (intro exI [of _ "put_core n s w"]) auto

lemma runs_in_local:
  assumes "runs_in n w rt" and "n \<in> set ms" and "local_call c" and "within_bounds c (rt_core rt)"
  shows "world_goes lib ms lo hi n w (rt\<lparr>rt_core := final (call lib c (rt_core rt))\<rparr>)"
  using runs_in_step [OF assms(1), of lib ms lo hi] world_step.local [OF assms(2,3), of w lib lo hi]
    runs_in_core [OF assms(1)] assms(4) by simp

text \<open>What happens meanwhile, in other threads and other processes, is steps of the world.\<close>

definition by_world_steps :: "'g std_lib \<Rightarrow> string list \<Rightarrow> u64 \<Rightarrow> u64 \<Rightarrow> string \<Rightarrow> ('g, 'g world) meanwhile \<Rightarrow> bool" where
  "by_world_steps lib ms lo hi n h \<longleftrightarrow>
     (\<forall>s x. leads_to lib ms lo hi (put_core n s x) (put_core n (fst (h (s, x))) (snd (h (s, x)))))"

lemma runs_in_meanwhile:
  assumes "runs_in n w rt" and "leads_to lib ms lo hi (put_core n (rt_core rt) (rt_net rt)) (put_core n s x)"
  shows "world_goes lib ms lo hi n w (rt\<lparr>rt_core := s, rt_net := x\<rparr>)"
  using covers_leads [OF _ assms(2)] assms(1) unfolding world_goes_iff runs_in_def by simp

lemma interfere_goes:
  assumes "by_world_steps lib ms lo hi n h" and "runs_in n w rt"
  shows "world_goes lib ms lo hi n w (interfere h rt)"
proof (cases "h (rt_core rt, rt_net rt)")
  case (Pair s x)
  then show ?thesis
    using runs_in_meanwhile [OF assms(2)] assms(1) unfolding by_world_steps_def interfere_def
    by (metis case_prod_conv fst_conv snd_conv)
qed

text \<open>Every client is connected to the address at which its peer listens.\<close>

definition addressed :: "(string \<Rightarrow> string) \<Rightarrow> (string \<rightharpoonup> peer_client) \<Rightarrow> bool" where
  "addressed host ps \<longleftrightarrow> (\<forall>m p. ps m = Some p \<longrightarrow> host (peer_address p) = m)"

text \<open>An operation of the runtime that goes by steps of the world, on every exit.\<close>

definition in_network :: "'g std_lib \<Rightarrow> string list \<Rightarrow> u64 \<Rightarrow> u64 \<Rightarrow> string \<Rightarrow>
    'g world \<Rightarrow> (string \<rightharpoonup> peer_client) \<Rightarrow> (exc + 'a) \<times> ('g, 'g world) runtime \<Rightarrow> bool" where
  "in_network lib ms lo hi n w ps r \<longleftrightarrow> world_goes lib ms lo hi n w (final r) \<and> peers (final r) = ps"

lemma in_network_bind:
  assumes "in_network lib ms lo hi n w ps (m rt)"
    and "\<And>a rt' w'. m rt = (Inr a, rt') \<Longrightarrow> (world_step lib ms lo hi)\<^sup>*\<^sup>* w w' \<Longrightarrow> runs_in n w' rt' \<Longrightarrow>
      peers rt' = ps \<Longrightarrow> in_network lib ms lo hi n w' ps (k a rt')"
  shows "in_network lib ms lo hi n w ps (bind_op m k rt)"
proof (cases "m rt")
  case (Pair r rt')
  obtain w' where w': "(world_step lib ms lo hi)\<^sup>*\<^sup>* w w'" "runs_in n w' rt'" and p: "peers rt' = ps"
    using assms(1) Pair by (auto simp: in_network_def world_goes_def)
  show ?thesis
  proof (cases r)
    case (Inl e)
    then show ?thesis using assms(1) Pair by (simp add: bind_op_def in_network_def)
  next
    case (Inr a)
    then have "in_network lib ms lo hi n w' ps (k a rt')" using assms(2) Pair w' p by blast
    then show ?thesis
      using world_goes_trans [OF w'(1)] Pair Inr by (simp add: bind_op_def in_network_def)
  qed
qed

lemma in_network_return: "runs_in n w rt \<Longrightarrow> in_network lib ms lo hi n w (peers rt) (r, rt)"
  by (simp add: in_network_def world_goesI)

lemma on_core_final: "final (on_core m rt) = rt\<lparr>rt_core := final (m (rt_core rt))\<rparr>"
  by (simp add: on_core_def split: prod.split)

lemma in_network_local:
  assumes "runs_in n w rt" and "n \<in> set ms" and "local_call c" and "within_bounds c (rt_core rt)"
    and "discard (m (rt_core rt)) = call lib c (rt_core rt)"
  shows "in_network lib ms lo hi n w (peers rt) (on_core m rt)"
  using runs_in_local [OF assms(1-4), of lib lo hi] assms(5) discard_final [of "m (rt_core rt)"]
  by (simp add: in_network_def on_core_final)

lemma in_network_receive:
  assumes "runs_in n w rt"
  shows "(m, n, r) \<in> set (vote_replies w) \<Longrightarrow> in_network lib ms lo hi n w (peers rt) (on_core (service_receive_vote m r) rt)"
    and "(m, n, a) \<in> set (append_replies w) \<Longrightarrow>
      in_network lib ms lo hi n w (peers rt) (on_core (service_receive_append_entries_response m a) rt)"
  using runs_in_step [OF assms, of lib ms lo hi] runs_in_core [OF assms]
    world_step.vote_reply [of m n r w lib ms lo hi] world_step.append_reply [of m n a w lib ms lo hi]
  by (simp_all add: in_network_def on_core_final service_receive_vote_def service_receive_append_entries_response_def)

text \<open>A call to a peer and the delivery of its answer, if there is one, before the rest.\<close>

lemma on_world_returns: "\<exists>r rt'. on_world f rt = (Inr r, rt')"
  by (cases "f (rt_core rt, rt_net rt)") (auto simp: on_world_def)

lemma in_network_exchange:
  assumes call: "\<And>r rt1. on_world f rt = (Inr r, rt1) \<Longrightarrow> \<exists>w1. (world_step lib ms lo hi)\<^sup>*\<^sup>* w w1 \<and>
      runs_in n w1 rt1 \<and> peers rt1 = ps \<and> (\<forall>v. r = Some v \<longrightarrow> in_network lib ms lo hi n w1 ps (on_core (g v) rt1))"
    and rest: "\<And>w2 rt2. (world_step lib ms lo hi)\<^sup>*\<^sup>* w w2 \<Longrightarrow> runs_in n w2 rt2 \<Longrightarrow> peers rt2 = ps \<Longrightarrow>
      in_network lib ms lo hi n w2 ps (k rt2)"
  shows "in_network lib ms lo hi n w ps (bind_op (on_world f) (\<lambda>response.
      bind_op (case response of Some v \<Rightarrow> on_core (g v) | None \<Rightarrow> return_op ()) (\<lambda>_. k)) rt)"
proof -
  obtain r rt1 where run: "on_world f rt = (Inr r, rt1)" using on_world_returns [of f rt] by blast
  obtain w1 where w1: "(world_step lib ms lo hi)\<^sup>*\<^sup>* w w1" "runs_in n w1 rt1" "peers rt1 = ps"
      "\<forall>v. r = Some v \<longrightarrow> in_network lib ms lo hi n w1 ps (on_core (g v) rt1)"
    using call [OF run] by blast
  let ?receive = "case r of Some v \<Rightarrow> on_core (g v) | None \<Rightarrow> return_op ()"
  have "in_network lib ms lo hi n w1 ps (?receive rt1)"
    using in_network_return [OF w1(2)] w1(3,4) by (cases r) (simp_all add: return_op_def)
  then have "in_network lib ms lo hi n w1 ps (bind_op ?receive (\<lambda>_. k) rt1)"
  proof (rule in_network_bind)
    fix x :: unit and rt2 w2
    assume "(world_step lib ms lo hi)\<^sup>*\<^sup>* w1 w2" "runs_in n w2 rt2" "peers rt2 = ps"
    with rest [OF rtranclp_trans [OF w1(1)]] show "in_network lib ms lo hi n w2 ps (k rt2)" .
  qed
  then have "in_network lib ms lo hi n w ps (bind_op ?receive (\<lambda>_. k) rt1)"
    using world_goes_trans [OF w1(1)] by (simp add: in_network_def)
  then show ?thesis using run by (simp add: bind_op_def)
qed

section \<open>A round of the loop\<close>

context transport
begin

lemma vote_round:
  assumes w: "runs_in n w rt" and q: "(n, m, q) \<in> set (vote_requests w)" and m: "host (peer_address p) = m"
    and run: "on_world (peer_request_vote st p q) rt = (Inr r, rt')"
  shows "\<exists>w'. (world_step lib ms lo hi)\<^sup>*\<^sup>* w w' \<and> runs_in n w' rt' \<and> peers rt' = peers rt \<and>
    (\<forall>v. r = Some v \<longrightarrow> in_network lib ms lo hi n w' (peers rt) (on_core (service_receive_vote m v) rt'))"
proof -
  let ?x = "put_core n (rt_core rt) (rt_net rt)"
  obtain status response s' x' where stub: "stub_request_vote st (peer_address p) rpc_deadline_ms
      (request_vote_request_to_rpc q) (rt_core rt, rt_net rt) = ((status, response), (s', x'))"
    by (metis surj_pair)
  have rt': "rt' = rt\<lparr>rt_core := s', rt_net := x'\<rparr>"
    and r: "r = (if status_ok status then Some (request_vote_response_from_rpc response) else None)"
    using run stub by (auto simp: on_world_def peer_request_vote_def split: if_splits)
  note call = vote_call [OF stub, unfolded m vote_rpc.request.decode_encode]
  have "covers w (?x\<lparr>vote_requests := vote_requests (rt_net rt) @ [(n, m, q)]\<rparr>)"
    using covers_more(1) [OF _ q, of ?x] w by (simp add: runs_in_def)
  then obtain w' where w': "(world_step lib ms lo hi)\<^sup>*\<^sup>* w w'" "covers w' (put_core n s' x')"
    using covers_leads [OF _ conjunct1 [OF call]] unfolding leads_to_def by blast
  moreover have "\<forall>v. r = Some v \<longrightarrow> (m, n, v) \<in> set (vote_replies w')"
    using call w'(2) r by (auto simp: covers_def split: if_splits)
  moreover have "runs_in n w' rt'" and "peers rt' = peers rt" using w'(2) rt' by (simp_all add: runs_in_def)
  ultimately show ?thesis using in_network_receive(1) [of n w' rt' m] by (intro exI [of _ w']) simp
qed

lemma append_round:
  assumes w: "runs_in n w rt" and q: "(n, m, q) \<in> set (append_requests w)" and m: "host (peer_address p) = m"
    and run: "on_world (peer_append_entries st p q) rt = (Inr r, rt')"
  shows "\<exists>w'. (world_step lib ms lo hi)\<^sup>*\<^sup>* w w' \<and> runs_in n w' rt' \<and> peers rt' = peers rt \<and>
    (\<forall>v. r = Some v \<longrightarrow> in_network lib ms lo hi n w' (peers rt) (on_core (service_receive_append_entries_response m v) rt'))"
proof -
  let ?x = "put_core n (rt_core rt) (rt_net rt)"
  obtain status response s' x' where stub: "stub_append_entries st (peer_address p) rpc_deadline_ms
      (append_entries_request_to_rpc q) (rt_core rt, rt_net rt) = ((status, response), (s', x'))"
    by (metis surj_pair)
  have rt': "rt' = rt\<lparr>rt_core := s', rt_net := x'\<rparr>"
    and r: "r = (if status_ok status then Some (append_entries_response_from_rpc response) else None)"
    using run stub by (auto simp: on_world_def peer_append_entries_def split: if_splits)
  note call = append_call [OF stub, unfolded m append_rpc.request.decode_encode]
  have "covers w (?x\<lparr>append_requests := append_requests (rt_net rt) @ [(n, m, q)]\<rparr>)"
    using covers_more(2) [OF _ q, of ?x] w by (simp add: runs_in_def)
  then obtain w' where w': "(world_step lib ms lo hi)\<^sup>*\<^sup>* w w'" "covers w' (put_core n s' x')"
    using covers_leads [OF _ conjunct1 [OF call]] unfolding leads_to_def by blast
  moreover have "\<forall>v. r = Some v \<longrightarrow> (m, n, v) \<in> set (append_replies w')"
    using call w'(2) r by (auto simp: covers_def split: if_splits)
  moreover have "runs_in n w' rt'" and "peers rt' = peers rt" using w'(2) rt' by (simp_all add: runs_in_def)
  ultimately show ?thesis using in_network_receive(2) [of n w' rt' m] by (intro exI [of _ w']) simp
qed

lemma deliver_votes_in_network:
  assumes "runs_in n w rt" and "addressed host (peers rt)"
    and "\<forall>a \<in> set as. (n, rv_target a, rv_request a) \<in> set (vote_requests w)"
  shows "in_network lib ms lo hi n w (peers rt) (deliver_votes st as rt)"
  using assms
proof (induction as arbitrary: w rt)
  case Nil
  then show ?case by (simp add: in_network_return)
next
  case (Cons a as)
  have rest: "in_network lib ms lo hi n w2 (peers rt) (deliver_votes st as rt2)"
    if "(world_step lib ms lo hi)\<^sup>*\<^sup>* w w2" and "runs_in n w2 rt2" and "peers rt2 = peers rt" for w2 rt2
    using Cons.IH [OF that(2)] Cons.prems(2,3) requests_stay(1) [OF that(1)] that(3) by auto
  show ?case
  proof (cases "find_peer (rv_target a) rt")
    case None
    then show ?thesis using rest [OF rtranclp.rtrancl_refl Cons.prems(1)] by simp
  next
    case (Some p)
    have "host (peer_address p) = rv_target a" using Some Cons.prems(2) by (simp add: addressed_def find_peer_def)
    moreover have "(n, rv_target a, rv_request a) \<in> set (vote_requests w)" using Cons.prems(3) by simp
    ultimately show ?thesis
      unfolding deliver_votes.simps Some option.case
      by (intro in_network_exchange vote_round [OF Cons.prems(1)] rest)
  qed
qed

lemma deliver_appends_in_network:
  assumes "runs_in n w rt" and "addressed host (peers rt)"
    and "\<forall>a \<in> set as. (n, ae_target a, ae_request a) \<in> set (append_requests w)"
  shows "in_network lib ms lo hi n w (peers rt) (deliver_appends st as rt)"
  using assms
proof (induction as arbitrary: w rt)
  case Nil
  then show ?case by (simp add: in_network_return)
next
  case (Cons a as)
  have rest: "in_network lib ms lo hi n w2 (peers rt) (deliver_appends st as rt2)"
    if "(world_step lib ms lo hi)\<^sup>*\<^sup>* w w2" and "runs_in n w2 rt2" and "peers rt2 = peers rt" for w2 rt2
    using Cons.IH [OF that(2)] Cons.prems(2,3) requests_stay(2) [OF that(1)] that(3) by auto
  show ?case
  proof (cases "find_peer (ae_target a) rt")
    case None
    then show ?thesis using rest [OF rtranclp.rtrancl_refl Cons.prems(1)] by simp
  next
    case (Some p)
    have "host (peer_address p) = ae_target a" using Some Cons.prems(2) by (simp add: addressed_def find_peer_def)
    moreover have "(n, ae_target a, ae_request a) \<in> set (append_requests w)" using Cons.prems(3) by simp
    ultimately show ?thesis
      unfolding deliver_appends.simps Some option.case
      by (intro in_network_exchange append_round [OF Cons.prems(1)] rest)
  qed
qed

end

context network_node
begin

lemma deliver_vote_requests_in_network:
  assumes w: "runs_in n w rt" and "addressed host (peers rt)"
  shows "in_network lib ms lo hi n w (peers rt) (deliver_vote_requests st rt)"
proof -
  obtain as s where take: "take_request_vote_actions (rt_core rt) = (as, s)" by fastforce
  let ?w = "(put_core n s w)\<lparr>vote_requests := vote_requests w @ map (\<lambda>a. (n, rv_target a, rv_request a)) as\<rparr>"
  have step: "(world_step lib ms lo hi)\<^sup>*\<^sup>* w ?w"
    using world_step.send_votes [OF member, of w as s lib lo hi] take runs_in_core [OF w] by auto
  have "runs_in n ?w (rt\<lparr>rt_core := s\<rparr>)"
    using w by (auto simp: runs_in_def covers_def)
  then have "in_network lib ms lo hi n ?w (peers rt) (deliver_votes st as (rt\<lparr>rt_core := s\<rparr>))"
    using deliver_votes_in_network [of ?w "rt\<lparr>rt_core := s\<rparr>" as] assms(2) by simp
  then show ?thesis
    using world_goes_trans [OF step] take
    by (simp add: deliver_vote_requests_def service_take_request_vote_actions_def in_network_def)
qed

lemma deliver_append_entries_in_network:
  assumes w: "runs_in n w rt" and "addressed host (peers rt)"
  shows "in_network lib ms lo hi n w (peers rt) (deliver_append_entries st rt)"
proof -
  obtain as s where take: "take_append_entries_actions (rt_core rt) = (as, s)" by fastforce
  let ?w = "(put_core n s w)\<lparr>append_requests := append_requests w @ map (\<lambda>a. (n, ae_target a, ae_request a)) as\<rparr>"
  have step: "(world_step lib ms lo hi)\<^sup>*\<^sup>* w ?w"
    using world_step.send_appends [OF member, of w as s lib lo hi] take runs_in_core [OF w] by auto
  have "runs_in n ?w (rt\<lparr>rt_core := s\<rparr>)"
    using w by (auto simp: runs_in_def covers_def)
  then have "in_network lib ms lo hi n ?w (peers rt) (deliver_appends st as (rt\<lparr>rt_core := s\<rparr>))"
    using deliver_appends_in_network [of ?w "rt\<lparr>rt_core := s\<rparr>" as] assms(2) by simp
  then show ?thesis
    using world_goes_trans [OF step] take
    by (simp add: deliver_append_entries_def service_take_append_entries_actions_def in_network_def)
qed

lemma queue_heartbeats_in_network:
  assumes w: "runs_in n w rt"
  shows "in_network lib ms lo hi n w (peers rt) (on_core service_queue_heartbeats_if_leader rt)"
proof (cases "role (rt_core rt) = Leader")
  case True
  then show ?thesis
    by (intro in_network_local [OF w member, where c = Queue_Heartbeat_Actions])
       (simp_all add: service_queue_heartbeats_if_leader_def within_bounds_def)
next
  case False
  then show ?thesis
    using in_network_return [OF w] by (simp add: on_core_def service_queue_heartbeats_if_leader_def)
qed

lemma heartbeat_timer_in_network:
  assumes w: "runs_in n w rt"
  shows "in_network lib ms lo hi n w (peers rt) (heartbeat_timer elapsed rt)"
proof -
  have timer: "in_network lib ms lo hi n w' ps (r, rt'\<lparr>heartbeat_elapsed_ms := t\<rparr>)"
    if "runs_in n w' rt'" and "peers rt' = ps" for w' rt' ps and r :: "exc + unit" and t
    using in_network_return [of n w' "rt'\<lparr>heartbeat_elapsed_ms := t\<rparr>"] that by simp
  let ?rt = "rt\<lparr>heartbeat_elapsed_ms := heartbeat_elapsed_ms rt + elapsed\<rparr>"
  have "in_network lib ms lo hi n w (peers ?rt) (bind_op (on_core service_queue_heartbeats_if_leader)
      (\<lambda>_. modify_op (\<lambda>rt. rt\<lparr>heartbeat_elapsed_ms := 0\<rparr>)) ?rt)"
    by (rule in_network_bind [OF queue_heartbeats_in_network]) (use w in \<open>simp_all add: modify_op_def timer\<close>)
  then show ?thesis using timer [OF w] by (simp add: heartbeat_timer_def Let_def)
qed

lemma run_once_in_network:
  assumes w: "runs_in n w rt" and ad: "addressed host (peers rt)" and t: "current_term (rt_core rt) \<noteq> - 1"
  shows "in_network lib ms lo hi n w (peers rt) (run_once lib st elapsed rt)"
proof -
  have tick: "in_network lib ms lo hi n w (peers rt) (on_core (service_tick lib elapsed) rt)"
    by (rule in_network_local [OF w member, where c = "Tick elapsed"])
       (simp_all add: service_tick_def within_bounds_def t)
  show ?thesis
    unfolding run_once_def
  proof (rule in_network_bind, rule tick, rule in_network_bind)
    fix rt1 and w1 :: "'g world" assume 1: "runs_in n w1 rt1" "peers rt1 = peers rt"
    then show "in_network lib ms lo hi n w1 (peers rt) (deliver_vote_requests st rt1)"
      using deliver_vote_requests_in_network ad by metis
  next
    fix rt2 and w2 :: "'g world" assume 2: "runs_in n w2 rt2" "peers rt2 = peers rt"
    show "in_network lib ms lo hi n w2 (peers rt)
        (bind_op (heartbeat_timer elapsed) (\<lambda>_. deliver_append_entries st) rt2)"
      using heartbeat_timer_in_network [OF 2(1)] deliver_append_entries_in_network ad
      unfolding 2(2) by (intro in_network_bind) metis+
  qed
qed

lemma node_round_in_network:
  assumes w: "runs_in n w (np_runtime p)" and ad: "addressed host (peers (np_runtime p))"
    and h: "by_world_steps lib ms lo hi n (snd r)" and t: "current_term (process_core (asleep (snd r) p)) \<noteq> - 1"
  shows "world_goes lib ms lo hi n w (np_runtime (final (node_round lib st node r p))) \<and>
    peers (np_runtime (final (node_round lib st node r p))) = peers (np_runtime p)"
proof -
  obtain now between where r: "r = (now, between)" by (cases r)
  let ?rt = "interfere between (np_runtime p)"
  have "world_goes lib ms lo hi n w ?rt" using interfere_goes [OF _ w] h r by simp
  then obtain w1 where w1: "(world_step lib ms lo hi)\<^sup>*\<^sup>* w w1" "runs_in n w1 ?rt" unfolding world_goes_def by blast
  have ps: "peers ?rt = peers (np_runtime p)" by (simp add: interfere_def split: prod.split)
  have "current_term (rt_core ?rt) \<noteq> - 1" using t r by (simp add: asleep_def)
  then have run: "in_network lib ms lo hi n w1 (peers (np_runtime p)) (run_once lib st (elapsed_ms now (np_previous_time p)) ?rt)"
    using run_once_in_network [OF w1(2)] ad unfolding ps by blast
  have "np_runtime (final (node_round lib st node r p)) = final (run_once lib st (elapsed_ms now (np_previous_time p)) ?rt)"
    by (simp add: node_round_def r Let_def bind_op_def on_runtime_def asleep_def modify_op_def split: prod.split sum.split)
  then show ?thesis using run world_goes_trans [OF w1(1)] by (simp add: in_network_def)
qed

lemma node_rounds_in_network:
  assumes "runs_in n w (np_runtime p)" and "addressed host (peers (np_runtime p))"
    and "list_all (\<lambda>r. by_world_steps lib ms lo hi n (snd r)) rs" and "terms_left lib st node rs p"
  shows "world_goes lib ms lo hi n w (np_runtime (final (node_rounds lib st node rs p)))"
  using assms
proof (induction rs arbitrary: w p)
  case Nil
  then show ?case by (simp add: world_goesI)
next
  case (Cons r rs)
  let ?p = "final (node_round lib st node r p)"
  have one: "world_goes lib ms lo hi n w (np_runtime ?p)" "peers (np_runtime ?p) = peers (np_runtime p)"
    using node_round_in_network [OF Cons.prems(1,2), of r node] Cons.prems(3,4) by simp_all
  show ?case
  proof (cases "node_round lib st node r p")
    case (Pair x q)
    obtain w' where w': "(world_step lib ms lo hi)\<^sup>*\<^sup>* w w'" "runs_in n w' (np_runtime q)"
      using one(1) Pair unfolding world_goes_def by auto
    show ?thesis
    proof (cases x)
      case (Inl e)
      then show ?thesis using one Pair by (simp add: bind_op_def)
    next
      case (Inr u)
      have "world_goes lib ms lo hi n w' (np_runtime (final (node_rounds lib st node rs q)))"
        using Cons.IH [OF w'(2)] Cons.prems one(2) Pair by simp
      then show ?thesis using world_goes_trans [OF w'(1)] Pair Inr by (simp add: bind_op_def)
    qed
  qed
qed

end

section \<open>The rounds of the other processes\<close>

text \<open>
  What the assumption on the rest of the world is made of: a round of the loop of another process, the
  one of the node \<open>n\<close> with the clients and the timer of \<open>rt\<close>, as it happens to the node \<open>m\<close>.
\<close>

definition other_round ::
    "'g std_lib \<Rightarrow> ('g raft_core \<times> 'g world) stub \<Rightarrow> string \<Rightarrow> ('g, 'g world) runtime \<Rightarrow> u64 \<Rightarrow> string \<Rightarrow> ('g, 'g world) meanwhile" where
  "other_round lib st n rt elapsed m h = (case h of (s, x) \<Rightarrow>
     if current_term (cores x n) = - 1 then (s, x)
     else let rt' = final (run_once lib st elapsed (rt\<lparr>rt_core := cores x n, rt_net := put_core m s x\<rparr>));
              x' = put_core n (rt_core rt') (rt_net rt')
          in (cores x' m, x'))"

lemma put_core_same [simp]: "put_core n (cores w n) w = w"
  by (simp add: put_core_def)

context network_node
begin

lemma other_round_by_steps:
  assumes "addressed host (peers rt)" and "n \<noteq> m"
  shows "by_world_steps lib ms lo hi m (other_round lib st n rt elapsed m)"
  unfolding by_world_steps_def
proof (intro allI)
  fix s :: "'g raft_core" and x :: "'g world"
  let ?h = "other_round lib st n rt elapsed m (s, x)" and ?w = "put_core m s x"
  let ?rt = "rt\<lparr>rt_core := cores x n, rt_net := ?w\<rparr>"
  show "leads_to lib ms lo hi ?w (put_core m (fst ?h) (snd ?h))"
  proof (cases "current_term (cores x n) = - 1")
    case True
    then show ?thesis by (simp add: other_round_def leads_to_steps)
  next
    case False
    have "runs_in n ?w ?rt" using assms(2) by (auto simp: runs_in_def covers_def)
    then have "in_network lib ms lo hi n ?w (peers rt) (run_once lib st elapsed ?rt)"
      using run_once_in_network [of ?w ?rt elapsed] assms(1) False by simp
    then have "leads_to lib ms lo hi ?w (put_core n (rt_core (final (run_once lib st elapsed ?rt))) (rt_net (final (run_once lib st elapsed ?rt))))"
      by (simp add: in_network_def world_goes_iff)
    then show ?thesis using False by (simp only: other_round_def case_prod_conv if_False Let_def fst_conv snd_conv put_core_same)
  qed
qed

end

section \<open>The start of a node in the network\<close>

text \<open>
  A node starts for the first time, with all others and an empty file; or for the first time while
  the others have been at work, and its new core is what the world has had for it so far; or again,
  after it stopped, on the file it left.
\<close>

definition boots_in :: "'g std_lib \<Rightarrow> string list \<Rightarrow> u64 \<Rightarrow> u64 \<Rightarrow> string \<Rightarrow> string \<Rightarrow> state_file \<Rightarrow> 'g world \<Rightarrow> bool" where
  "boots_in lib ms lo hi n path f x \<longleftrightarrow>
     world_start lib ms lo hi x \<and> (path = [] \<or> healthy f \<and> contents f = None) \<or>
     world_reachable lib ms lo hi x \<and> (\<forall>seed. random_seed_for n = Inr seed \<longrightarrow>
       fst (new_raft_core lib n ms 0 [] lo hi seed path f) = Inr (cores x n)) \<or>
     world_reachable lib ms lo hi x \<and> path \<noteq> [] \<and> storage_path (cores x n) = path \<and> disk (cores x n) = f"

lemma world_reachable_steps:
  "world_reachable lib ms lo hi w \<Longrightarrow> (world_step lib ms lo hi)\<^sup>*\<^sup>* w w' \<Longrightarrow> world_reachable lib ms lo hi w'"
  unfolding world_reachable_def by (meson rtranclp_trans)

lemma boots_reachable:
  assumes "boots_in lib ms lo hi n path f x" and n: "n \<in> set ms" and seed: "random_seed_for n = Inr seed"
    and new: "new_raft_core lib n ms 0 [] lo hi seed path f = (Inr s, d)"
  shows "world_reachable lib ms lo hi (put_core n s x)"
proof -
  from assms(1) consider
      (first) "world_start lib ms lo hi x" "path = [] \<or> healthy f \<and> contents f = None"
    | (late) "world_reachable lib ms lo hi x" "fst (new_raft_core lib n ms 0 [] lo hi seed path f) = Inr (cores x n)"
    | (again) "world_reachable lib ms lo hi x" "path \<noteq> []" "storage_path (cores x n) = path" "disk (cores x n) = f"
    using seed unfolding boots_in_def by blast
  then show ?thesis
  proof cases
    case first
    then have "world_start lib ms lo hi (put_core n s x)"
      using new unfolding world_start_def put_core_select by (metis fun_upd_apply)
    then show ?thesis unfolding world_reachable_def by blast
  next
    case late
    then have "put_core n s x = x" using new by (simp add: put_core_def)
    then show ?thesis using late(1) by simp
  next
    case again
    then have "world_step lib ms lo hi x (put_core n s x)"
      using new by (intro world_step.restart [OF n]) auto
    then show ?thesis using world_reachable_steps [OF again(1)] by blast
  qed
qed

section \<open>A network of services\<close>

text \<open>
  A network whose calls reach the service of the other node at once when it is \<open>up\<close> and are lost
  otherwise; a request that would not fit into its log is lost too.
\<close>

definition no_answer :: rpc_status where
  "no_answer = \<lparr>error_code = UNAVAILABLE, error_message = ''failed to connect''\<rparr>"

text \<open>The bound on a log, in a form that computes.\<close>

definition fits :: "nat \<Rightarrow> bool" where
  "fits k \<longleftrightarrow> int k \<le> 230584300921369395"

lemma fits_iff: "fits k \<longleftrightarrow> k \<le> log_max_size"
  by (simp add: fits_def log_max_size_def)

definition network_stub ::
    "'g std_lib \<Rightarrow> (string \<Rightarrow> bool) \<Rightarrow> (string \<Rightarrow> string) \<Rightarrow> string \<Rightarrow> ('g raft_core \<times> 'g world) stub" where
  "network_stub lib up host n = \<lparr>
     stub_request_vote = (\<lambda>address deadline q (s, x).
       let m = host address; x1 = x\<lparr>vote_requests := vote_requests x @ [(n, m, request_vote_request_from_rpc q)]\<rparr>
       in if m = n \<or> \<not> up m then ((no_answer, new_rpc_request_vote_response), (s, x1))
          else case service_request_vote lib q (cores x m) of
              (Inl e, t) \<Rightarrow> ((no_answer, new_rpc_request_vote_response), (s, put_core m t x1))
            | (Inr (status, response), t) \<Rightarrow> ((status, response), (s, (put_core m t x1)\<lparr>vote_replies :=
                vote_replies x @ [(m, n, request_vote_response_from_rpc response)]\<rparr>))),
     stub_append_entries = (\<lambda>address deadline q (s, x).
       let m = host address; a = append_entries_request_from_rpc q;
           x1 = x\<lparr>append_requests := append_requests x @ [(n, m, a)]\<rparr>
       in if m = n \<or> \<not> up m \<or> \<not> fits (length (log_entries (cores x m)) + length (entries a))
          then ((no_answer, new_rpc_append_entries_response), (s, x1))
          else case service_append_entries lib q (cores x m) of
              (Inl e, t) \<Rightarrow> ((no_answer, new_rpc_append_entries_response), (s, put_core m t x1))
            | (Inr (status, response), t) \<Rightarrow> ((status, response), (s, (put_core m t x1)\<lparr>append_replies :=
                append_replies x @ [(m, n, append_entries_response_from_rpc response)]\<rparr>)))\<rparr>"

lemma put_core_messages:
  "put_core n s (w\<lparr>vote_requests := a\<rparr>) = (put_core n s w)\<lparr>vote_requests := a\<rparr>"
  "put_core n s (w\<lparr>vote_replies := b\<rparr>) = (put_core n s w)\<lparr>vote_replies := b\<rparr>"
  "put_core n s (w\<lparr>append_requests := c\<rparr>) = (put_core n s w)\<lparr>append_requests := c\<rparr>"
  "put_core n s (w\<lparr>append_replies := d\<rparr>) = (put_core n s w)\<lparr>append_replies := d\<rparr>"
  by (simp_all add: put_core_def)

lemma no_reply:
  "(put_core n s (put_core m t w))\<lparr>vote_requests := a, vote_replies := vote_replies w\<rparr> =
     (put_core n s (put_core m t w))\<lparr>vote_requests := a\<rparr>"
  "(put_core n s (put_core m t w))\<lparr>append_requests := c, append_replies := append_replies w\<rparr> =
     (put_core n s (put_core m t w))\<lparr>append_requests := c\<rparr>"
  by (simp_all add: put_core_def)

lemma put_core_swap: "m \<noteq> n \<Longrightarrow> put_core m t (put_core n s w) = put_core n s (put_core m t w)"
  by (simp add: put_core_def fun_upd_twist)

lemma network_vote_call:
  assumes run: "stub_request_vote (network_stub lib up host n) address deadline q (s, x) = ((status, response), (s', x'))"
  defines "m \<equiv> host address" and "r \<equiv> request_vote_request_from_rpc q"
  shows "leads_to lib ms lo hi ((put_core n s x)\<lparr>vote_requests := vote_requests x @ [(n, m, r)]\<rparr>) (put_core n s' x') \<and>
    (status_ok status \<longrightarrow> (m, n, request_vote_response_from_rpc response) \<in> set (vote_replies x'))"
proof -
  let ?w = "(put_core n s x)\<lparr>vote_requests := vote_requests x @ [(n, m, r)]\<rparr>"
  show ?thesis
  proof (cases "m = n \<or> \<not> up m")
    case True
    then have "?w = put_core n s' x'" "\<not> status_ok status"
      using run by (auto simp: network_stub_def Let_def m_def r_def put_core_def no_answer_def status_ok_def)
    then show ?thesis by (simp add: leads_to_steps)
  next
    case False
    have step: "leads_to lib ms lo hi ?w ((put_core m (final (handle_request_vote lib r (cores x m))) ?w)\<lparr>vote_replies :=
        vote_replies ?w @ reply_of m n (handle_request_vote lib r (cores x m))\<rparr>)"
      using False by (intro leads_to_steps r_into_rtranclp world_step.vote_request) auto
    show ?thesis
    proof (cases "handle_request_vote lib r (cores x m)")
      case (Pair y t)
      have world: "put_core m t (put_core n s x) = put_core n s (put_core m t x)"
        using False put_core_swap [of m n t s x] by blast
      show ?thesis
      proof (cases y)
        case (Inl e)
        then show ?thesis
          using step run False Pair
          by (auto simp: network_stub_def Let_def m_def [symmetric] r_def [symmetric] service_request_vote_def
              bind_op_def reply_of_def world put_core_messages no_reply no_answer_def status_ok_def)
      next
        case (Inr v)
        then show ?thesis
          using step run False Pair
          by (auto simp: network_stub_def Let_def m_def [symmetric] r_def [symmetric] service_request_vote_def
              bind_op_def return_op_def reply_of_def world put_core_messages vote_rpc.response.decode_encode)
      qed
    qed
  qed
qed

lemma network_append_call:
  assumes run: "stub_append_entries (network_stub lib up host n) address deadline q (s, x) = ((status, response), (s', x'))"
  defines "m \<equiv> host address" and "r \<equiv> append_entries_request_from_rpc q"
  shows "leads_to lib ms lo hi ((put_core n s x)\<lparr>append_requests := append_requests x @ [(n, m, r)]\<rparr>) (put_core n s' x') \<and>
    (status_ok status \<longrightarrow> (m, n, append_entries_response_from_rpc response) \<in> set (append_replies x'))"
proof -
  let ?w = "(put_core n s x)\<lparr>append_requests := append_requests x @ [(n, m, r)]\<rparr>"
  show ?thesis
  proof (cases "m = n \<or> \<not> up m \<or> \<not> fits (length (log_entries (cores x m)) + length (entries r))")
    case True
    then have "?w = put_core n s' x'" "\<not> status_ok status"
      using run by (auto simp: network_stub_def Let_def m_def r_def put_core_def no_answer_def status_ok_def)
    then show ?thesis by (simp add: leads_to_steps)
  next
    case False
    have step: "leads_to lib ms lo hi ?w ((put_core m (final (handle_append_entries lib r (cores x m))) ?w)\<lparr>append_replies :=
        append_replies ?w @ reply_of m n (handle_append_entries lib r (cores x m))\<rparr>)"
      using False by (intro leads_to_steps r_into_rtranclp world_step.append_request) (auto simp: within_bounds_def fits_iff)
    show ?thesis
    proof (cases "handle_append_entries lib r (cores x m)")
      case (Pair y t)
      have world: "put_core m t (put_core n s x) = put_core n s (put_core m t x)"
        using False put_core_swap [of m n t s x] by blast
      show ?thesis
      proof (cases y)
        case (Inl e)
        then show ?thesis
          using step run False Pair
          by (auto simp: network_stub_def Let_def m_def [symmetric] r_def [symmetric] service_append_entries_def
              bind_op_def reply_of_def world put_core_messages no_reply no_answer_def status_ok_def)
      next
        case (Inr v)
        then show ?thesis
          using step run False Pair
          by (auto simp: network_stub_def Let_def m_def [symmetric] r_def [symmetric] service_append_entries_def
              bind_op_def return_op_def reply_of_def world put_core_messages append_rpc.response.decode_encode)
      qed
    qed
  qed
qed

interpretation network: transport lib ms lo hi host n "network_stub lib up host n"
  for lib ms lo hi host n up
  by unfold_locales (rule network_vote_call, assumption, rule network_append_call, assumption)

interpretation node_1: network_node lib node_members 150 300 host "''node-1''" "network_stub lib up host ''node-1''"
  for lib host up
  by unfold_locales (simp add: node_members_def)

section \<open>The process in the network\<close>

text \<open>What surrounds a process: a network, addresses that are those of the members, and steps of the world.\<close>

definition networked ::
    "'g std_lib \<Rightarrow> (string \<Rightarrow> string) \<Rightarrow> ('g, 'g world) surroundings \<Rightarrow> string list \<Rightarrow> ('g, 'g world) round list \<Rightarrow> bool" where
  "networked lib host env argv rounds \<longleftrightarrow>
     transport lib node_members 150 300 host (argv ! 1) (peers_stub env) \<and>
     list_all (\<lambda>c. host (pc_address c) = pc_node_id c) (all_nodes argv) \<and>
     by_world_steps lib node_members 150 300 (argv ! 1) (before_banner env) \<and>
     by_world_steps lib node_members 150 300 (argv ! 1) (before_loop env) \<and>
     list_all (\<lambda>r. by_world_steps lib node_members 150 300 (argv ! 1) (snd r)) rounds"

lemma interfere_peers [simp]: "peers (interfere h rt) = peers rt"
  by (simp add: interfere_def split: prod.split)

lemma start_in_network:
  assumes env: "networked lib host env argv rounds" and boots: "boots_in lib node_members 150 300 (argv ! 1) (argv ! 3) f x"
    and start: "start_node lib env argv f x now = Inr p"
  shows "argv ! 1 \<in> set node_members"
    and "\<exists>w. world_reachable lib node_members 150 300 w \<and> runs_in (argv ! 1) w (np_runtime p)"
    and "addressed host (peers (np_runtime p))"
proof -
  obtain seed s d rt where r: "random_seed_for (argv ! 1) = Inr seed"
    and run: "new_raft_core lib (argv ! 1) node_members 0 [] 150 300 seed (argv ! 3) f = (Inr s, d)"
    and rt: "rt = \<lparr>rt_core = s, rt_net = x,
      peers = map_of (map client_of (filter (\<lambda>c. pc_node_id c \<noteq> argv ! 1) (all_nodes argv))), heartbeat_elapsed_ms = 0\<rparr>"
    and p: "np_runtime p = interfere (before_loop env) (interfere (before_banner env) rt)"
    by (rule start_node_shape [OF start])
  show n: "argv ! 1 \<in> set node_members" using r by (auto simp: random_seed_for_def node_members_def split: if_splits)
  let ?w = "put_core (argv ! 1) s x"
  have w: "world_reachable lib node_members 150 300 ?w" by (rule boots_reachable [OF boots n r run])
  have "runs_in (argv ! 1) ?w rt" by (simp add: runs_in_def rt)
  then have "world_goes lib node_members 150 300 (argv ! 1) ?w (interfere (before_banner env) rt)"
    using env by (intro interfere_goes) (simp_all add: networked_def)
  then obtain w1 where w1: "(world_step lib node_members 150 300)\<^sup>*\<^sup>* ?w w1" "runs_in (argv ! 1) w1 (interfere (before_banner env) rt)"
    unfolding world_goes_def by blast
  have "world_goes lib node_members 150 300 (argv ! 1) w1 (np_runtime p)"
    unfolding p using env w1(2) by (intro interfere_goes) (simp_all add: networked_def)
  then show "\<exists>w. world_reachable lib node_members 150 300 w \<and> runs_in (argv ! 1) w (np_runtime p)"
    unfolding world_goes_def using world_reachable_steps [OF world_reachable_steps [OF w w1(1)]] by blast
  show "addressed host (peers (np_runtime p))"
    using env unfolding addressed_def p rt networked_def list_all_iff by (auto dest!: map_of_SomeD)
qed

text \<open>The process after its rounds is a node of a world that the network reaches.\<close>

lemma running_in_network:
  assumes "networked lib host env argv rounds"
    and "boots_in lib node_members 150 300 (argv ! 1) (argv ! 3) f x"
    and "case start_node lib env argv f x now of
           Inl e \<Rightarrow> True | Inr p \<Rightarrow> terms_left lib (peers_stub env) (argv ! 1) rounds p"
    and "node_main lib env argv f x now rounds = Running q"
  shows "argv ! 1 \<in> set node_members"
    and "\<exists>w. world_reachable lib node_members 150 300 w \<and> runs_in (argv ! 1) w (np_runtime q)"
proof -
  obtain p where start: "start_node lib env argv f x now = Inr p"
    and rounds: "node_rounds lib (peers_stub env) (argv ! 1) rounds p = (Inr (), q)"
    by (rule node_main_runs [OF assms(4)])
  note p = start_in_network [OF assms(1,2) start]
  show "argv ! 1 \<in> set node_members" by (rule p(1))
  obtain w where w: "world_reachable lib node_members 150 300 w" "runs_in (argv ! 1) w (np_runtime p)"
    using p(2) by blast
  have node: "network_node lib node_members 150 300 host (argv ! 1) (peers_stub env)"
    using assms(1) p(1) by (simp add: networked_def network_node_def network_node_axioms_def)
  have "world_goes lib node_members 150 300 (argv ! 1) w
      (np_runtime (final (node_rounds lib (peers_stub env) (argv ! 1) rounds p)))"
    using assms(1,3) start by (intro network_node.node_rounds_in_network [OF node w(2) p(3)]) (simp_all add: networked_def)
  then show "\<exists>w. world_reachable lib node_members 150 300 w \<and> runs_in (argv ! 1) w (np_runtime q)"
    using world_reachable_steps [OF w(1)] rounds by (auto simp: world_goes_def)
qed

lemma runs_in_cores: "runs_in n w rt \<Longrightarrow> cores w = (cores (rt_net rt))(n := rt_core rt)"
  by (simp add: runs_in_def covers_def)

text \<open>A run: \<^verbatim>\<open>node-1\<close> is elected, a client writes while it sleeps, and the others are told.\<close>

definition sample_host :: "string \<Rightarrow> string" where
  "sample_host address =
     (if address = ''127.0.0.1:50051'' then ''node-1'' else if address = ''127.0.0.1:50052'' then ''node-2'' else ''node-3'')"

definition sample_node :: "string \<Rightarrow> u64 raft_core" where
  "sample_node m = (case fst (new_raft_core sample_lib m node_members 0 [] 150 300 7 [] sample_disk) of
     Inr s \<Rightarrow> s | Inl e \<Rightarrow> sample_follower)"

definition sample_others :: "u64 world" where
  "sample_others = \<lparr>cores = sample_node, vote_requests = [], vote_replies = [], append_requests = [], append_replies = []\<rparr>"

definition written_meanwhile :: "string \<Rightarrow> (u64, u64 world) meanwhile" where
  "written_meanwhile cmd h = (case h of (s, x) \<Rightarrow>
     if fits (Suc (length (log_entries s))) then (final (append_command cmd s), x) else (s, x))"

definition sample_network :: "(u64, u64 world) surroundings" where
  "sample_network = \<lparr>listens = (\<lambda>a. a = ''127.0.0.1:50051''),
     peers_stub = network_stub sample_lib (\<lambda>m. m \<noteq> ''node-3'') sample_host ''node-1'', before_banner = id, before_loop = id\<rparr>"

definition sample_day :: "(u64, u64 world) round list" where
  "sample_day = [(10000000, id), (410000000, id), (420000000, written_meanwhile ''SET x 1''), (480000000, id)]"

definition sample_process :: "(u64, u64 world) node_outcome" where
  "sample_process = node_main sample_lib sample_network sample_arguments sample_disk sample_others 0 sample_day"

lemma sample_process_runs:
  "case sample_process of Exited c e e' \<Rightarrow> False | Running p \<Rightarrow>
     role (process_core p) = Leader \<and> applied_commands (process_core p) = [''SET x 1''] \<and>
     applied_commands (cores (rt_net (np_runtime p)) ''node-2'') = [''SET x 1'']"
  by code_simp

lemma sample_process_running:
  obtains p where "sample_process = Running p" and "role (process_core p) = Leader"
    and "applied_commands (process_core p) = [''SET x 1'']"
    and "applied_commands (cores (rt_net (np_runtime p)) ''node-2'') = [''SET x 1'']"
  using sample_process_runs by (auto split: node_outcome.splits)

lemma sample_terms:
  "case start_node sample_lib sample_network sample_arguments sample_disk sample_others 0 of
     Inl e \<Rightarrow> True | Inr p \<Rightarrow> terms_left sample_lib (peers_stub sample_network) (sample_arguments ! 1) sample_day p"
  by code_simp

lemma sample_nodes_run:
  "list_all (\<lambda>n. \<not> isl (fst (new_raft_core sample_lib n node_members 0 [] 150 300 7 [] sample_disk))) node_members"
  by code_simp

lemma sample_node_new:
  assumes "n \<in> set node_members"
  shows "\<exists>d. new_raft_core sample_lib n node_members 0 [] 150 300 7 [] sample_disk = (Inr (sample_node n), d)"
  using sample_nodes_run assms
  by (cases "new_raft_core sample_lib n node_members 0 [] 150 300 7 [] sample_disk")
     (auto simp: sample_node_def list_all_iff split: sum.splits)

lemma sample_boots_in: "boots_in sample_lib node_members 150 300 (sample_arguments ! 1) (sample_arguments ! 3) sample_disk sample_others"
proof -
  have "world_start sample_lib node_members 150 300 sample_others"
    using sample_node_new unfolding world_start_def sample_others_def by fastforce
  then show ?thesis using sample_disk_ok by (simp add: boots_in_def sample_disk_def)
qed

lemma written_by_steps:
  assumes "is_key_value_command cmd \<longrightarrow> well_formed_command cmd" and "n \<in> set ms"
  shows "by_world_steps sample_lib ms lo hi n (written_meanwhile cmd)"
  unfolding by_world_steps_def
proof (intro allI)
  fix s :: "u64 raft_core" and x :: "u64 world"
  show "leads_to sample_lib ms lo hi (put_core n s x)
      (put_core n (fst (written_meanwhile cmd (s, x))) (snd (written_meanwhile cmd (s, x))))"
  proof (cases "fits (Suc (length (log_entries s)))")
    case True
    then have "within_bounds (Append_Command cmd) s" by (simp add: within_bounds_def fits_iff)
    then show ?thesis
      using world_step.local [OF assms(2), of "Append_Command cmd" "put_core n s x" sample_lib lo hi] assms(1) True
      by (auto simp: written_meanwhile_def intro!: leads_to_steps)
  qed (simp add: written_meanwhile_def leads_to_steps)
qed

lemma sample_networked: "networked sample_lib sample_host sample_network sample_arguments sample_day"
proof -
  have n: "''node-1'' \<in> set node_members" by (simp add: node_members_def)
  have "well_formed_command ''SET x 1''" using well_formed_set [of "''x''" "''1''"] by (simp add: valid_key_def)
  then have "by_world_steps sample_lib node_members 150 300 ''node-1'' (written_meanwhile ''SET x 1'')"
    using written_by_steps [OF _ n] by blast
  moreover have "list_all (\<lambda>c. sample_host (pc_address c) = pc_node_id c) (all_nodes sample_arguments)" by code_simp
  moreover have "sample_arguments ! 1 = ''node-1''" by (simp add: sample_arguments_def)
  moreover have "by_world_steps sample_lib node_members 150 300 ''node-1'' id" by (simp add: by_world_steps_def leads_to_steps)
  ultimately show ?thesis
    using network.transport_axioms by (simp add: networked_def sample_network_def sample_day_def)
qed

section \<open>Properties\<close>

text \<open>
  C5: The program as a whole refines the network of cores.  A node process that starts for the first
  time, with the others or later, or again on the file it left, and whose clients reach the services of the other nodes at the configured
  addresses, is after any number of rounds of its loop, with handlers at work in other threads, the
  node of a world that the network of cores reaches, in which every other node is as the process
  left it: nothing that the process, the runtime, the peer clients or the conversions add takes the
  cluster out of what is proved of reachable worlds.
\<close>

theorem process_is_a_network_node:
  assumes "networked lib host env argv rounds"
    and "boots_in lib node_members 150 300 (argv ! 1) (argv ! 3) f x"
    and "case start_node lib env argv f x now of
           Inl e \<Rightarrow> True | Inr p \<Rightarrow> terms_left lib (peers_stub env) (argv ! 1) rounds p"
    and "node_main lib env argv f x now rounds = Running q"
  shows "\<exists>w. world_reachable lib node_members 150 300 w \<and>
    cores w = (cores (rt_net (np_runtime q)))(argv ! 1 := process_core q)"
  using running_in_network(2) [OF assms] runs_in_cores by blast

theorem process_is_a_network_node_witness:
  "\<exists>p w. sample_process = Running p \<and> role (process_core p) = Leader \<and>
     world_reachable sample_lib node_members 150 300 w \<and> cores w ''node-1'' = process_core p \<and>
     applied_commands (cores w ''node-2'') = [''SET x 1'']"
proof -
  obtain p where p: "sample_process = Running p" "role (process_core p) = Leader"
    "applied_commands (cores (rt_net (np_runtime p)) ''node-2'') = [''SET x 1'']"
    by (rule sample_process_running)
  have one: "sample_arguments ! 1 = ''node-1''" by (simp add: sample_arguments_def)
  obtain w where "world_reachable sample_lib node_members 150 300 w"
    "cores w = (cores (rt_net (np_runtime p)))(''node-1'' := process_core p)"
    using process_is_a_network_node [OF sample_networked sample_boots_in sample_terms p(1) [unfolded sample_process_def]]
    unfolding one by blast
  with p show ?thesis by (intro exI [of _ p] exI [of _ w]) simp
qed

text \<open>
  C8: What a running process can rely on: no other node of the cluster is leader in a term in which it
  is leader itself, and what it has executed on its store and what another node has executed are
  the same commands in the same order, as far as both have come; with the same commit index the two
  stores are equal.
\<close>

theorem running_process_agrees:
  assumes "iterates_once lib" and "networked lib host env argv rounds"
    and "boots_in lib node_members 150 300 (argv ! 1) (argv ! 3) f x"
    and "case start_node lib env argv f x now of
           Inl e \<Rightarrow> True | Inr p \<Rightarrow> terms_left lib (peers_stub env) (argv ! 1) rounds p"
    and "node_main lib env argv f x now rounds = Running q"
    and "m \<in> set node_members" and "m \<noteq> argv ! 1"
    and "s = process_core q" and "t = cores (rt_net (np_runtime q)) m"
  shows "\<not> (role s = Leader \<and> role t = Leader \<and> current_term s = current_term t) \<and>
    (prefix (applied_commands s) (applied_commands t) \<or> prefix (applied_commands t) (applied_commands s)) \<and>
    (commit_index s = commit_index t \<longrightarrow> key_value_store s = key_value_store t)"
proof -
  let ?n = "argv ! 1"
  note n = running_in_network(1) [OF assms(2-5)]
  obtain w where w: "world_reachable lib node_members 150 300 w" and c: "cores w ?n = s" "cores w m = t"
    using running_in_network(2) [OF assms(2-5)] runs_in_cores [of "?n" _ "np_runtime q"] assms(7-9) by fastforce
  have "?n = m" if "role s = Leader" "role t = Leader" "current_term s = current_term t"
  proof (rule later_world [OF assms(1) w rtranclp.rtrancl_refl])
    fix \<sigma> \<sigma>'
    assume sim: "simulates node_members w \<sigma>" and "protocol_inv (majority_of node_members) \<sigma>"
    moreover have "node_at \<sigma> ?n = view s" "node_at \<sigma> m = view t"
      using cm_view [OF simulates_core [OF sim n]] cm_view [OF simulates_core [OF sim assms(6)]] c by simp_all
    ultimately show "?n = m"
      using later_leader [of "majority_of node_members" \<sigma> \<sigma> ?n m] that by (simp add: protocol_inv_def)
  qed
  moreover note agree = committed_logs_agree [OF assms(1) w rtranclp.rtrancl_refl n assms(6), unfolded c]
  note s = reachable_sound [OF assms(1) w n, unfolded c] and t = reachable_sound [OF assms(1) w assms(6), unfolded c]
  have "key_value_store s = key_value_store t" if "commit_index s = commit_index t"
    using all_applied_replay(2) [OF s] all_applied_replay(2) [OF t] agree that by simp
  moreover have "prefix (applied_commands s) (applied_commands t) \<or> prefix (applied_commands t) (applied_commands s)"
    using prefixes_comparable [OF agree, where f = command] applied_is_log [OF s(1)] applied_is_log [OF t(1)] by simp
  ultimately show ?thesis using assms(7) by blast
qed

theorem running_process_agrees_witness:
  "\<exists>p. sample_process = Running p \<and> role (process_core p) = Leader \<and>
     \<not> (role (cores (rt_net (np_runtime p)) ''node-2'') = Leader \<and>
        current_term (process_core p) = current_term (cores (rt_net (np_runtime p)) ''node-2''))"
proof -
  obtain p where p: "sample_process = Running p" "role (process_core p) = Leader"
    by (rule sample_process_running)
  have "''node-2'' \<in> set node_members" "''node-2'' \<noteq> sample_arguments ! 1"
    by (simp_all add: node_members_def sample_arguments_def)
  from running_process_agrees [OF sample_lib_ok(1) sample_networked sample_boots_in sample_terms p(1) [unfolded sample_process_def]
      this refl refl] p show ?thesis by blast
qed

end
