(* ===== verification/Runtime_Rounds.thy ===== *)
theory Runtime_Rounds
  imports Raft_Runtime Raft_Views
begin

text \<open>
  What a round of the loop sends, whatever the peers answer and whatever other threads do while it
  waits: a stub is given a record of the calls that are made through it.
\<close>

section \<open>Calls that are recorded\<close>




section \<open>What a leader sends\<close>




section \<open>Peers that tell the truth\<close>






section \<open>Properties\<close>








end
