(* ===== verification/In_Memory_Cluster.thy ===== *)
theory In_Memory_Cluster
  imports Raft_Properties Log_Matching
begin

text \<open>
  \<^verbatim>\<open>src/src/in_memory_cluster.cpp\<close>: several cores in one process, with messages delivered by direct
  calls.  The state is the vector of cores; a \<^verbatim>\<open>RaftCore&\<close> into it is its index.
\<close>

section \<open>Construction\<close>

type_synonym 'g cluster = "'g raft_core list"

text \<open>
  The loop of the constructor: the cores constructed so far, and the seed for the next one.  The
  cores have no storage path; \<open>f\<close> stands for the file that they therefore never touch.
\<close>

fun construct_nodes ::
    "'g std_lib \<Rightarrow> string list \<Rightarrow> u64 \<Rightarrow> u64 \<Rightarrow> state_file \<Rightarrow> u64 \<Rightarrow> string list \<Rightarrow> 'g cluster \<Rightarrow> exc + 'g cluster" where
  "construct_nodes lib node_ids min_timeout max_timeout f next_random_seed [] cs = Inr cs"
| "construct_nodes lib node_ids min_timeout max_timeout f next_random_seed (m # ms) cs =
     (case fst (new_raft_core lib m node_ids 0 [] min_timeout max_timeout next_random_seed [] f) of
        Inl e \<Rightarrow> Inl e
      | Inr s \<Rightarrow> construct_nodes lib node_ids min_timeout max_timeout f (next_random_seed + 1) ms (cs @ [s]))"

definition new_in_memory_cluster ::
    "'g std_lib \<Rightarrow> string list \<Rightarrow> u64 \<Rightarrow> u64 \<Rightarrow> u64 \<Rightarrow> state_file \<Rightarrow> exc + 'g cluster" where
  "new_in_memory_cluster lib node_ids min_timeout max_timeout random_seed f =
     (if node_ids = [] then Inl (InvalidArgument ''An in-memory cluster must contain at least one node'')
      else construct_nodes lib node_ids min_timeout max_timeout f random_seed node_ids [])"

section \<open>References to nodes\<close>

fun find_node :: "string \<Rightarrow> 'g cluster \<Rightarrow> nat option" where
  "find_node m [] = None"
| "find_node m (c # cs) = (if node_id c = m then Some 0 else map_option Suc (find_node m cs))"

definition node :: "string \<Rightarrow> ('g cluster, nat) op" where
  "node m cs = (case find_node m cs of
       None \<Rightarrow> (Inl (InvalidArgument ''Requested node does not exist in the cluster''), cs)
     | Some i \<Rightarrow> (Inr i, cs))"

text \<open>An operation on the referenced core, and a query of it.\<close>

definition on_node :: "nat \<Rightarrow> ('g raft_core, 'a) op \<Rightarrow> ('g cluster, 'a) op" where
  "on_node i m cs = (case m (cs ! i) of (r, s) \<Rightarrow> (r, cs[i := s]))"

definition ask_node :: "nat \<Rightarrow> ('g raft_core \<Rightarrow> 'a) \<Rightarrow> ('g cluster, 'a) op" where
  "ask_node i q cs = (Inr (q (cs ! i)), cs)"

definition cluster_count :: "'g cluster \<Rightarrow> nat" where
  "cluster_count cs = length cs"

section \<open>Delivery\<close>

fun deliver_votes_to :: "'g std_lib \<Rightarrow> nat \<Rightarrow> request_vote_action list \<Rightarrow> ('g cluster, unit) op" where
  "deliver_votes_to lib candidate [] cs = (Inr (), cs)"
| "deliver_votes_to lib candidate (a # as) cs =
     bind_op (node (rv_target a)) (\<lambda>target.
     bind_op (on_node target (handle_request_vote lib (rv_request a))) (\<lambda>response.
     bind_op (on_node candidate (receive_vote (rv_target a) response)) (\<lambda>_.
     deliver_votes_to lib candidate as))) cs"

definition deliver_request_vote_actions :: "'g std_lib \<Rightarrow> string \<Rightarrow> ('g cluster, nat) op" where
  "deliver_request_vote_actions lib m =
     bind_op (node m) (\<lambda>candidate.
     bind_op (on_node candidate (\<lambda>s. case take_request_vote_actions s of (as, t) \<Rightarrow> (Inr as, t))) (\<lambda>actions.
     bind_op (deliver_votes_to lib candidate actions) (\<lambda>_.
     return_op (length actions))))"

fun deliver_appends_to :: "'g std_lib \<Rightarrow> nat \<Rightarrow> append_entries_action list \<Rightarrow> ('g cluster, unit) op" where
  "deliver_appends_to lib leader [] cs = (Inr (), cs)"
| "deliver_appends_to lib leader (a # as) cs =
     bind_op (node (ae_target a)) (\<lambda>target.
     bind_op (on_node target (handle_append_entries lib (ae_request a))) (\<lambda>response.
     bind_op (on_node leader (receive_append_entries_response (ae_target a) response)) (\<lambda>_.
     deliver_appends_to lib leader as))) cs"

definition deliver_append_entries_actions :: "'g std_lib \<Rightarrow> string \<Rightarrow> ('g cluster, nat) op" where
  "deliver_append_entries_actions lib m =
     bind_op (node m) (\<lambda>leader.
     bind_op (on_node leader (\<lambda>s. case take_append_entries_actions s of (as, t) \<Rightarrow> (Inr as, t))) (\<lambda>actions.
     bind_op (deliver_appends_to lib leader actions) (\<lambda>_.
     return_op (length actions))))"

definition cluster_start_election :: "'g std_lib \<Rightarrow> string \<Rightarrow> ('g cluster, nat) op" where
  "cluster_start_election lib m =
     bind_op (node m) (\<lambda>candidate.
     bind_op (on_node candidate (start_election lib)) (\<lambda>_.
     bind_op (deliver_request_vote_actions lib m) (\<lambda>delivered_vote_requests.
     bind_op (ask_node candidate role) (\<lambda>r.
     bind_op (if r = Leader then bind_op (deliver_append_entries_actions lib m) (\<lambda>_. return_op ())
              else return_op ()) (\<lambda>_.
     return_op delivered_vote_requests)))))"

definition send_heartbeats :: "'g std_lib \<Rightarrow> string \<Rightarrow> ('g cluster, nat) op" where
  "send_heartbeats lib m =
     bind_op (node m) (\<lambda>leader.
     bind_op (on_node leader queue_heartbeat_actions) (\<lambda>_.
     deliver_append_entries_actions lib m))"

section \<open>Replication until every follower is caught up\<close>

text \<open>The loop of \<^verbatim>\<open>all_followers_caught_up\<close> over the nodes.\<close>

fun caught_up_among :: "'g raft_core \<Rightarrow> 'g raft_core list \<Rightarrow> exc + bool" where
  "caught_up_among leader [] = Inr True"
| "caught_up_among leader (c # cs) =
     (if node_id c = node_id leader then caught_up_among leader cs
      else bind_exc (match_index_for (node_id c) leader) (\<lambda>matched.
        if matched < last_log_index leader then Inr False else caught_up_among leader cs))"

definition all_followers_caught_up :: "nat \<Rightarrow> ('g cluster, bool) op" where
  "all_followers_caught_up leader cs = (caught_up_among (cs ! leader) cs, cs)"

text \<open>The rounds: the first argument is how many are left.\<close>

fun replication_rounds :: "'g std_lib \<Rightarrow> string \<Rightarrow> nat \<Rightarrow> nat \<Rightarrow> ('g cluster, bool) op" where
  "replication_rounds lib m leader 0 cs = (Inr False, cs)"
| "replication_rounds lib m leader (Suc rounds) cs =
     bind_op (send_heartbeats lib m) (\<lambda>_.
     bind_op (ask_node leader role) (\<lambda>r.
       if r \<noteq> Leader then return_op False
       else bind_op (all_followers_caught_up leader) (\<lambda>caught_up.
         if caught_up then return_op True else replication_rounds lib m leader rounds))) cs"

definition replicate_until_caught_up :: "'g std_lib \<Rightarrow> string \<Rightarrow> u64 \<Rightarrow> ('g cluster, bool) op" where
  "replicate_until_caught_up lib m max_rounds =
     bind_op (node m) (\<lambda>leader.
     bind_op (ask_node leader role) (\<lambda>r.
       if r \<noteq> Leader then throw_op (LogicError ''Only a leader can replicate log entries'')
       else bind_op (all_followers_caught_up leader) (\<lambda>caught_up.
         if caught_up then return_op True
         else replication_rounds lib m leader (unat max_rounds))))"

end
