(* ===== verification/Cluster_Network.thy ===== *)
theory Cluster_Network
  imports Raft_Network In_Memory_Cluster
begin

text \<open>
  The in-memory cluster as a run of the network: every message that it delivers by a direct call is
  a message that the network sent, so that its nodes are those of a reachable world, as long as no
  caller makes up messages.
\<close>

section \<open>Logs and requests within a bound\<close>

text \<open>Neither the log nor the end of a queued request is beyond \<open>B\<close>.\<close>

definition small :: "nat \<Rightarrow> 'g raft_core \<Rightarrow> bool" where
  "small B s \<longleftrightarrow> length (log_entries s) \<le> B \<and>
     (\<forall>a \<in> set (pending_append_entries_actions s).
        unat (prev_log_index (ae_request a)) + length (entries (ae_request a)) \<le> B)"

lemma small_quiet: "length (log_entries s) \<le> B \<Longrightarrow> pending_append_entries_actions s = [] \<Longrightarrow> small B s"
  by (simp add: small_def)

lemma small_same:
  "small B s \<Longrightarrow> log_entries t = log_entries s \<Longrightarrow>
     set (pending_append_entries_actions t) \<subseteq> set (pending_append_entries_actions s) \<Longrightarrow> small B t"
  by (auto simp: small_def)

lemma small_heartbeats:
  assumes "core_ok s" and "role s = Leader" and "pending_append_entries_actions s = heartbeat_actions s"
    and "length (log_entries s) \<le> B"
  shows "small B s"
  using assms(3,4) core_ok_replication [OF assms(1,2)] core_ok_length [OF assms(1)]
  by (auto simp: small_def heartbeat_actions_def replication_ok_def replication_request_end(2))

lemma small_start_election:
  assumes "sound s" and "current_term s \<noteq> - 1" and "small B s" and run: "start_election lib s = (r, t)"
  shows "small B t" and "r = Inr ()"
proof -
  have ok: "core_ok s" "working s" using soundD [OF assms(1)] by simp_all
  have len: "length (log_entries s) \<le> B" using assms(3) by (simp add: small_def)
  have "core_ok t"
    using call_advances(1) [OF ok(1), of Start_Election lib r t] run assms(2) by (simp add: within_bounds_def)
  with ok assms(2) have "small B t \<and> r = Inr ()"
  proof (cases rule: start_election_view [where lib = lib])
    case (candidate u)
    have "log_entries u = log_entries s" using arg_cong [OF candidate(2), of v_log] by (simp add: candidate_view_def)
    then show ?thesis using candidate run len by (simp add: small_quiet)
  next
    case (leader u)
    have "log_entries u = log_entries s" "role u = Leader"
      using arg_cong [OF leader(2), of v_log] arg_cong [OF leader(2), of v_role]
      by (simp_all add: candidate_view_def leader_view_def)
    then show ?thesis using leader run len \<open>core_ok t\<close> by (simp add: small_heartbeats)
  qed
  then show "small B t" and "r = Inr ()" by simp_all
qed

lemma small_receive_vote:
  assumes "sound s" and "small B s" and "m \<in> set (cluster_members s)" and run: "receive_vote m v s = (r, t)"
  shows "small B t" and "r = Inr ()"
proof -
  have ok: "core_ok s" "working s" using soundD [OF assms(1)] by simp_all
  have len: "length (log_entries s) \<le> B" using assms(2) by (simp add: small_def)
  have "core_ok t"
    using call_advances(1) [OF ok(1), of "Receive_Vote m v" undefined r t] run by (simp add: within_bounds_def)
  with ok have "small B t \<and> r = Inr ()"
  proof (cases rule: receive_vote_view [where m = m and r = v])
    case (won u)
    have "log_entries u = log_entries s" "role u = Leader"
      using arg_cong [OF won(7), of v_log] arg_cong [OF won(7), of v_role] by (simp_all add: leader_view_def)
    then show ?thesis using won run len \<open>core_ok t\<close> by (simp add: small_heartbeats)
  qed (use run assms(2,3) len in \<open>auto simp: small_quiet small_def\<close>)
  then show "small B t" and "r = Inr ()" by simp_all
qed

lemma small_request_vote:
  assumes "sound s" and "small B s"
  shows "small B (final (handle_request_vote lib q s))"
  using assms(2) in_term_pending [of "rv_term q" s] soundD [OF assms(1)]
  by (auto simp: handle_request_vote_working Let_def voted_def elim!: small_same)

lemma reconciled_log_length:
  assumes "reconciled_log q s = Some es" and "length (log_entries s) + length (entries q) \<le> log_max_size"
  shows "length es \<le> max (length (log_entries s)) (unat (prev_log_index q) + length (entries q))"
proof (rule reconciled_log_SomeE [OF assms(1)])
  fix kept rest
  assume es: "es = kept @ rest" and p: "unat (prev_log_index q) \<le> length (log_entries s)"
    and r: "reconcile (commit_index s) (prev_log_index q) (log_entries s) 0 (entries q) = Some (kept, rest)"
  have b: "unat (prev_log_index q) + length (entries q) \<le> log_max_size" using p assms(2) by simp
  show ?thesis
    using b p r by (cases rule: reconcile_log) (auto simp: es)
qed

lemma small_append_entries:
  assumes "sound s" and "small B s" and "commands_ok (entries q)"
    and q: "unat (prev_log_index q) + length (entries q) \<le> B" and "2 * B \<le> log_max_size"
  shows "small B (final (handle_append_entries lib q s))"
proof -
  have ok: "core_ok s" "working s" "commands_ok (log_entries s)" using soundD [OF assms(1)] by simp_all
  have len: "length (log_entries s) \<le> B" using assms(2) by (simp add: small_def)
  have room: "length (log_entries s) + length (entries q) \<le> log_max_size" using len q assms(5) by simp
  note run = handle_append_entries_working [OF ok(1,2) room ok(3) assms(3), of lib]
  show ?thesis
  proof (cases "ae_leader_id q \<notin> set (cluster_members s) \<or> ae_term q < current_term s")
    case True
    then show ?thesis using run assms(2) by auto
  next
    case False
    then have t: "current_term s \<le> ae_term q" "ae_leader_id q \<in> set (cluster_members s)" by auto
    show ?thesis
    proof (cases "reconciled_log q s")
      case None
      then show ?thesis
        using run False len under_leader_pending [OF ok(1)] by (simp add: small_quiet)
    next
      case (Some es)
      let ?t = "appended lib q es s"
      have fin: "handle_append_entries lib q s = (Inr \<lparr>aer_term = ae_term q, success = True,
          matched_index = prev_log_index q + of_nat (length (entries q))\<rparr>, ?t)" using run False Some by simp
      note view = view_appended [OF ok(1) t Some room, of lib]
      have log: "log_entries ?t = es" "role ?t = Follower"
        using arg_cong [OF view, of v_log] arg_cong [OF view, of v_role] by simp_all
      have "core_ok ?t"
        using call_advances(1) [OF ok(1), of "Handle_Append_Entries q" lib "Inr ()" ?t] fin room
        by (simp add: within_bounds_def discard_def)
      then have "pending_append_entries_actions ?t = []" using log(2) by (simp add: core_ok_defs)
      moreover have "length es \<le> B" using reconciled_log_length [OF Some room] len q by simp
      ultimately show ?thesis using fin log(1) by (simp add: small_quiet)
    qed
  qed
qed

lemma small_append_reply:
  assumes "sound s" and "small B s" and "m \<in> set (others s)"
  shows "small B (final (receive_append_entries_response m v s))"
  using assms(1,3)
proof (cases rule: append_response_view [where r = v])
  case (confirmed c t i k)
  let ?u = "confirmed m (matched_index v) i k s"
  have u: "log_entries ?u = log_entries s" "pending_append_entries_actions ?u = pending_append_entries_actions s"
    by (simp_all add: confirmed_def Let_def)
  have c: "commit_index ?u \<le> c" "unat c \<le> length (log_entries ?u)"
    using confirmed(9) core_ok_commit [OF confirmed(8)] by (auto simp: commits_to_def)
  have "log_entries t = log_entries s \<and> pending_append_entries_actions t = pending_append_entries_actions s"
    using confirmed(10) u committed_to_select [OF confirmed(8) c] by auto
  then show ?thesis using confirmed(1) assms(2) by (simp add: small_def)
qed (use assms(2) in \<open>auto simp: small_def\<close>)

text \<open>The calls of a node's owner.\<close>

lemma small_local:
  assumes "sound s" and "small B s" and "local_call c" and "within_bounds c s"
    and "\<And>cmd. c = Append_Command cmd \<Longrightarrow> length (log_entries s) < B"
  shows "small B (final (call lib c s))"
proof -
  have ok: "core_ok s" using soundD [OF assms(1)] by simp
  have len: "length (log_entries s) \<le> B" using assms(2) by (simp add: small_def)
  have later: "small B (advance_time d s)" "sound (advance_time d s)" for d
    using assms(1,2) by (simp_all add: sound_def, simp_all add: advance_time_def small_def synced_def persistent_part_def all_applied_def)
  show ?thesis
  proof (cases c)
    case (Tick d)
    then have "current_term (advance_time d s) \<noteq> - 1" using assms(4) by (simp add: within_bounds_def advance_time_def)
    then have "small B (final (start_election lib (advance_time d s)))"
      using small_start_election(1) [OF later(2) _ later(1)] by (metis prod.collapse)
    then show ?thesis
      using Tick later(1) by (cases "start_election lib (advance_time d s)") (auto simp: tick_def Let_def bind_op_def split: sum.splits)
  next
    case Start_Election
    then show ?thesis
      using small_start_election(1) [OF assms(1) _ assms(2)] assms(4) by (simp add: within_bounds_def) (metis prod.collapse)
  next
    case (Advance_Time d)
    then show ?thesis using later by simp
  next
    case (Append_Command cmd)
    show ?thesis
    proof (cases "role s = Leader \<and> cmd \<noteq> []")
      case False
      then have "final (append_command cmd s) = s" by (auto simp: append_command_def)
      then show ?thesis using Append_Command assms(2) by simp
    next
      case True
      have room: "length (log_entries s) < log_max_size" using assms(4) Append_Command by (simp add: within_bounds_def)
      show ?thesis
      proof (rule append_command_view [OF assms(1) _ room])
        fix k :: u64 and t
        assume run: "append_command cmd s = (Inr (of_nat (Suc (length (log_entries s)))), t)"
          and view: "view t = (view (s\<lparr>log_entries := log_entries s @ [\<lparr>entry_term = current_term s, command = cmd\<rparr>]\<rparr>))
              \<lparr>v_commit := unat k\<rparr>"
          and queue: "pending_append_entries_actions t = heartbeat_actions t"
        have t: "log_entries t = log_entries s @ [\<lparr>entry_term = current_term s, command = cmd\<rparr>]" "role t = Leader"
          using arg_cong [OF view, of v_log] arg_cong [OF view, of v_role] True by simp_all
        have "core_ok t"
          using call_advances(1) [OF ok assms(4), of lib "Inr ()" t] run Append_Command by (simp add: discard_def)
        then show ?thesis
          using small_heartbeats [of t B] t queue assms(5) [OF Append_Command] run Append_Command by simp
      qed (use True assms(3) Append_Command in simp_all)
    qed
  next
    case Queue_Heartbeat_Actions
    show ?thesis
    proof (cases "role s = Leader")
      case True
      let ?t = "s\<lparr>pending_append_entries_actions := heartbeat_actions s\<rparr>"
      have run: "queue_heartbeat_actions s = (Inr (), ?t)"
        by (rule queue_heartbeat_actions_eq [OF True core_ok_length [OF ok] core_ok_replication [OF ok True]])
      have "core_ok ?t"
        using call_advances(1) [OF ok assms(4), of lib "Inr ()" ?t] run Queue_Heartbeat_Actions by simp
      then have "small B ?t"
        using True len by (intro small_heartbeats) (simp_all add: heartbeat_actions_def replication_request_def next_of_def others_def)
      then show ?thesis using run Queue_Heartbeat_Actions by simp
    next
      case False
      then show ?thesis using assms(2) Queue_Heartbeat_Actions by (simp add: queue_heartbeat_actions_def)
    qed
  qed (use assms(3) in simp_all)
qed

section \<open>The cluster in a world\<close>

text \<open>The nodes of the cluster \<open>cs\<close>, in the order of their IDs \<open>ms\<close>, are those of the reachable world \<open>w\<close>.\<close>

definition tracked ::
    "'g std_lib \<Rightarrow> string list \<Rightarrow> u64 \<Rightarrow> u64 \<Rightarrow> nat \<Rightarrow> 'g world \<Rightarrow> 'g cluster \<Rightarrow> bool" where
  "tracked lib ms lo hi B w cs \<longleftrightarrow> world_reachable lib ms lo hi w \<and> distinct ms \<and> map node_id cs = ms \<and>
     (\<forall>c \<in> set cs. cores w (node_id c) = c \<and> small B c)"

text \<open>From one moment to a later one: by steps of the network, which forgets no message.\<close>

definition follows ::
    "'g std_lib \<Rightarrow> string list \<Rightarrow> u64 \<Rightarrow> u64 \<Rightarrow> nat \<Rightarrow> 'g world \<Rightarrow> 'g world \<Rightarrow> 'g cluster \<Rightarrow> bool" where
  "follows lib ms lo hi B w w' cs' \<longleftrightarrow> (world_step lib ms lo hi)\<^sup>*\<^sup>* w w' \<and> tracked lib ms lo hi B w' cs' \<and>
     set (vote_requests w) \<subseteq> set (vote_requests w') \<and> set (append_requests w) \<subseteq> set (append_requests w')"

lemma follows_refl: "tracked lib ms lo hi B w cs \<Longrightarrow> follows lib ms lo hi B w w cs"
  by (simp add: follows_def)

lemma follows_trans: "follows lib ms lo hi B w w' cs' \<Longrightarrow> follows lib ms lo hi B w' w'' cs'' \<Longrightarrow> follows lib ms lo hi B w w'' cs''"
  by (auto simp: follows_def)

lemma followsD: "follows lib ms lo hi B w w' cs' \<Longrightarrow> tracked lib ms lo hi B w' cs'"
  by (simp add: follows_def)

lemma world_step_messages:
  assumes "world_step lib ms lo hi w w'"
  shows "set (vote_requests w) \<subseteq> set (vote_requests w')" and "set (append_requests w) \<subseteq> set (append_requests w')"
  using assms by (cases; auto)+

lemma trackedD:
  assumes "tracked lib ms lo hi B w cs"
  shows tracked_reachable: "world_reachable lib ms lo hi w" and tracked_distinct: "distinct ms"
    and tracked_ids: "map node_id cs = ms" and tracked_length: "length cs = length ms"
    and tracked_id: "i < length cs \<Longrightarrow> node_id (cs ! i) = ms ! i"
    and tracked_core: "i < length cs \<Longrightarrow> cores w (ms ! i) = cs ! i"
    and tracked_small: "i < length cs \<Longrightarrow> small B (cs ! i)"
    and tracked_member: "i < length cs \<Longrightarrow> ms ! i \<in> set ms"
proof -
  show "world_reachable lib ms lo hi w" "distinct ms" and ids: "map node_id cs = ms"
    using assms by (simp_all add: tracked_def)
  show len: "length cs = length ms" using ids by (metis length_map)
  show id: "node_id (cs ! i) = ms ! i" if "i < length cs" for i using ids that by auto
  show "cores w (ms ! i) = cs ! i" "small B (cs ! i)" if "i < length cs"
    using assms that id [OF that] by (auto simp: tracked_def)
  show "ms ! i \<in> set ms" if "i < length cs" using that len by simp
qed

lemma tracked_simulated:
  assumes "iterates_once lib" and "tracked lib ms lo hi B w cs"
  obtains \<sigma> where "simulates ms w \<sigma>" and "\<forall>i < length cs. core_matches ms \<sigma> (ms ! i) (cs ! i)"
proof (rule world_simulated [OF assms(1) tracked_reachable [OF assms(2)]])
  fix \<sigma> assume s: "simulates ms w \<sigma>"
  have "core_matches ms \<sigma> (ms ! i) (cs ! i)" if "i < length cs" for i
    using simulates_core [OF s tracked_member [OF assms(2) that]] tracked_core [OF assms(2) that] by simp
  then show thesis using that [OF s] by blast
qed

lemma tracked_sound:
  assumes "iterates_once lib" and "tracked lib ms lo hi B w cs" and "i < length cs"
  shows "sound (cs ! i)" and "set (cluster_members (cs ! i)) = set ms" and "length (cluster_members (cs ! i)) = length ms"
proof -
  obtain \<sigma> where cm: "core_matches ms \<sigma> (ms ! i) (cs ! i)"
    using tracked_simulated [OF assms(1,2)] assms(3) by metis
  from cm_sound [OF cm] cm_members [OF cm]
  show "sound (cs ! i)" "set (cluster_members (cs ! i)) = set ms" "length (cluster_members (cs ! i)) = length ms" .
qed

text \<open>One step of the network that changes the node with the index \<open>i\<close>.\<close>

lemma follows_step:
  assumes t: "tracked lib ms lo hi B w cs" and i: "i < length cs" and step: "world_step lib ms lo hi w w'"
    and w': "cores w' = (cores w)(ms ! i := s)" and s: "node_id s = ms ! i" "small B s"
  shows "follows lib ms lo hi B w w' (cs[i := s])"
proof -
  have "world_reachable lib ms lo hi w'"
    using tracked_reachable [OF t] step unfolding world_reachable_def by (meson rtranclp.rtrancl_into_rtrancl)
  moreover have "map node_id (cs[i := s]) = ms"
    using tracked_ids [OF t] tracked_id [OF t i] s(1) by (metis map_update list_update_id)
  moreover have "cores w' (node_id c) = c \<and> small B c" if c: "c \<in> set (cs[i := s])" for c
  proof -
    obtain j where j: "j < length cs" "c = cs[i := s] ! j" using c by (metis in_set_conv_nth length_list_update)
    show ?thesis
    proof (cases "j = i")
      case True
      then show ?thesis using j s w' by simp
    next
      case False
      then have "ms ! j \<noteq> ms ! i"
        using tracked_distinct [OF t] tracked_length [OF t] i j(1) by (simp add: nth_eq_iff_index_eq)
      then show ?thesis
        using False j w' tracked_id [OF t j(1)] tracked_core [OF t j(1)] tracked_small [OF t j(1)] by simp
    qed
  qed
  ultimately show ?thesis
    using world_step_messages [OF step] tracked_distinct [OF t] step by (auto simp: follows_def tracked_def)
qed

lemma find_node_index:
  "distinct (map node_id cs) \<Longrightarrow> i < length cs \<Longrightarrow> find_node (node_id (cs ! i)) cs = Some i"
proof (induction cs arbitrary: i)
  case (Cons c cs)
  show ?case
  proof (cases i)
    case (Suc j)
    then have "node_id (cs ! j) \<in> set (map node_id cs)" using Cons.prems(2) by simp
    then have "node_id c \<noteq> node_id (cs ! j)" using Cons.prems(1) by auto
    then show ?thesis using Cons Suc by simp
  qed simp
qed simp

lemma tracked_node:
  assumes "tracked lib ms lo hi B w cs" and "i < length cs"
  shows "node (ms ! i) cs = (Inr i, cs)"
  using find_node_index [of cs i] tracked_distinct [OF assms(1)] tracked_ids [OF assms(1)] tracked_id [OF assms] assms(2)
  by (simp add: node_def)

lemma tracked_index:
  assumes "tracked lib ms lo hi B w cs" and "m \<in> set ms"
  obtains i where "i < length cs" and "m = ms ! i"
  using assms(2) tracked_length [OF assms(1)] by (metis in_set_conv_nth)

section \<open>Deliveries are steps of the network\<close>

lemma final_call_id:
  assumes "core_ok s" and "within_bounds c s"
  shows "node_id (final (call lib c s)) = node_id s"
  using call_advances(2) [OF assms, of lib] by (metis advances_def prod.collapse)

lemma final_discard_eq: "final (discard r) = final r"
  by simp

lemma follows_local:
  assumes lib: "iterates_once lib" and t: "tracked lib ms lo hi B w cs" and i: "i < length cs"
    and c: "local_call c" "within_bounds c (cs ! i)" "\<And>cmd. c = Append_Command cmd \<Longrightarrow> length (log_entries (cs ! i)) < B"
  obtains w' where "follows lib ms lo hi B w w' (cs[i := final (call lib c (cs ! i))])"
proof -
  let ?s = "final (call lib c (cs ! i))"
  have "world_step lib ms lo hi w (put_core (ms ! i) ?s w)"
    using world_step.local [OF tracked_member [OF t i] c(1), of w lib] c(2) tracked_core [OF t i] by simp
  moreover have "node_id ?s = ms ! i"
    using final_call_id [OF soundD(1) [OF tracked_sound(1) [OF lib t i]] c(2)] tracked_id [OF t i] by simp
  moreover have "small B ?s"
    by (rule small_local [OF tracked_sound(1) [OF lib t i] tracked_small [OF t i] c])
  ultimately have "follows lib ms lo hi B w (put_core (ms ! i) ?s w) (cs[i := ?s])"
    by (intro follows_step [OF t i]) simp_all
  then show thesis by (rule that)
qed

lemma follows_send_votes:
  assumes lib: "iterates_once lib" and t: "tracked lib ms lo hi B w cs" and i: "i < length cs"
    and s: "take_request_vote_actions (cs ! i) = (as, s)"
  obtains w' where "follows lib ms lo hi B w w' (cs[i := s])"
    and "\<forall>a \<in> set as. (ms ! i, rv_target a, rv_request a) \<in> set (vote_requests w')"
proof -
  let ?w = "(put_core (ms ! i) s w)\<lparr>vote_requests := vote_requests w @ map (\<lambda>a. (ms ! i, rv_target a, rv_request a)) as\<rparr>"
  have "world_step lib ms lo hi w ?w"
    using world_step.send_votes [OF tracked_member [OF t i], of w as s] s tracked_core [OF t i] by simp
  moreover have "node_id s = ms ! i" "small B s"
    using s tracked_id [OF t i] tracked_small [OF t i] by (auto simp: take_request_vote_actions_def small_def)
  ultimately have "follows lib ms lo hi B w ?w (cs[i := s])" by (intro follows_step [OF t i]) simp_all
  then show thesis by (rule that) auto
qed

lemma follows_send_appends:
  assumes lib: "iterates_once lib" and t: "tracked lib ms lo hi B w cs" and i: "i < length cs"
    and s: "take_append_entries_actions (cs ! i) = (as, s)"
  obtains w' where "follows lib ms lo hi B w w' (cs[i := s])"
    and "\<forall>a \<in> set as. (ms ! i, ae_target a, ae_request a) \<in> set (append_requests w') \<and>
      unat (prev_log_index (ae_request a)) + length (entries (ae_request a)) \<le> B"
proof -
  let ?w = "(put_core (ms ! i) s w)\<lparr>append_requests := append_requests w @ map (\<lambda>a. (ms ! i, ae_target a, ae_request a)) as\<rparr>"
  have "world_step lib ms lo hi w ?w"
    using world_step.send_appends [OF tracked_member [OF t i], of w as s] s tracked_core [OF t i] by simp
  moreover have sm: "node_id s = ms ! i" "small B s" "as = pending_append_entries_actions (cs ! i)"
    using s tracked_id [OF t i] tracked_small [OF t i] by (auto simp: take_append_entries_actions_def small_def)
  ultimately have "follows lib ms lo hi B w ?w (cs[i := s])" by (intro follows_step [OF t i]) simp_all
  moreover have "unat (prev_log_index (ae_request a)) + length (entries (ae_request a)) \<le> B" if "a \<in> set as" for a
    using tracked_small [OF t i] that sm(3) by (simp add: small_def)
  ultimately show thesis by (intro that [of ?w]) auto
qed

text \<open>A vote request is answered, and its answer arrives.\<close>

lemma follows_vote_round:
  assumes lib: "iterates_once lib" and t: "tracked lib ms lo hi B w cs" and i: "i < length cs" "j < length cs"
    and msg: "(ms ! i, ms ! j, q) \<in> set (vote_requests w)"
  obtains r s u w' where "handle_request_vote lib q (cs ! j) = (Inr r, s)"
    and "receive_vote (ms ! j) r (cs[j := s] ! i) = (Inr (), u)"
    and "follows lib ms lo hi B w w' (cs[j := s, i := u])"
proof -
  obtain \<sigma> where sim: "simulates ms w \<sigma>" and cm: "\<forall>k < length cs. core_matches ms \<sigma> (ms ! k) (cs ! k)"
    by (rule tracked_simulated [OF lib t])
  have "vote_request_ok \<sigma> (ms ! i) q" using sim msg by (auto simp: simulates_def messages_ok_def)
  then obtain s r where run: "handle_request_vote lib q (cs ! j) = (Inr r, s)"
    using moves_request_vote [OF simulates_inv [OF sim] cm [rule_format, OF i(2)], of "ms ! i" q lib] by metis
  let ?w1 = "(put_core (ms ! j) s w)\<lparr>vote_replies := vote_replies w @ [(ms ! j, ms ! i, r)]\<rparr>"
  have step: "world_step lib ms lo hi w ?w1"
    using world_step.vote_request [OF msg run [folded tracked_core [OF t i(2)]]] by (simp add: reply_of_def)
  have b: "within_bounds (Handle_Request_Vote q) (cs ! j)" by (simp add: within_bounds_def)
  have "node_id s = ms ! j"
    using final_call_id [OF soundD(1) [OF tracked_sound(1) [OF lib t i(2)]] b, of lib] tracked_id [OF t i(2)] run by simp
  moreover have "small B s"
    using small_request_vote [OF tracked_sound(1) [OF lib t i(2)] tracked_small [OF t i(2)], of lib q] run by simp
  ultimately have one: "follows lib ms lo hi B w ?w1 (cs[j := s])"
    by (intro follows_step [OF t i(2) step]) simp_all
  note t1 = followsD [OF one]
  have i1: "i < length (cs[j := s])" using i by simp
  let ?u = "final (receive_vote (ms ! j) r (cs[j := s] ! i))"
  have mem: "ms ! j \<in> set (cluster_members (cs[j := s] ! i))"
    using tracked_sound(2) [OF lib t1 i1] tracked_member [OF t i(2)] by simp
  have b1: "within_bounds (Receive_Vote (ms ! j) r) (cs[j := s] ! i)" by (simp add: within_bounds_def)
  have u: "small B ?u" "fst (receive_vote (ms ! j) r (cs[j := s] ! i)) = Inr ()"
    using small_receive_vote [OF tracked_sound(1) [OF lib t1 i1] tracked_small [OF t1 i1] mem] by (metis prod.collapse)+
  have "node_id ?u = ms ! i"
    using final_call_id [OF soundD(1) [OF tracked_sound(1) [OF lib t1 i1]] b1, of undefined] tracked_id [OF t1 i1] by simp
  moreover have "world_step lib ms lo hi ?w1 (put_core (ms ! i) ?u ?w1)"
    using world_step.vote_reply [of "ms ! j" "ms ! i" r ?w1 lib ms lo hi] tracked_core [OF t1 i1] by simp
  ultimately have "follows lib ms lo hi B ?w1 (put_core (ms ! i) ?u ?w1) (cs[j := s, i := ?u])"
    using u(1) by (intro follows_step [OF t1 i1]) simp_all
  then show thesis using that [OF run _ follows_trans [OF one]] u(2) by (metis prod.collapse)
qed

text \<open>An answer that a follower gave never goes beyond the log of the leader it is for.\<close>

lemma append_reply_within:
  assumes inv: "protocol_inv (majority_of ms) \<sigma>" and cm: "core_matches ms \<sigma> n s" and r: "append_reply_ok \<sigma> m r"
    and m: "m \<in> set (others s)"
  shows "fst (receive_append_entries_response m r s) = Inr ()"
  using cm_sound [OF cm] m
proof (cases rule: append_response_view [where r = r])
  case (beyond e)
  have b: "basic_inv (majority_of ms) \<sigma>" using inv by (simp add: protocol_inv_def)
  have l: "v_role (node_at \<sigma> n) = Leader" "v_term (node_at \<sigma> n) = aer_term r"
    using cm_view [OF cm] beyond(2,3) by simp_all
  have "unat (matched_index r) \<le> h_ack \<sigma> (aer_term r) m"
    using r beyond(4) by (simp add: append_reply_ok_def)
  also have "\<dots> \<le> length (h_log \<sigma> (aer_term r))" by (rule ack_length [OF b])
  also have "\<dots> = length (log_entries s)" using leader_log [OF b l] cm_view [OF cm] by simp
  finally show ?thesis using beyond(5) by simp
qed simp_all

text \<open>An append entries request is answered, and its answer arrives.\<close>

lemma follows_append_round:
  assumes lib: "iterates_once lib" and t: "tracked lib ms lo hi B w cs" and i: "i < length cs" "j < length cs"
    and msg: "(ms ! i, ms ! j, q) \<in> set (append_requests w)"
    and B: "unat (prev_log_index q) + length (entries q) \<le> B" "2 * B \<le> log_max_size"
  obtains r s u w' where "handle_append_entries lib q (cs ! j) = (Inr r, s)" and "i \<noteq> j"
    and "receive_append_entries_response (ms ! j) r (cs[j := s] ! i) = (Inr (), u)"
    and "follows lib ms lo hi B w w' (cs[j := s, i := u])"
proof -
  obtain \<sigma> where sim: "simulates ms w \<sigma>" and cm: "\<forall>k < length cs. core_matches ms \<sigma> (ms ! k) (cs ! k)"
    by (rule tracked_simulated [OF lib t])
  have q: "append_request_ok \<sigma> (ms ! i) q" "ms ! i \<noteq> ms ! j"
    using sim msg by (auto simp: simulates_def messages_ok_def)
  then obtain es p where "request_for es p q" "commands_ok es" by (auto simp: append_request_ok_def)
  then have cmds: "commands_ok (entries q)" by (auto simp: request_for_def commands_ok_def dest: in_set_dropD)
  have "length (log_entries (cs ! j)) \<le> B" using tracked_small [OF t i(2)] by (simp add: small_def)
  then have b: "within_bounds (Handle_Append_Entries q) (cs ! j)" using B by (simp add: within_bounds_def)
  obtain s r where run: "handle_append_entries lib q (cs ! j) = (Inr r, s)"
    using moves_append_entries [OF simulates_inv [OF sim] cm [rule_format, OF i(2)] q b, of lib] by metis
  let ?w1 = "(put_core (ms ! j) s w)\<lparr>append_replies := append_replies w @ [(ms ! j, ms ! i, r)]\<rparr>"
  have step: "world_step lib ms lo hi w ?w1"
    using world_step.append_request [OF msg b [folded tracked_core [OF t i(2)]] run [folded tracked_core [OF t i(2)]]]
    by (simp add: reply_of_def)
  have "node_id s = ms ! j"
    using final_call_id [OF soundD(1) [OF tracked_sound(1) [OF lib t i(2)]] b, of lib] tracked_id [OF t i(2)] run by simp
  moreover have "small B s"
    using small_append_entries [OF tracked_sound(1) [OF lib t i(2)] tracked_small [OF t i(2)] cmds B, of lib] run by simp
  ultimately have one: "follows lib ms lo hi B w ?w1 (cs[j := s])"
    by (intro follows_step [OF t i(2) step]) simp_all
  note t1 = followsD [OF one]
  have i1: "i < length (cs[j := s])" using i by simp
  have "ms ! j \<in> set (cluster_members (cs[j := s] ! i))" "node_id (cs[j := s] ! i) = ms ! i"
    using tracked_sound(2) [OF lib t1 i1] tracked_member [OF t i(2)] tracked_id [OF t1 i1] by simp_all
  then have o: "ms ! j \<in> set (others (cs[j := s] ! i))" using q(2) by (simp add: others_def)
  obtain \<tau> where sim1: "simulates ms ?w1 \<tau>" and cm1: "\<forall>k < length (cs[j := s]). core_matches ms \<tau> (ms ! k) (cs[j := s] ! k)"
    by (rule tracked_simulated [OF lib t1])
  have "append_reply_ok \<tau> (ms ! j) r" using sim1 by (auto simp: simulates_def messages_ok_def)
  then have ret: "fst (receive_append_entries_response (ms ! j) r (cs[j := s] ! i)) = Inr ()"
    using append_reply_within [OF simulates_inv [OF sim1] cm1 [rule_format, OF i1] _ o] by blast
  let ?u = "final (receive_append_entries_response (ms ! j) r (cs[j := s] ! i))"
  have b1: "within_bounds (Receive_Append_Entries_Response (ms ! j) r) (cs[j := s] ! i)" by (simp add: within_bounds_def)
  have "small B ?u" by (rule small_append_reply [OF tracked_sound(1) [OF lib t1 i1] tracked_small [OF t1 i1] o])
  moreover have "node_id ?u = ms ! i"
    using final_call_id [OF soundD(1) [OF tracked_sound(1) [OF lib t1 i1]] b1, of undefined] tracked_id [OF t1 i1] by simp
  moreover have "world_step lib ms lo hi ?w1 (put_core (ms ! i) ?u ?w1)"
    using world_step.append_reply [of "ms ! j" "ms ! i" r ?w1 lib ms lo hi] tracked_core [OF t1 i1] by simp
  ultimately have two: "follows lib ms lo hi B ?w1 (put_core (ms ! i) ?u ?w1) (cs[j := s, i := ?u])"
    by (intro follows_step [OF t1 i1]) simp_all
  have "receive_append_entries_response (ms ! j) r (cs[j := s] ! i) = (Inr (), ?u)" using ret by (metis prod.collapse)
  then show thesis using that [OF run _ _ follows_trans [OF one two]] q(2) by metis
qed

lemma on_node_eq: "m (cs ! i) = (r, s) \<Longrightarrow> on_node i m cs = (r, cs[i := s])"
  by (simp add: on_node_def)

text \<open>The rules for deliveries carry a property along that each delivery keeps.\<close>

lemma deliver_votes_follow:
  assumes lib: "iterates_once lib"
    and keeps: "\<And>a as cs w w' j r s u. P (a # as) cs \<Longrightarrow> tracked lib ms lo hi B w cs \<Longrightarrow> j < length cs \<Longrightarrow>
      rv_target a = ms ! j \<Longrightarrow> handle_request_vote lib (rv_request a) (cs ! j) = (Inr r, s) \<Longrightarrow>
      receive_vote (ms ! j) r (cs[j := s] ! l) = (Inr (), u) \<Longrightarrow>
      tracked lib ms lo hi B w' (cs[j := s, l := u]) \<Longrightarrow> P as (cs[j := s, l := u])"
  shows "tracked lib ms lo hi B w cs \<Longrightarrow> l < length cs \<Longrightarrow> P as cs \<Longrightarrow>
    \<forall>a \<in> set as. (ms ! l, rv_target a, rv_request a) \<in> set (vote_requests w) \<Longrightarrow>
    \<exists>w' cs'. deliver_votes_to lib l as cs = (Inr (), cs') \<and> follows lib ms lo hi B w w' cs' \<and> P [] cs'"
proof (induction as arbitrary: w cs)
  case Nil
  then show ?case using follows_refl by force
next
  case (Cons a as)
  note t = Cons.prems(1)
  have msg: "(ms ! l, rv_target a, rv_request a) \<in> set (vote_requests w)" using Cons.prems(4) by simp
  obtain \<sigma> where "simulates ms w \<sigma>" by (rule tracked_simulated [OF lib t])
  then have "rv_target a \<in> set ms" using msg by (auto simp: simulates_def messages_ok_def)
  then obtain j where j: "j < length cs" "rv_target a = ms ! j" by (rule tracked_index [OF t])
  from msg obtain r s u w' where run: "handle_request_vote lib (rv_request a) (cs ! j) = (Inr r, s)"
      "receive_vote (ms ! j) r (cs[j := s] ! l) = (Inr (), u)"
    and f: "follows lib ms lo hi B w w' (cs[j := s, l := u])"
    unfolding j(2) by (rule follows_vote_round [OF lib t Cons.prems(2) j(1)])
  have "\<forall>a \<in> set as. (ms ! l, rv_target a, rv_request a) \<in> set (vote_requests w')"
    using Cons.prems(4) f by (auto simp: follows_def)
  moreover have "P as (cs[j := s, l := u])" by (rule keeps [OF Cons.prems(3) t j run followsD [OF f]])
  ultimately obtain w'' cs' where rest: "deliver_votes_to lib l as (cs[j := s, l := u]) = (Inr (), cs')"
      "follows lib ms lo hi B w' w'' cs'" "P [] cs'"
    using Cons.IH [OF followsD [OF f]] Cons.prems(2) by auto
  have "deliver_votes_to lib l (a # as) cs = (Inr (), cs')"
    using tracked_node [OF t j(1)] run rest(1) by (simp add: j(2) bind_op_def on_node_def)
  then show ?case using follows_trans [OF f rest(2)] rest(3) by blast
qed

lemma deliver_appends_follow:
  assumes lib: "iterates_once lib" and B: "2 * B \<le> log_max_size"
    and keeps: "\<And>a as cs w w' j r s u. P (a # as) cs \<Longrightarrow> tracked lib ms lo hi B w cs \<Longrightarrow> j < length cs \<Longrightarrow> j \<noteq> l \<Longrightarrow>
      ae_target a = ms ! j \<Longrightarrow> handle_append_entries lib (ae_request a) (cs ! j) = (Inr r, s) \<Longrightarrow>
      receive_append_entries_response (ms ! j) r (cs ! l) = (Inr (), u) \<Longrightarrow>
      tracked lib ms lo hi B w' (cs[j := s, l := u]) \<Longrightarrow> P as (cs[j := s, l := u])"
  shows "tracked lib ms lo hi B w cs \<Longrightarrow> l < length cs \<Longrightarrow> P as cs \<Longrightarrow>
    \<forall>a \<in> set as. (ms ! l, ae_target a, ae_request a) \<in> set (append_requests w) \<and>
      unat (prev_log_index (ae_request a)) + length (entries (ae_request a)) \<le> B \<Longrightarrow>
    \<exists>w' cs'. deliver_appends_to lib l as cs = (Inr (), cs') \<and> follows lib ms lo hi B w w' cs' \<and> P [] cs'"
proof (induction as arbitrary: w cs)
  case Nil
  then show ?case using follows_refl by force
next
  case (Cons a as)
  note t = Cons.prems(1)
  have msg: "(ms ! l, ae_target a, ae_request a) \<in> set (append_requests w)"
    and q: "unat (prev_log_index (ae_request a)) + length (entries (ae_request a)) \<le> B" using Cons.prems(4) by simp_all
  obtain \<sigma> where "simulates ms w \<sigma>" by (rule tracked_simulated [OF lib t])
  then have "ae_target a \<in> set ms" using msg by (auto simp: simulates_def messages_ok_def)
  then obtain j where j: "j < length cs" "ae_target a = ms ! j" by (rule tracked_index [OF t])
  from msg obtain r s u w' where run: "handle_append_entries lib (ae_request a) (cs ! j) = (Inr r, s)"
      and ne: "l \<noteq> j" and rec: "receive_append_entries_response (ms ! j) r (cs[j := s] ! l) = (Inr (), u)"
    and f: "follows lib ms lo hi B w w' (cs[j := s, l := u])"
    unfolding j(2) using follows_append_round [OF lib t Cons.prems(2) j(1) _ q B] by metis
  have rec': "receive_append_entries_response (ms ! j) r (cs ! l) = (Inr (), u)" using rec ne by simp
  have "P as (cs[j := s, l := u])"
    using keeps [OF Cons.prems(3) t j(1) _ j(2) run rec' followsD [OF f]] ne by simp
  moreover have "\<forall>a \<in> set as. (ms ! l, ae_target a, ae_request a) \<in> set (append_requests w') \<and>
      unat (prev_log_index (ae_request a)) + length (entries (ae_request a)) \<le> B"
    using Cons.prems(4) f by (auto simp: follows_def)
  ultimately obtain w'' cs' where rest: "deliver_appends_to lib l as (cs[j := s, l := u]) = (Inr (), cs')"
      "follows lib ms lo hi B w' w'' cs'" "P [] cs'"
    using Cons.IH [OF followsD [OF f]] Cons.prems(2) by auto
  have "deliver_appends_to lib l (a # as) cs = (Inr (), cs')"
    using tracked_node [OF t j(1)] run rec rest(1) by (simp add: j(2) bind_op_def on_node_def)
  then show ?case using follows_trans [OF f rest(2)] rest(3) by blast
qed

section \<open>The operations of the cluster\<close>

lemma request_votes_follow:
  assumes lib: "iterates_once lib"
    and keeps: "\<And>a as cs w w' j r s u. P (a # as) cs \<Longrightarrow> tracked lib ms lo hi B w cs \<Longrightarrow> j < length cs \<Longrightarrow>
      rv_target a = ms ! j \<Longrightarrow> handle_request_vote lib (rv_request a) (cs ! j) = (Inr r, s) \<Longrightarrow>
      receive_vote (ms ! j) r (cs[j := s] ! l) = (Inr (), u) \<Longrightarrow>
      tracked lib ms lo hi B w' (cs[j := s, l := u]) \<Longrightarrow> P as (cs[j := s, l := u])"
    and t: "tracked lib ms lo hi B w cs" and l: "l < length cs"
    and start: "P (pending_request_vote_actions (cs ! l)) (cs[l := (cs ! l)\<lparr>pending_request_vote_actions := []\<rparr>])"
  obtains w' cs' where
    "deliver_request_vote_actions lib (ms ! l) cs = (Inr (length (pending_request_vote_actions (cs ! l))), cs')"
    and "follows lib ms lo hi B w w' cs'" and "P [] cs'"
proof -
  let ?as = "pending_request_vote_actions (cs ! l)" and ?s = "(cs ! l)\<lparr>pending_request_vote_actions := []\<rparr>"
  have take: "take_request_vote_actions (cs ! l) = (?as, ?s)" by (simp add: take_request_vote_actions_def)
  obtain w1 where f: "follows lib ms lo hi B w w1 (cs[l := ?s])"
    and msgs: "\<forall>a \<in> set ?as. (ms ! l, rv_target a, rv_request a) \<in> set (vote_requests w1)"
    by (rule follows_send_votes [OF lib t l take])
  have l1: "l < length (cs[l := ?s])" using l by simp
  have "\<exists>w' cs'. deliver_votes_to lib l ?as (cs[l := ?s]) = (Inr (), cs') \<and> follows lib ms lo hi B w1 w' cs' \<and> P [] cs'"
    by (rule deliver_votes_follow [where P = P and as = ?as, OF lib keeps followsD [OF f] l1 start msgs])
  then obtain w2 cs2 where d: "deliver_votes_to lib l ?as (cs[l := ?s]) = (Inr (), cs2)"
      "follows lib ms lo hi B w1 w2 cs2" "P [] cs2" by blast
  have "deliver_request_vote_actions lib (ms ! l) cs = (Inr (length ?as), cs2)"
    using tracked_node [OF t l] take d(1) by (simp add: deliver_request_vote_actions_def bind_op_def on_node_def)
  then show thesis using that follows_trans [OF f d(2)] d(3) by blast
qed

lemma append_entries_follow:
  assumes lib: "iterates_once lib" and B: "2 * B \<le> log_max_size"
    and keeps: "\<And>a as cs w w' j r s u. P (a # as) cs \<Longrightarrow> tracked lib ms lo hi B w cs \<Longrightarrow> j < length cs \<Longrightarrow> j \<noteq> l \<Longrightarrow>
      ae_target a = ms ! j \<Longrightarrow> handle_append_entries lib (ae_request a) (cs ! j) = (Inr r, s) \<Longrightarrow>
      receive_append_entries_response (ms ! j) r (cs ! l) = (Inr (), u) \<Longrightarrow>
      tracked lib ms lo hi B w' (cs[j := s, l := u]) \<Longrightarrow> P as (cs[j := s, l := u])"
    and t: "tracked lib ms lo hi B w cs" and l: "l < length cs"
    and start: "P (pending_append_entries_actions (cs ! l)) (cs[l := (cs ! l)\<lparr>pending_append_entries_actions := []\<rparr>])"
  obtains k w' cs' where "deliver_append_entries_actions lib (ms ! l) cs = (Inr k, cs')"
    and "follows lib ms lo hi B w w' cs'" and "P [] cs'"
proof -
  let ?as = "pending_append_entries_actions (cs ! l)" and ?s = "(cs ! l)\<lparr>pending_append_entries_actions := []\<rparr>"
  have take: "take_append_entries_actions (cs ! l) = (?as, ?s)" by (simp add: take_append_entries_actions_def)
  obtain w1 where f: "follows lib ms lo hi B w w1 (cs[l := ?s])"
    and msgs: "\<forall>a \<in> set ?as. (ms ! l, ae_target a, ae_request a) \<in> set (append_requests w1) \<and>
      unat (prev_log_index (ae_request a)) + length (entries (ae_request a)) \<le> B"
    by (rule follows_send_appends [OF lib t l take])
  have l1: "l < length (cs[l := ?s])" using l by simp
  have "\<exists>w' cs'. deliver_appends_to lib l ?as (cs[l := ?s]) = (Inr (), cs') \<and> follows lib ms lo hi B w1 w' cs' \<and> P [] cs'"
    by (rule deliver_appends_follow [where P = P and as = ?as, OF lib B keeps followsD [OF f] l1 start msgs])
  then obtain w2 cs2 where d: "deliver_appends_to lib l ?as (cs[l := ?s]) = (Inr (), cs2)"
      "follows lib ms lo hi B w1 w2 cs2" "P [] cs2" by blast
  have "deliver_append_entries_actions lib (ms ! l) cs = (Inr (length ?as), cs2)"
    using tracked_node [OF t l] take d(1) by (simp add: deliver_append_entries_actions_def bind_op_def on_node_def)
  then show thesis using that follows_trans [OF f d(2)] d(3) by blast
qed

lemma votes_of_election_follow:
  assumes lib: "iterates_once lib"
    and keeps: "\<And>a as cs w w' j r s u. P (a # as) cs \<Longrightarrow> tracked lib ms lo hi B w cs \<Longrightarrow> j < length cs \<Longrightarrow>
      rv_target a = ms ! j \<Longrightarrow> handle_request_vote lib (rv_request a) (cs ! j) = (Inr r, s) \<Longrightarrow>
      receive_vote (ms ! j) r (cs[j := s] ! l) = (Inr (), u) \<Longrightarrow>
      tracked lib ms lo hi B w' (cs[j := s, l := u]) \<Longrightarrow> P as (cs[j := s, l := u])"
    and t: "tracked lib ms lo hi B w cs" and l: "l < length cs" and T: "current_term (cs ! l) \<noteq> - 1"
    and start: "\<And>s. start_election lib (cs ! l) = (Inr (), s) \<Longrightarrow>
      P (pending_request_vote_actions s) (cs[l := s\<lparr>pending_request_vote_actions := []\<rparr>])"
  obtains k w' cs' where "follows lib ms lo hi B w w' cs'" and "P [] cs'"
    and "k = length (pending_request_vote_actions (final (start_election lib (cs ! l))))"
    and "cluster_start_election lib (ms ! l) cs =
      (if role (cs' ! l) = Leader then bind_op (deliver_append_entries_actions lib (ms ! l)) (\<lambda>_. return_op k) cs' else (Inr k, cs'))"
proof -
  have b: "within_bounds Start_Election (cs ! l)" using T by (simp add: within_bounds_def)
  let ?s = "final (start_election lib (cs ! l))"
  have started: "start_election lib (cs ! l) = (Inr (), ?s)"
    using small_start_election(2) [OF tracked_sound(1) [OF lib t l] T tracked_small [OF t l]] by (metis prod.collapse)
  obtain w1 where f1: "follows lib ms lo hi B w w1 (cs[l := ?s])"
    using follows_local [OF lib t l _ b] by auto
  note t1 = followsD [OF f1]
  have l1: "l < length (cs[l := ?s])" using l by simp
  have start1: "P (pending_request_vote_actions (cs[l := ?s] ! l))
      (cs[l := ?s, l := (cs[l := ?s] ! l)\<lparr>pending_request_vote_actions := []\<rparr>])" using start [OF started] l by simp
  obtain w2 cs2 where votes: "deliver_request_vote_actions lib (ms ! l) (cs[l := ?s]) =
      (Inr (length (pending_request_vote_actions (cs[l := ?s] ! l))), cs2)"
    and f2: "follows lib ms lo hi B w1 w2 cs2" and P: "P [] cs2"
    by (rule request_votes_follow [where P = P, OF lib keeps t1 l1 start1])
  have "on_node l (start_election lib) cs = (Inr (), cs[l := ?s])" by (rule on_node_eq) (rule started)
  then have "cluster_start_election lib (ms ! l) cs =
      (if role (cs2 ! l) = Leader
       then bind_op (deliver_append_entries_actions lib (ms ! l)) (\<lambda>_. return_op (length (pending_request_vote_actions ?s))) cs2
       else (Inr (length (pending_request_vote_actions ?s)), cs2))"
    using tracked_node [OF t l] votes l
    by (simp add: cluster_start_election_def bind_op_def ask_node_def split: prod.split sum.split)
  then show thesis using that [OF follows_trans [OF f1 f2] P refl] by blast
qed

lemma tracked_start_election:
  assumes lib: "iterates_once lib" and B: "2 * B \<le> log_max_size" and t: "tracked lib ms lo hi B w cs"
    and l: "l < length cs" and T: "current_term (cs ! l) \<noteq> - 1"
  obtains k w' cs' where "cluster_start_election lib (ms ! l) cs = (Inr k, cs')" and "follows lib ms lo hi B w w' cs'"
proof -
  obtain k w2 cs2 where f: "follows lib ms lo hi B w w2 cs2"
    and run: "cluster_start_election lib (ms ! l) cs =
      (if role (cs2 ! l) = Leader then bind_op (deliver_append_entries_actions lib (ms ! l)) (\<lambda>_. return_op k) cs2 else (Inr k, cs2))"
    by (rule votes_of_election_follow [where P = "\<lambda>_ _. True", OF lib _ t l T]) simp_all
  note t2 = followsD [OF f]
  have l2: "l < length cs2" using tracked_length [OF t2] tracked_length [OF t] l by simp
  obtain n w3 cs3 where beats: "deliver_append_entries_actions lib (ms ! l) cs2 = (Inr n, cs3)"
    and f3: "follows lib ms lo hi B w2 w3 cs3"
    by (rule append_entries_follow [where P = "\<lambda>_ _. True", OF lib B _ t2 l2]) simp_all
  have "cluster_start_election lib (ms ! l) cs = (if role (cs2 ! l) = Leader then (Inr k, cs3) else (Inr k, cs2))"
    using run beats by (simp add: bind_op_def)
  then show thesis
    using that [of k cs3 w3] that [of k cs2 w2] f follows_trans [OF f f3] by (cases "role (cs2 ! l) = Leader") simp_all
qed

lemma tracked_send_heartbeats:
  assumes lib: "iterates_once lib" and B: "2 * B \<le> log_max_size"
    and keeps: "\<And>a as cs w w' j r s u. P (a # as) cs \<Longrightarrow> tracked lib ms lo hi B w cs \<Longrightarrow> j < length cs \<Longrightarrow> j \<noteq> l \<Longrightarrow>
      ae_target a = ms ! j \<Longrightarrow> handle_append_entries lib (ae_request a) (cs ! j) = (Inr r, s) \<Longrightarrow>
      receive_append_entries_response (ms ! j) r (cs ! l) = (Inr (), u) \<Longrightarrow>
      tracked lib ms lo hi B w' (cs[j := s, l := u]) \<Longrightarrow> P as (cs[j := s, l := u])"
    and t: "tracked lib ms lo hi B w cs" and l: "l < length cs" and leads: "role (cs ! l) = Leader"
    and start: "P (heartbeat_actions (cs ! l)) (cs[l := (cs ! l)\<lparr>pending_append_entries_actions := []\<rparr>])"
  obtains k w' cs' where "send_heartbeats lib (ms ! l) cs = (Inr k, cs')"
    and "follows lib ms lo hi B w w' cs'" and "P [] cs'"
proof -
  have ok: "core_ok (cs ! l)" using soundD(1) [OF tracked_sound(1) [OF lib t l]] .
  let ?s = "(cs ! l)\<lparr>pending_append_entries_actions := heartbeat_actions (cs ! l)\<rparr>"
  have queued: "queue_heartbeat_actions (cs ! l) = (Inr (), ?s)"
    by (rule queue_heartbeat_actions_eq [OF leads core_ok_length [OF ok] core_ok_replication [OF ok leads]])
  have "within_bounds Queue_Heartbeat_Actions (cs ! l)" by (simp add: within_bounds_def)
  then obtain w1 where f1: "follows lib ms lo hi B w w1 (cs[l := ?s])"
    using follows_local [OF lib t l, of Queue_Heartbeat_Actions] queued by auto
  have l1: "l < length (cs[l := ?s])" using l by simp
  have start1: "P (pending_append_entries_actions (cs[l := ?s] ! l))
      (cs[l := ?s, l := (cs[l := ?s] ! l)\<lparr>pending_append_entries_actions := []\<rparr>])" using start l by simp
  obtain k w2 cs2 where d: "deliver_append_entries_actions lib (ms ! l) (cs[l := ?s]) = (Inr k, cs2)"
    and f2: "follows lib ms lo hi B w1 w2 cs2" and P: "P [] cs2"
    by (rule append_entries_follow [where P = P, OF lib B keeps followsD [OF f1] l1 start1])
  have "send_heartbeats lib (ms ! l) cs = (Inr k, cs2)"
    using tracked_node [OF t l] queued d by (simp add: send_heartbeats_def bind_op_def on_node_def)
  then show thesis using that follows_trans [OF f1 f2] P by blast
qed

text \<open>Whether every follower has confirmed the whole log.\<close>

definition all_confirmed :: "'g raft_core \<Rightarrow> 'g cluster \<Rightarrow> bool" where
  "all_confirmed s cs \<longleftrightarrow>
     (\<forall>c \<in> set cs. node_id c \<noteq> node_id s \<longrightarrow> length (log_entries s) \<le> match_of s (node_id c))"

lemma caught_up_among_eq:
  assumes ok: "core_ok s" "role s = Leader" and "\<forall>c \<in> set cs. node_id c \<in> set (cluster_members s)"
  shows "caught_up_among s cs = Inr (all_confirmed s cs)"
  using assms(3)
proof (induction cs)
  case (Cons c cs)
  have last: "unat (last_log_index s) = length (log_entries s)"
    using core_ok_length [OF ok(1)] by (simp add: last_log_index_def unat_last_index)
  show ?case
  proof (cases "node_id c = node_id s")
    case True
    then show ?thesis using Cons by (simp add: all_confirmed_def)
  next
    case False
    then have "node_id c \<in> set (others s)" using Cons.prems by (simp add: others_def)
    then obtain k where k: "match_index s (node_id c) = Some k" "match_of s (node_id c) = unat k"
      using replication_okE [OF core_ok_replication [OF ok]] by metis
    then show ?thesis
      using False Cons last ok(2)
      by (auto simp: all_confirmed_def match_index_for_def word_less_nat_alt not_less)
  qed
qed (simp add: all_confirmed_def)

lemma tracked_caught_up:
  assumes lib: "iterates_once lib" and t: "tracked lib ms lo hi B w cs" and l: "l < length cs" and leads: "role (cs ! l) = Leader"
  shows "all_followers_caught_up l cs = (Inr (all_confirmed (cs ! l) cs), cs)"
proof -
  have "\<forall>c \<in> set cs. node_id c \<in> set (map node_id cs)" by simp
  then have "\<forall>c \<in> set cs. node_id c \<in> set (cluster_members (cs ! l))"
    unfolding tracked_sound(2) [OF lib t l] tracked_ids [OF t] .
  then show ?thesis
    using caught_up_among_eq [OF soundD(1) [OF tracked_sound(1) [OF lib t l]] leads]
    by (simp add: all_followers_caught_up_def)
qed

lemma tracked_rounds:
  assumes lib: "iterates_once lib" and B: "2 * B \<le> log_max_size"
  shows "tracked lib ms lo hi B w cs \<Longrightarrow> l < length cs \<Longrightarrow> role (cs ! l) = Leader \<Longrightarrow>
    \<exists>b w' cs'. replication_rounds lib (ms ! l) l n cs = (Inr b, cs') \<and> follows lib ms lo hi B w w' cs'"
proof (induction n arbitrary: w cs)
  case 0
  then show ?case using follows_refl by force
next
  case (Suc n)
  obtain k w1 cs1 where beat: "send_heartbeats lib (ms ! l) cs = (Inr k, cs1)"
    and f: "follows lib ms lo hi B w w1 cs1"
    by (rule tracked_send_heartbeats [where P = "\<lambda>_ _. True", OF lib B _ Suc.prems]) simp_all
  note t1 = followsD [OF f]
  have l1: "l < length cs1" using tracked_length [OF t1] tracked_length [OF Suc.prems(1)] Suc.prems(2) by simp
  show ?case
  proof (cases "role (cs1 ! l) = Leader")
    case False
    then show ?thesis using beat f by (auto simp: bind_op_def ask_node_def)
  next
    case True
    obtain b w2 cs2 where rest: "replication_rounds lib (ms ! l) l n cs1 = (Inr b, cs2)" "follows lib ms lo hi B w1 w2 cs2"
      using Suc.IH [OF t1 l1 True] by blast
    have "replication_rounds lib (ms ! l) l (Suc n) cs =
        (if all_confirmed (cs1 ! l) cs1 then (Inr True, cs1) else (Inr b, cs2))"
      using beat True tracked_caught_up [OF lib t1 l1 True] rest(1) by (simp add: bind_op_def ask_node_def)
    moreover note f follows_trans [OF f rest(2)]
    ultimately show ?thesis by (cases "all_confirmed (cs1 ! l) cs1") (simp_all, blast+)
  qed
qed

lemma tracked_replicate:
  assumes lib: "iterates_once lib" and B: "2 * B \<le> log_max_size" and t: "tracked lib ms lo hi B w cs" and l: "l < length cs"
  obtains r w' cs' where "replicate_until_caught_up lib (ms ! l) n cs = (r, cs')" and "follows lib ms lo hi B w w' cs'"
    and "(\<exists>b. r = Inr b) \<longleftrightarrow> role (cs ! l) = Leader"
proof (cases "role (cs ! l) = Leader")
  case False
  then show thesis
    using that [OF _ follows_refl [OF t]] tracked_node [OF t l]
    by (simp add: replicate_until_caught_up_def bind_op_def ask_node_def)
next
  case True
  obtain b w' cs' where rounds: "replication_rounds lib (ms ! l) l (unat n) cs = (Inr b, cs')" "follows lib ms lo hi B w w' cs'"
    using tracked_rounds [OF lib B t l True] by blast
  have run: "replicate_until_caught_up lib (ms ! l) n cs = (if all_confirmed (cs ! l) cs then (Inr True, cs) else (Inr b, cs'))"
    using rounds(1) tracked_node [OF t l] True tracked_caught_up [OF lib t l True]
    by (simp add: replicate_until_caught_up_def bind_op_def ask_node_def)
  from rounds(2) show thesis
    using that [of "Inr True" cs w] that [of "Inr b" cs' w'] follows_refl [OF t] run True
    by (cases "all_confirmed (cs ! l) cs") (metis, metis)
qed

section \<open>Construction\<close>

lemma construct_nodes_shape:
  assumes lib: "iterates_once lib"
  shows "construct_nodes lib ids lo hi f seed ms acc = Inr cs \<Longrightarrow>
    \<exists>ds. cs = acc @ ds \<and> map node_id ds = ms \<and>
      (\<forall>c \<in> set ds. small 0 c \<and> (\<exists>seed d. new_raft_core lib (node_id c) ids 0 [] lo hi seed [] f = (Inr c, d))) \<and>
      (ms \<noteq> [] \<longrightarrow> distinct ids)"
proof (induction ms arbitrary: seed acc)
  case (Cons m ms)
  obtain s d where run: "new_raft_core lib m ids 0 [] lo hi seed [] f = (Inr s, d)"
    and rest: "construct_nodes lib ids lo hi f (seed + 1) ms (acc @ [s]) = Inr cs"
    using Cons.prems by (cases "new_raft_core lib m ids 0 [] lo hi seed [] f") (auto split: sum.splits)
  let ?st = "\<lparr>ps_current_term = 0, ps_voted_for = None, ps_log_entries = [], ps_commit_index = 0\<rparr>"
  have s: "node_id s = m \<and> distinct ids \<and> fresh_node ?st s"
    using run by (cases rule: new_raft_core_cases [OF lib, of "[]" m ids 0 lo hi seed "[]" f])
      (auto simp: boot_state_def check_configuration_iff)
  then have "core_ok s" "role s = Follower" "log_entries s = []"
    by (auto simp: fresh_node_def persistent_part_def)
  then have "small 0 s" by (intro small_quiet) (simp_all add: core_ok_defs)
  moreover obtain ds where "cs = (acc @ [s]) @ ds" "map node_id ds = ms"
      "\<forall>c \<in> set ds. small 0 c \<and> (\<exists>seed d. new_raft_core lib (node_id c) ids 0 [] lo hi seed [] f = (Inr c, d))"
    using Cons.IH [OF rest] by blast
  ultimately show ?case using s run by (intro exI [of _ "s # ds"]) auto
qed simp

lemma small_mono: "small A s \<Longrightarrow> A \<le> B \<Longrightarrow> small B s"
  by (auto simp: small_def)

lemma tracked_start:
  assumes lib: "iterates_once lib" and new: "new_in_memory_cluster lib ids lo hi seed f = Inr cs"
  obtains w where "tracked lib ids lo hi B w cs"
proof -
  have "ids \<noteq> []" and run: "construct_nodes lib ids lo hi f seed ids [] = Inr cs"
    using new by (auto simp: new_in_memory_cluster_def split: if_splits)
  then have c: "map node_id cs = ids" "distinct ids"
      "\<forall>c \<in> set cs. small 0 c \<and> (\<exists>seed d. new_raft_core lib (node_id c) ids 0 [] lo hi seed [] f = (Inr c, d))"
    using construct_nodes_shape [OF lib run] by auto
  define at where "at n = the (map_of (map (\<lambda>c. (node_id c, c)) cs) n)" for n
  have at: "at (node_id c) = c" if "c \<in> set cs" for c
  proof -
    have "distinct (map fst (map (\<lambda>c. (node_id c, c)) cs))" using c(1,2) by (simp add: comp_def)
    then show ?thesis unfolding at_def using that by (subst map_of_is_SomeI [where y = c]) auto
  qed
  let ?w = "\<lparr>cores = at, vote_requests = [], vote_replies = [], append_requests = [], append_replies = []\<rparr>"
  have "\<exists>seed path f d. (path = [] \<or> healthy f \<and> contents f = None) \<and>
      new_raft_core lib n ids 0 [] lo hi seed path f = (Inr (at n), d)" if "n \<in> set ids" for n
  proof -
    obtain c' where "c' \<in> set cs" "node_id c' = n" using \<open>n \<in> set ids\<close> c(1) by (metis imageE set_map)
    then show ?thesis using c(3) at by metis
  qed
  then have "world_start lib ids lo hi ?w" by (simp add: world_start_def)
  then have "world_reachable lib ids lo hi ?w" unfolding world_reachable_def by blast
  moreover have "\<forall>c \<in> set cs. small B c" using c(3) small_mono [OF _ le0] by blast
  ultimately have "tracked lib ids lo hi B ?w cs"
    using c(1,2) at by (simp add: tracked_def)
  then show thesis by (rule that)
qed

section \<open>Genuine uses of the cluster\<close>

text \<open>
  The clusters that arise from the constructor by the operations of the class, on any exit, and by the
  calls that a caller may make on a node of its own accord through the reference that \<^verbatim>\<open>node\<close> returns:
  the clock, an election, a client's command, heartbeats (\<open>local_call\<close>).  Left out are the handlers
  called through that reference: a caller who makes up a request in the name of another node, as a
  test may do to set up a log, can give a node entries that no leader ever sent, and is no more covered than a
  network that invents messages.  No log grows beyond \<open>B\<close> entries.
\<close>

inductive cluster_run ::
    "'g std_lib \<Rightarrow> string list \<Rightarrow> u64 \<Rightarrow> u64 \<Rightarrow> u64 \<Rightarrow> state_file \<Rightarrow> nat \<Rightarrow> 'g cluster \<Rightarrow> bool"
  for lib ids lo hi seed f B where
  constructed: "new_in_memory_cluster lib ids lo hi seed f = Inr cs \<Longrightarrow> cluster_run lib ids lo hi seed f B cs"
| elected: "cluster_run lib ids lo hi seed f B cs \<Longrightarrow>
    list_all (\<lambda>c. node_id c = m \<longrightarrow> current_term c \<noteq> - 1) cs \<Longrightarrow>
    cluster_run lib ids lo hi seed f B (final (cluster_start_election lib m cs))"
| votes_delivered: "cluster_run lib ids lo hi seed f B cs \<Longrightarrow>
    cluster_run lib ids lo hi seed f B (final (deliver_request_vote_actions lib m cs))"
| appends_delivered: "cluster_run lib ids lo hi seed f B cs \<Longrightarrow>
    cluster_run lib ids lo hi seed f B (final (deliver_append_entries_actions lib m cs))"
| heartbeat: "cluster_run lib ids lo hi seed f B cs \<Longrightarrow>
    cluster_run lib ids lo hi seed f B (final (send_heartbeats lib m cs))"
| replicated: "cluster_run lib ids lo hi seed f B cs \<Longrightarrow>
    cluster_run lib ids lo hi seed f B (final (replicate_until_caught_up lib m max_rounds cs))"
| used: "cluster_run lib ids lo hi seed f B cs \<Longrightarrow> i < length cs \<Longrightarrow> local_call c \<Longrightarrow> within_bounds c (cs ! i) \<Longrightarrow>
    (case c of Append_Command _ \<Rightarrow> length (log_entries (cs ! i)) < B | _ \<Rightarrow> True) \<Longrightarrow>
    cluster_run lib ids lo hi seed f B (cs[i := final (call lib c (cs ! i))])"

text \<open>An operation on an ID that no node has throws and changes nothing.\<close>

lemma find_node_None: "m \<notin> set (map node_id cs) \<Longrightarrow> find_node m cs = None"
  by (induction cs) auto

lemma unknown_node:
  assumes "m \<notin> set (map node_id cs)"
  shows "final (cluster_start_election lib m cs) = cs" "final (deliver_request_vote_actions lib m cs) = cs"
    "final (deliver_append_entries_actions lib m cs) = cs" "final (send_heartbeats lib m cs) = cs"
    "final (replicate_until_caught_up lib m n cs) = cs"
  by (simp_all add: cluster_start_election_def deliver_request_vote_actions_def deliver_append_entries_actions_def
      send_heartbeats_def replicate_until_caught_up_def node_def find_node_None [OF assms] bind_op_def)

lemma cluster_run_tracked:
  assumes lib: "iterates_once lib" and B: "2 * B \<le> log_max_size" and run: "cluster_run lib ids lo hi seed f B cs"
  shows "\<exists>w. tracked lib ids lo hi B w cs"
  using run
proof induction
  case (constructed cs)
  then show ?case using tracked_start [OF lib] by blast
next
  case (elected cs m)
  then obtain w where t: "tracked lib ids lo hi B w cs" by blast
  show ?case
  proof (cases "m \<in> set ids")
    case True
    then obtain l where l: "l < length cs" "m = ids ! l" by (rule tracked_index [OF t])
    then have "current_term (cs ! l) \<noteq> - 1" using elected.hyps(2) tracked_id [OF t l(1)] by (simp add: list_all_length)
    then show ?thesis using tracked_start_election [OF lib B t l(1)] followsD l(2) by (metis snd_conv)
  next
    case False
    then show ?thesis using unknown_node(1) [of m cs lib] tracked_ids [OF t] t by auto
  qed
next
  case (votes_delivered cs m)
  then obtain w where t: "tracked lib ids lo hi B w cs" by blast
  show ?case
  proof (cases "m \<in> set ids")
    case True
    then obtain l where l: "l < length cs" "m = ids ! l" by (rule tracked_index [OF t])
    obtain w' cs' where
      "deliver_request_vote_actions lib (ids ! l) cs = (Inr (length (pending_request_vote_actions (cs ! l))), cs')"
      "follows lib ids lo hi B w w' cs'"
      by (rule request_votes_follow [where P = "\<lambda>_ _. True", OF lib _ t l(1)]) simp_all
    then show ?thesis using followsD l(2) by fastforce
  next
    case False
    then show ?thesis using unknown_node(2) [of m cs lib] tracked_ids [OF t] t by auto
  qed
next
  case (appends_delivered cs m)
  then obtain w where t: "tracked lib ids lo hi B w cs" by blast
  show ?case
  proof (cases "m \<in> set ids")
    case True
    then obtain l where l: "l < length cs" "m = ids ! l" by (rule tracked_index [OF t])
    obtain k w' cs' where "deliver_append_entries_actions lib (ids ! l) cs = (Inr k, cs')" "follows lib ids lo hi B w w' cs'"
      by (rule append_entries_follow [where P = "\<lambda>_ _. True", OF lib B _ t l(1)]) simp_all
    then show ?thesis using followsD l(2) by fastforce
  next
    case False
    then show ?thesis using unknown_node(3) [of m cs lib] tracked_ids [OF t] t by auto
  qed
next
  case (heartbeat cs m)
  then obtain w where t: "tracked lib ids lo hi B w cs" by blast
  show ?case
  proof (cases "m \<in> set ids")
    case True
    then obtain l where l: "l < length cs" "m = ids ! l" by (rule tracked_index [OF t])
    show ?thesis
    proof (cases "role (cs ! l) = Leader")
      case True
      obtain k w' cs' where "send_heartbeats lib (ids ! l) cs = (Inr k, cs')" "follows lib ids lo hi B w w' cs'"
        by (rule tracked_send_heartbeats [where P = "\<lambda>_ _. True", OF lib B _ t l(1) True]) simp_all
      then show ?thesis using followsD l(2) by fastforce
    next
      case False
      then have "final (send_heartbeats lib m cs) = cs"
        using tracked_node [OF t l(1)] l(2)
        by (simp add: send_heartbeats_def bind_op_def on_node_def queue_heartbeat_actions_def)
      then show ?thesis using t by auto
    qed
  next
    case False
    then show ?thesis using unknown_node(4) [of m cs lib] tracked_ids [OF t] t by auto
  qed
next
  case (replicated cs m n)
  then obtain w where t: "tracked lib ids lo hi B w cs" by blast
  show ?case
  proof (cases "m \<in> set ids")
    case True
    then obtain l where l: "l < length cs" "m = ids ! l" by (rule tracked_index [OF t])
    then show ?thesis using tracked_replicate [OF lib B t l(1)] followsD by (metis snd_conv)
  next
    case False
    then show ?thesis using unknown_node(5) [of m cs lib n] tracked_ids [OF t] t by auto
  qed
next
  case (used cs i c)
  then obtain w where t: "tracked lib ids lo hi B w cs" by blast
  have "length (log_entries (cs ! i)) < B" if "c = Append_Command cmd" for cmd using used.hyps(5) that by simp
  then show ?case
    using follows_local [OF lib t used.hyps(2-4)] followsD by metis
qed

section \<open>Properties\<close>

text \<open>
  C37: The in-memory cluster refines the network.  After its construction and any sequence of its own
  operations (elections, deliveries, heartbeats, replication, on every exit) and of local calls on its
  nodes (clock, election, command, heartbeats), its nodes are, one by one, the nodes of a world that the
  network reaches from new nodes; so what is proved of reachable worlds (one leader for a term,
  matching logs, committed entries that are never lost or reordered) holds in it.  Messages that a caller
  makes up and hands to a node's handlers are outside of this.
\<close>

theorem cluster_is_a_network_run:
  assumes "iterates_once lib" and "2 * B \<le> log_max_size" and "cluster_run lib ids lo hi seed f B cs"
  shows "\<exists>w. world_reachable lib ids lo hi w \<and> map node_id cs = ids \<and> distinct ids \<and>
    list_all (\<lambda>c. cores w (node_id c) = c) cs"
proof -
  obtain w where "tracked lib ids lo hi B w cs" using cluster_run_tracked [OF assms] by blast
  then show ?thesis by (auto simp: tracked_def list_all_iff)
qed

definition cluster_0 :: "u64 cluster" where
  "cluster_0 = (case new_in_memory_cluster sample_lib sample_members 150 300 7 sample_disk of Inr cs \<Rightarrow> cs | Inl e \<Rightarrow> [])"

definition cluster_1 :: "u64 cluster" where
  "cluster_1 = final (cluster_start_election sample_lib ''a'' cluster_0)"

definition cluster_2 :: "u64 cluster" where
  "cluster_2 = cluster_1[0 := final (call sample_lib (Append_Command ''SET x 1'') (cluster_1 ! 0))]"

definition cluster_3 :: "u64 cluster" where
  "cluster_3 = final (send_heartbeats sample_lib ''a'' cluster_2)"

lemma cluster_0_new: "new_in_memory_cluster sample_lib sample_members 150 300 7 sample_disk = Inr cluster_0"
proof -
  have "\<not> isl (new_in_memory_cluster sample_lib sample_members 150 300 7 sample_disk)" by code_simp
  then show ?thesis
    by (cases "new_in_memory_cluster sample_lib sample_members 150 300 7 sample_disk") (simp_all add: cluster_0_def)
qed

lemma cluster_0_terms: "list_all (\<lambda>c. node_id c = ''a'' \<longrightarrow> current_term c \<noteq> - 1) cluster_0"
  by code_simp

lemma cluster_1_leader: "role (cluster_1 ! 0) = Leader" "length cluster_1 = 3" "length (log_entries (cluster_1 ! 0)) = 0"
  by code_simp+

lemma cluster_2_leader: "role (cluster_2 ! 0) = Leader" "length cluster_2 = 3" "length (log_entries (cluster_2 ! 0)) = 1"
  by code_simp+

lemma cluster_3_committed: "map commit_index cluster_3 = [1, 0, 0]" "map role cluster_3 = [Leader, Follower, Follower]"
  by code_simp+

lemma cluster_runs:
  "cluster_run sample_lib sample_members 150 300 7 sample_disk 10 cluster_2"
  "cluster_run sample_lib sample_members 150 300 7 sample_disk 10 cluster_3"
  "cluster_run sample_lib sample_members 150 300 7 sample_disk 10 cluster_1"
proof -
  show one: "cluster_run sample_lib sample_members 150 300 7 sample_disk 10 cluster_1"
    unfolding cluster_1_def by (rule cluster_run.elected [OF cluster_run.constructed [OF cluster_0_new] cluster_0_terms])
  have c: "local_call (Append_Command ''SET x 1'')"
    using well_formed_set [of "''x''" "''1''"] by (simp add: valid_key_def)
  show two: "cluster_run sample_lib sample_members 150 300 7 sample_disk 10 cluster_2"
    unfolding cluster_2_def
    by (intro cluster_run.used [OF one _ c]) (simp_all add: cluster_1_leader within_bounds_def log_max_size_def)
  show "cluster_run sample_lib sample_members 150 300 7 sample_disk 10 cluster_3"
    unfolding cluster_3_def by (rule cluster_run.heartbeat [OF two])
qed

theorem cluster_is_a_network_run_witness:
  "\<exists>w. world_reachable sample_lib sample_members 150 300 w \<and> role (cluster_3 ! 0) = Leader \<and>
     list_all (\<lambda>c. cores w (node_id c) = c) cluster_3"
proof -
  have "2 * 10 \<le> log_max_size" by (simp add: log_max_size_def)
  moreover have "map role cluster_3 ! 0 = Leader" using cluster_3_committed by simp
  then have "role (cluster_3 ! 0) = Leader" using cluster_3_committed(1) by (subst (asm) nth_map) (auto simp: map_eq_Cons_conv)
  ultimately show ?thesis
    using cluster_is_a_network_run [OF sample_lib_ok(1) _ cluster_runs(2)] by blast
qed

end
