(* ===== verification/Cluster_Progress.thy ===== *)
theory Cluster_Progress
  imports Cluster_Network
begin

text \<open>
  Replication comes to an end: each round of \<^verbatim>\<open>replicate_until_caught_up\<close> brings every follower
  that is behind one entry closer to the point where the leader's log and its own agree, and from
  there it takes over the whole log at once.
\<close>

section \<open>A follower under its leader\<close>

text \<open>
  The leader at \<open>l\<close> has the log \<open>L\<close> and the term \<open>T\<close>; no node is in a later term.
\<close>

definition leading :: "nat \<Rightarrow> log_entry list \<Rightarrow> u64 \<Rightarrow> 'g cluster \<Rightarrow> bool" where
  "leading l L T cs \<longleftrightarrow> l < length cs \<and> role (cs ! l) = Leader \<and> log_entries (cs ! l) = L \<and> current_term (cs ! l) = T \<and>
     list_all (\<lambda>c. current_term c \<le> T) cs"

text \<open>What the safety of the network says of such a follower.\<close>

lemma follower_agrees:
  assumes lib: "iterates_once lib" and t: "tracked lib ms lo hi B w cs" and lead: "leading l L T cs" and j: "j < length cs"
  shows "log_matching (log_entries (cs ! j)) L" and "respects_commit L (cs ! j)"
    and "prefix (take (match_of (cs ! l) (ms ! j)) L) (log_entries (cs ! j))"
proof -
  have l: "l < length cs" "role (cs ! l) = Leader" "log_entries (cs ! l) = L" "current_term (cs ! l) = T"
    and le: "current_term (cs ! j) \<le> T"
    using lead j by (simp_all add: leading_def list_all_length)
  obtain \<sigma> where sim: "simulates ms w \<sigma>" and cm: "\<forall>k < length cs. core_matches ms \<sigma> (ms ! k) (cs ! k)"
    by (rule tracked_simulated [OF lib t])
  have inv: "protocol_inv (majority_of ms) \<sigma>" by (rule simulates_inv [OF sim])
  then have b: "basic_inv (majority_of ms) \<sigma>" by (simp add: protocol_inv_def)
  have vj: "node_at \<sigma> (ms ! j) = view (cs ! j)" and vl: "node_at \<sigma> (ms ! l) = view (cs ! l)"
    using cm_view [OF cm [rule_format, OF j]] cm_view [OF cm [rule_format, OF l(1)]] .
  have lv: "v_role (node_at \<sigma> (ms ! l)) = Leader" "v_term (node_at \<sigma> (ms ! l)) = T" using vl l by simp_all
  show "log_matching (log_entries (cs ! j)) L"
    using majority.all_logs_match [OF inv, of "ms ! j" "ms ! l"] vj vl l(3) by simp
  have "prefix (take (unat (commit_index (cs ! j))) (log_entries (cs ! j))) L"
    using majority.leader_holds_backed [OF inv lv(1) majority.commits_backed [OF inv, of "ms ! j"]] vj vl l le by simp
  then have "log_entries (cs ! j) ! i = L ! i" if "i < unat (commit_index (cs ! j))" "i < length (log_entries (cs ! j))" for i
    using that by (auto simp: prefix_def nth_append split: if_splits)
  then show "respects_commit L (cs ! j)" by (simp add: respects_commit_def)
  have "match_of (cs ! l) (ms ! j) \<le> h_ack \<sigma> T (ms ! j)"
    using leader_match [OF b lv, of "ms ! j"] vl by simp
  moreover have "prefix (take (h_ack \<sigma> T (ms ! j)) L) (log_entries (cs ! j))"
  proof (cases "current_term (cs ! j) = T")
    case True
    then show ?thesis using ack_now [OF b, of "ms ! j" T] leader_log [OF b lv] vj vl l(3) by simp
  next
    case False
    then have "h_ack \<sigma> T (ms ! j) = 0" using ack_later [OF b, of "ms ! j" T] vj le by (simp add: less_le)
    then show ?thesis by simp
  qed
  ultimately show "prefix (take (match_of (cs ! l) (ms ! j)) L) (log_entries (cs ! j))"
    by (metis min.absorb1 take_is_prefix take_take prefix_order.trans)
qed

text \<open>A follower's answer to the leader's request with \<open>p\<close> entries before it.\<close>

lemma follower_answers:
  assumes lib: "iterates_once lib" and t: "tracked lib ms lo hi B w cs" and lead: "leading l L T cs" and j: "j < length cs" "j \<noteq> l"
    and q: "request_for L p q" "ae_term q = T" "ae_leader_id q = ms ! l" and B: "2 * B \<le> log_max_size"
    and run: "handle_append_entries lib q (cs ! j) = (Inr r, s)"
  shows "aer_term r = T" and "current_term s = T"
    and "success r \<Longrightarrow> unat (matched_index r) = length L" and "p = 0 \<Longrightarrow> success r"
    and "log_entries (cs ! j) = L \<Longrightarrow> log_entries s = L \<and> min (unat (leader_commit q)) (length L) \<le> unat (commit_index s)"
proof -
  have l: "l < length cs" "log_entries (cs ! l) = L" "current_term (cs ! l) = T" and le: "current_term (cs ! j) \<le> T"
    using lead j(1) by (simp_all add: leading_def list_all_length)
  note sl = tracked_sound(1) [OF lib t l(1)] and sj = tracked_sound(1) [OF lib t j(1)]
  have len: "length L \<le> B" "length (log_entries (cs ! j)) \<le> B"
    using tracked_small [OF t l(1)] tracked_small [OF t j(1)] l(2) by (simp_all add: small_def)
  have qe: "entries q = drop p L" "unat (prev_log_index q) = p" "p \<le> length L" using q(1) by (simp_all add: request_for_def)
  have room: "length (log_entries (cs ! j)) + length (entries q) \<le> log_max_size" using len B qe(1) by simp
  have cmds: "commands_ok (entries q)"
    using soundD(3) [OF sl] l(2) qe(1) by (auto simp: commands_ok_def dest: in_set_dropD)
  have mem: "ms ! l \<in> set (cluster_members (cs ! j))"
    using tracked_sound(2) [OF lib t j(1)] tracked_member [OF t l(1)] by simp
  have valid: "valid_log (ae_term q) L" using core_ok_valid_log [OF soundD(1) [OF sl]] l(2,3) q(2) by simp
  have "length L \<le> log_max_size" using len B by simp
  note rec = reconciled_log_committed [OF q(1) follower_agrees(1) [OF lib t lead j(1)] valid this
      follower_agrees(2) [OF lib t lead j(1)]]
  note h = handle_append_entries_working [OF soundD(1,4) [OF sj] room soundD(3) [OF sj] cmds, of lib]
  have m: "unat (prev_log_index q + of_nat (length (entries q))) = length L"
    using qe len B by (subst unat_add_small) simp_all
  have nl: "\<not> (ae_leader_id q \<notin> set (cluster_members (cs ! j)) \<or> ae_term q < current_term (cs ! j))"
    using mem q(2,3) le by simp
  show "aer_term r = T" "success r \<Longrightarrow> unat (matched_index r) = length L" "p = 0 \<Longrightarrow> success r"
    using h nl run m q(2) rec by (auto split: option.splits if_splits)
  have le': "current_term (cs ! j) \<le> ae_term q" using le q(2) by simp
  have "current_term s = T \<and> (log_entries (cs ! j) = L \<longrightarrow>
      log_entries s = L \<and> min (unat (leader_commit q)) (length L) \<le> unat (commit_index s))"
  proof (cases "reconciled_log q (cs ! j)")
    case None
    then have "s = under_leader lib q (cs ! j)" using h nl run by simp
    moreover have "log_entries (cs ! j) \<noteq> L" using None rec qe(3) by auto
    ultimately show ?thesis
      using arg_cong [OF view_under_leader [OF soundD(1) [OF sj] le', of lib], of v_term] q(2) by simp
  next
    case (Some es)
    then have s: "s = appended lib q es (cs ! j)" using h nl run by simp
    have "current_term (cs ! j) \<le> ae_term q" "ae_leader_id q \<in> set (cluster_members (cs ! j))" using nl le' by simp_all
    note v = view_appended [OF soundD(1) [OF sj] this Some room, of lib]
    have es: "log_entries (cs ! j) = L \<longrightarrow> es = L" using Some rec by (auto simp: merged_def split: if_splits)
    have "current_term s = T" "log_entries s = es" "min (unat (leader_commit q)) (length L) \<le> unat (commit_index s)"
      using arg_cong [OF v, of v_term] arg_cong [OF v, of v_log] arg_cong [OF v, of v_commit] s q(2) qe by simp_all
    then show ?thesis using es by simp
  qed
  then show "current_term s = T" and "log_entries (cs ! j) = L \<Longrightarrow>
      log_entries s = L \<and> min (unat (leader_commit q)) (length L) \<le> unat (commit_index s)" by simp_all
qed

text \<open>What the leader makes of the answer.\<close>

lemma leader_counts:
  assumes "sound s" and "role s = Leader" and "m \<in> set (others s)" and "aer_term r = current_term s"
    and "success r \<Longrightarrow> unat (matched_index r) = length (log_entries s)"
    and run: "receive_append_entries_response m r s = (Inr (), u)"
  shows "role u = Leader \<and> log_entries u = log_entries s \<and> current_term u = current_term s \<and>
    (if success r then length (log_entries s) \<le> match_of u m
     else match_of u m = match_of s m \<and> (1 < next_of s m \<longrightarrow> next_of u m < next_of s m)) \<and>
    (\<forall>k. k \<noteq> m \<longrightarrow> match_of u k = match_of s k \<and> next_of u k = next_of s k) \<and> (settled s \<longrightarrow> settled u)"
  using assms(1,3)
proof (cases rule: append_response_view [where r = r])
  case (refused t)
  have "unat (of_nat (next_of s m - 1) :: u64) = next_of s m - 1"
  proof -
    have "next_of s m < 2 ^ 64" using unat_u64_less by (simp add: next_of_def split: option.split)
    then show ?thesis by (simp add: unat_of_nat)
  qed
  moreover have "committable (s\<lparr>next_index := n\<rparr>) = committable s" for n by (rule committable_cong) simp_all
  ultimately show ?thesis using refused run by (auto simp: match_of_def next_of_def settled_def)
next
  case (confirmed c t i k)
  let ?u = "confirmed m (matched_index r) i k s"
  have le: "unat (matched_index r) \<le> log_max_size"
    using confirmed(5) core_ok_length [OF soundD(1) [OF assms(1)]] by simp
  have u: "role ?u = role s" "log_entries ?u = log_entries s" "current_term ?u = current_term s"
    by (simp_all add: confirmed_def Let_def)
  have c: "commit_index ?u \<le> c" "unat c \<le> length (log_entries ?u)"
    using confirmed(9) core_ok_commit [OF confirmed(8)] by (auto simp: commits_to_def)
  note sel = committed_to_select [OF confirmed(8) c]
  have "match_index t = match_index ?u \<and> next_index t = next_index ?u \<and> role t = role s \<and>
      log_entries t = log_entries s \<and> current_term t = current_term s"
    using confirmed(10) u sel by (auto simp: saved_def)
  then have "match_of t = match_of ?u" "next_of t = next_of ?u" "role t = role s"
      "log_entries t = log_entries s" "current_term t = current_term s"
    by (simp_all add: match_of_def next_of_def fun_eq_iff)
  moreover have "t = u" using confirmed(1) run by simp
  ultimately show ?thesis
    using confirmed_match [OF confirmed(7), of "matched_index r" i] confirmed_next [OF confirmed(6) le, of k]
      assms(2,5) confirmed(4,11) by simp
qed (use assms(2,4) run in auto)

section \<open>A round\<close>

text \<open>Every follower has confirmed the whole log, or is at most \<open>N\<close> away from the start of it.\<close>

definition behind :: "nat \<Rightarrow> 'g raft_core \<Rightarrow> string \<Rightarrow> bool" where
  "behind N s m \<longleftrightarrow> length (log_entries s) \<le> match_of s m \<or> next_of s m \<le> N"

text \<open>
  During a round: the requests \<open>as\<close> are still to be delivered, each of them the one that the leader
  makes for its target; the targets that are done are closer.  With \<open>eager\<close>, the leader has
  committed all that it may.
\<close>

definition in_round ::
    "bool \<Rightarrow> nat \<Rightarrow> string list \<Rightarrow> log_entry list \<Rightarrow> u64 \<Rightarrow> nat \<Rightarrow> append_entries_action list \<Rightarrow> 'g cluster \<Rightarrow> bool" where
  "in_round eager l ms L T N as cs \<longleftrightarrow> leading l L T cs \<and> (eager \<longrightarrow> settled (cs ! l)) \<and> distinct (map ae_target as) \<and>
     (\<forall>a \<in> set as. ae_term (ae_request a) = T \<and> ae_leader_id (ae_request a) = ms ! l \<and> ae_target a \<in> set (others (cs ! l)) \<and>
        request_for L (next_of (cs ! l) (ae_target a) - 1) (ae_request a)) \<and>
     (\<forall>m \<in> set (others (cs ! l)). behind (Suc N) (cs ! l) m \<and> (m \<in> ae_target ` set as \<or> behind N (cs ! l) m))"

lemma in_round_delivery:
  assumes lib: "iterates_once lib" and B: "2 * B \<le> log_max_size"
    and P: "in_round eager l ms L T N (a # as) cs" and t: "tracked lib ms lo hi B w cs" and j: "j < length cs" "j \<noteq> l"
    and a: "ae_target a = ms ! j" and run: "handle_append_entries lib (ae_request a) (cs ! j) = (Inr r, s)"
    and rec: "receive_append_entries_response (ms ! j) r (cs ! l) = (Inr (), u)"
    and t': "tracked lib ms lo hi B w' (cs[j := s, l := u])"
  shows "in_round eager l ms L T N as (cs[j := s, l := u])"
proof -
  let ?m = "ms ! j" and ?p = "next_of (cs ! l) (ms ! j) - 1"
  have lead: "leading l L T cs" and q: "ae_term (ae_request a) = T" "ae_leader_id (ae_request a) = ms ! l"
      "request_for L ?p (ae_request a)" and o: "?m \<in> set (others (cs ! l))"
    using P a by (simp_all add: in_round_def)
  have l: "l < length cs" "role (cs ! l) = Leader" "log_entries (cs ! l) = L" "current_term (cs ! l) = T"
    using lead by (simp_all add: leading_def)
  note ans = follower_answers [OF lib t lead j q(3,1,2) B run]
  note sl = tracked_sound(1) [OF lib t l(1)]
  have cnt: "role u = Leader \<and> log_entries u = L \<and> current_term u = T \<and>
    (if success r then length L \<le> match_of u ?m
     else match_of u ?m = match_of (cs ! l) ?m \<and> (1 < next_of (cs ! l) ?m \<longrightarrow> next_of u ?m < next_of (cs ! l) ?m)) \<and>
    (\<forall>k. k \<noteq> ?m \<longrightarrow> match_of u k = match_of (cs ! l) k \<and> next_of u k = next_of (cs ! l) k) \<and>
    (settled (cs ! l) \<longrightarrow> settled u)"
    using leader_counts [OF sl l(2) o _ _ rec, unfolded l(3,4), OF ans(1) ans(3)] .
  have ids: "node_id u = node_id (cs ! l)"
    using tracked_id [OF t', of l] tracked_id [OF t l(1)] l(1) by simp
  have "set (cluster_members u) = set (cluster_members (cs ! l))"
    using tracked_sound(2) [OF lib t', of l] tracked_sound(2) [OF lib t l(1)] l(1) by simp
  then have os: "set (others u) = set (others (cs ! l))" using ids by (simp add: others_def)
  have at: "cs[j := s, l := u] ! l = u" using l(1) by simp
  have "list_all (\<lambda>c. current_term c \<le> T) (cs[j := s, l := u])"
    using lead ans(2) cnt j(1) l(1) by (auto simp: leading_def list_all_length nth_list_update)
  then have lead': "leading l L T (cs[j := s, l := u])" using cnt l(1) by (simp add: leading_def)
  have far: "behind (Suc N) (cs ! l) ?m" using P o unfolding in_round_def by blast
  have here: "behind N u ?m"
  proof (cases "success r")
    case True
    then show ?thesis using cnt by (simp add: behind_def)
  next
    case False
    then have "?p \<noteq> 0" using ans(4) by blast
    then have "next_of u ?m < next_of (cs ! l) ?m" "match_of u ?m = match_of (cs ! l) ?m" using cnt False by simp_all
    then show ?thesis using far cnt l(3) unfolding behind_def by auto
  qed
  then have le: "behind (Suc N) u ?m" by (auto simp: behind_def)
  have "behind K u m = behind K (cs ! l) m" if "m \<noteq> ?m" for K m using cnt that l(3) by (simp add: behind_def)
  then have closer: "behind (Suc N) u m \<and> (m \<in> ae_target ` set as \<or> behind N u m)" if "m \<in> set (others u)" for m
    using P that here le os a by (cases "m = ?m") (auto simp: in_round_def)
  have "?m \<notin> ae_target ` set as" using P a by (simp add: in_round_def)
  then have "ae_target b \<noteq> ?m" if "b \<in> set as" for b using that by (metis image_eqI)
  then have "request_for L (next_of u (ae_target b) - 1) (ae_request b)" if "b \<in> set as" for b
    using P that cnt by (auto simp: in_round_def)
  moreover have "eager \<longrightarrow> settled u" using P cnt by (simp add: in_round_def)
  ultimately show ?thesis using P lead' closer os unfolding in_round_def at by auto
qed

lemma in_round_start:
  assumes lib: "iterates_once lib" and t: "tracked lib ms lo hi B w cs" and lead: "leading l L T cs" and B: "B \<le> log_max_size"
    and far: "\<forall>m \<in> set (others (cs ! l)). behind (Suc N) (cs ! l) m" and eager: "eager \<longrightarrow> settled (cs ! l)"
  shows "in_round eager l ms L T N (heartbeat_actions (cs ! l)) (cs[l := (cs ! l)\<lparr>pending_append_entries_actions := []\<rparr>])"
proof -
  let ?s = "cs ! l" and ?t = "(cs ! l)\<lparr>pending_append_entries_actions := []\<rparr>"
  have l: "l < length cs" "role ?s = Leader" "log_entries ?s = L" "current_term ?s = T"
    using lead by (simp_all add: leading_def)
  note ok = soundD(1) [OF tracked_sound(1) [OF lib t l(1)]]
  have same: "others ?t = others ?s" "next_of ?t = next_of ?s" "\<And>K m. behind K ?t m = behind K ?s m"
    by (simp_all add: others_def next_of_def match_of_def fun_eq_iff behind_def)
  have "committable ?t = committable ?s" by (rule committable_cong) simp_all
  then have set: "settled ?t = settled ?s" by (simp add: settled_def)
  have "list_all (\<lambda>c. current_term c \<le> T) (cs[l := ?t])"
    using lead by (auto simp: leading_def list_all_length nth_list_update)
  then have "leading l L T (cs[l := ?t])" using l by (simp add: leading_def)
  moreover have "distinct (map ae_target (heartbeat_actions ?s))"
    using ok by (simp add: heartbeat_actions_def comp_def others_def core_ok_def config_ok_def)
  moreover have "request_for L (next_of ?s m - 1) (replication_request ?s (next_of ?s m))" if "m \<in> set (others ?s)" for m
  proof -
    have "0 < next_of ?s m" "next_of ?s m \<le> Suc (length L)"
      using core_ok_replication [OF ok l(2)] that l(3) by (auto simp: replication_ok_def)
    then show ?thesis
      using replication_request_end(1) [of ?s "next_of ?s m"] core_ok_length [OF ok] l(3)
      by (simp add: request_for_def replication_request_def)
  qed
  then have "\<forall>a \<in> set (heartbeat_actions ?s). ae_term (ae_request a) = T \<and> ae_leader_id (ae_request a) = ms ! l \<and>
      ae_target a \<in> set (others ?s) \<and> request_for L (next_of ?s (ae_target a) - 1) (ae_request a)"
    using tracked_id [OF t l(1)] l(4) by (simp add: heartbeat_actions_def) (simp add: replication_request_def)
  moreover have "ae_target ` set (heartbeat_actions ?s) = set (others ?s)" by (simp add: heartbeat_actions_def image_image)
  moreover have "cs[l := ?t] ! l = ?t" using l(1) by simp
  ultimately show ?thesis using far eager unfolding in_round_def by (simp only: same set) blast
qed

section \<open>The rounds\<close>

lemma others_are_nodes:
  assumes lib: "iterates_once lib" and t: "tracked lib ms lo hi B w cs" and l: "l < length cs"
  shows "all_confirmed (cs ! l) cs \<longleftrightarrow> (\<forall>m \<in> set (others (cs ! l)). length (log_entries (cs ! l)) \<le> match_of (cs ! l) m)"
proof -
  have "set (others (cs ! l)) = {node_id c | c. c \<in> set cs \<and> node_id c \<noteq> node_id (cs ! l)}"
  proof -
    have "set (cluster_members (cs ! l)) = node_id ` set cs"
      using tracked_sound(2) [OF lib t l] tracked_ids [OF t] by (metis set_map)
    then show ?thesis by (auto simp: others_def)
  qed
  then show ?thesis by (auto simp: all_confirmed_def)
qed

lemma rounds_catch_up:
  assumes lib: "iterates_once lib" and B: "2 * B \<le> log_max_size"
  shows "tracked lib ms lo hi B w cs \<Longrightarrow> leading l L T cs \<Longrightarrow> N < n \<Longrightarrow>
    \<forall>m \<in> set (others (cs ! l)). behind (Suc N) (cs ! l) m \<Longrightarrow> eager \<longrightarrow> settled (cs ! l) \<Longrightarrow>
    \<exists>w' cs'. replication_rounds lib (ms ! l) l n cs = (Inr True, cs') \<and> follows lib ms lo hi B w w' cs' \<and>
      leading l L T cs' \<and> all_confirmed (cs' ! l) cs' \<and> (eager \<longrightarrow> settled (cs' ! l))"
proof (induction n arbitrary: w cs N)
  case (Suc n)
  note t = Suc.prems(1) and lead = Suc.prems(2)
  have l: "l < length cs" "role (cs ! l) = Leader" using lead by (simp_all add: leading_def)
  have "B \<le> log_max_size" using B by simp
  note start = in_round_start [OF lib t lead this Suc.prems(4,5)]
  obtain k w1 cs1 where beat: "send_heartbeats lib (ms ! l) cs = (Inr k, cs1)"
    and f: "follows lib ms lo hi B w w1 cs1" and P: "in_round eager l ms L T N [] cs1"
    by (rule tracked_send_heartbeats [where P = "in_round eager l ms L T N", OF lib B in_round_delivery [OF lib B] t l start])
  note t1 = followsD [OF f]
  have lead1: "leading l L T cs1" and eager1: "eager \<longrightarrow> settled (cs1 ! l)" and near: "\<forall>m \<in> set (others (cs1 ! l)). behind N (cs1 ! l) m"
    using P by (simp_all add: in_round_def)
  have l1: "l < length cs1" "role (cs1 ! l) = Leader" using lead1 by (simp_all add: leading_def)
  note up = tracked_caught_up [OF lib t1 l1]
  show ?case
  proof (cases "all_confirmed (cs1 ! l) cs1")
    case True
    then have "replication_rounds lib (ms ! l) l (Suc n) cs = (Inr True, cs1)"
      using beat l1 up by (simp add: bind_op_def ask_node_def)
    then show ?thesis using f lead1 eager1 True by blast
  next
    case False
    then obtain m where m: "m \<in> set (others (cs1 ! l))" "\<not> length (log_entries (cs1 ! l)) \<le> match_of (cs1 ! l) m"
      using others_are_nodes [OF lib t1 l1(1)] by blast
    have "0 < next_of (cs1 ! l) m"
      using core_ok_replication [OF soundD(1) [OF tracked_sound(1) [OF lib t1 l1(1)]] l1(2)] m(1)
      by (simp add: replication_ok_def)
    then obtain N' where N: "N = Suc N'" using near m by (cases N) (auto simp: behind_def)
    obtain w2 cs2 where rest: "replication_rounds lib (ms ! l) l n cs1 = (Inr True, cs2)"
        "follows lib ms lo hi B w1 w2 cs2" "leading l L T cs2" "all_confirmed (cs2 ! l) cs2"
        "eager \<longrightarrow> settled (cs2 ! l)"
      using Suc.IH [OF t1 lead1, of N'] Suc.prems(3) near N eager1 by auto
    have "replication_rounds lib (ms ! l) l (Suc n) cs = (Inr True, cs2)"
      using beat l1 up False rest(1) by (simp add: bind_op_def ask_node_def)
    then show ?thesis using follows_trans [OF f rest(2)] rest(3-5) by blast
  qed
qed simp

lemma confirmed_holds_log:
  assumes lib: "iterates_once lib" and t: "tracked lib ms lo hi B w cs" and lead: "leading l L T cs"
    and all: "all_confirmed (cs ! l) cs"
  shows "list_all (\<lambda>c. prefix L (log_entries c)) cs"
  unfolding list_all_length
proof (intro allI impI)
  fix j assume j: "j < length cs"
  have l: "l < length cs" "log_entries (cs ! l) = L" using lead by (simp_all add: leading_def)
  show "prefix L (log_entries (cs ! j))"
  proof (cases "j = l")
    case False
    then have "node_id (cs ! j) \<noteq> node_id (cs ! l)"
      using tracked_distinct [OF t] tracked_length [OF t] tracked_id [OF t] j l(1) by (simp add: nth_eq_iff_index_eq)
    then have "length L \<le> match_of (cs ! l) (ms ! j)"
      using all j l(2) tracked_id [OF t j] unfolding all_confirmed_def by (metis nth_mem)
    then show ?thesis using follower_agrees(3) [OF lib t lead j] by simp
  qed (use l in simp)
qed

lemma leader_within_reach:
  assumes lib: "iterates_once lib" and t: "tracked lib ms lo hi B w cs" and lead: "leading l L T cs"
  shows "\<forall>m \<in> set (others (cs ! l)). behind (Suc (length L)) (cs ! l) m"
proof -
  have l: "l < length cs" "role (cs ! l) = Leader" "log_entries (cs ! l) = L" using lead by (simp_all add: leading_def)
  have "replication_ok (cs ! l)"
    using core_ok_replication [OF soundD(1) [OF tracked_sound(1) [OF lib t l(1)]] l(2)] .
  then show ?thesis using l(3) by (simp add: replication_ok_def behind_def)
qed

lemma catch_up:
  assumes lib: "iterates_once lib" and B: "2 * B \<le> log_max_size" and t: "tracked lib ms lo hi B w cs"
    and lead: "leading l L T cs" and n: "length L < unat max_rounds" and eager: "eager \<longrightarrow> settled (cs ! l)"
  obtains w' cs' where "replicate_until_caught_up lib (ms ! l) max_rounds cs = (Inr True, cs')"
    and "follows lib ms lo hi B w w' cs'" and "leading l L T cs'" and "all_confirmed (cs' ! l) cs'" and "eager \<longrightarrow> settled (cs' ! l)"
proof -
  have l: "l < length cs" "role (cs ! l) = Leader" "log_entries (cs ! l) = L" using lead by (simp_all add: leading_def)
  obtain w' cs1 where rounds: "replication_rounds lib (ms ! l) l (unat max_rounds) cs = (Inr True, cs1)"
      "follows lib ms lo hi B w w' cs1" "leading l L T cs1" "all_confirmed (cs1 ! l) cs1" "eager \<longrightarrow> settled (cs1 ! l)"
    using rounds_catch_up [OF lib B t lead n leader_within_reach [OF lib t lead] eager] by blast
  have run: "replicate_until_caught_up lib (ms ! l) max_rounds cs = (Inr True, if all_confirmed (cs ! l) cs then cs else cs1)"
    using tracked_node [OF t l(1)] tracked_caught_up [OF lib t l(1,2)] rounds(1) l(2)
    by (simp add: replicate_until_caught_up_def bind_op_def ask_node_def)
  show thesis
  proof (cases "all_confirmed (cs ! l) cs")
    case True
    then show thesis using run follows_refl [OF t] lead eager by (intro that [of cs w]) simp_all
  next
    case False
    then show thesis using run rounds(2-) by (intro that [of cs1 w']) simp_all
  qed
qed

section \<open>Properties\<close>

text \<open>
  C38: Replication terminates with success.  In an in-memory cluster, after its own operations
  and local calls on its nodes in any order (\<open>cluster_run\<close>), a leader in whose term or an earlier one every node is catches all of them up: with more rounds
  than its log has entries, \<^verbatim>\<open>replicate_until_caught_up\<close> returns true, the leader still leads with the
  same log, and the log of every node begins with it.
\<close>

theorem replication_catches_up:
  assumes "iterates_once lib" and "2 * B \<le> log_max_size" and "cluster_run lib ids lo hi seed f B cs"
    and "l < length cs" and "role (cs ! l) = Leader" and "list_all (\<lambda>c. current_term c \<le> current_term (cs ! l)) cs"
    and "length (log_entries (cs ! l)) < unat max_rounds"
  shows "\<exists>cs'. replicate_until_caught_up lib (node_id (cs ! l)) max_rounds cs = (Inr True, cs') \<and>
    map node_id cs' = map node_id cs \<and> role (cs' ! l) = Leader \<and> log_entries (cs' ! l) = log_entries (cs ! l) \<and>
    list_all (\<lambda>c. prefix (log_entries (cs ! l)) (log_entries c)) cs'"
proof -
  let ?L = "log_entries (cs ! l)" and ?T = "current_term (cs ! l)"
  obtain w where t: "tracked lib ids lo hi B w cs" using cluster_run_tracked [OF assms(1-3)] by blast
  have lead: "leading l ?L ?T cs" using assms(4-6) by (simp add: leading_def)
  have "False \<longrightarrow> settled (cs ! l)" by simp
  from catch_up [OF assms(1,2) t lead assms(7) this] obtain w' cs' where
    run: "replicate_until_caught_up lib (ids ! l) max_rounds cs = (Inr True, cs')"
    and f: "follows lib ids lo hi B w w' cs'" and c: "leading l ?L ?T cs'" "all_confirmed (cs' ! l) cs'" by blast
  note t' = followsD [OF f]
  show ?thesis
    using run c(1) confirmed_holds_log [OF assms(1) t' c] tracked_ids [OF t'] tracked_ids [OF t] tracked_id [OF t assms(4)]
    by (intro exI [of _ cs']) (simp add: leading_def)
qed

theorem replication_catches_up_witness:
  "\<exists>cs'. replicate_until_caught_up sample_lib ''a'' 2 cluster_2 = (Inr True, cs') \<and>
     list_all (\<lambda>c. prefix (log_entries (cluster_2 ! 0)) (log_entries c)) cs'"
proof -
  have B: "2 * 10 \<le> log_max_size" by (simp add: log_max_size_def)
  have terms: "list_all (\<lambda>c. current_term c \<le> current_term (cluster_2 ! 0)) cluster_2" "node_id (cluster_2 ! 0) = ''a''"
    by code_simp+
  show ?thesis
    using replication_catches_up [OF sample_lib_ok(1) B cluster_runs(1) _ _ terms(1), of 2] terms(2)
    by (auto simp: cluster_2_leader)
qed

end
