(* ===== verification/Cluster_Availability.thy ===== *)
theory Cluster_Availability
  imports Cluster_Progress
begin

text \<open>
  A cluster that can act does act: a candidate whose log a majority accepts wins its election, and
  a command that is given to the leader is executed on every node.
\<close>

section \<open>An election\<close>

text \<open>
  The node at \<open>l\<close> stands for election in the term \<open>T\<close> with the log \<open>L\<close>; the requests \<open>as\<close> are still
  to be delivered.  The nodes in \<open>W\<close> have no newer log, and they have voted for it or will be asked.
\<close>

definition vote_request_from :: "string \<Rightarrow> u64 \<Rightarrow> log_entry list \<Rightarrow> request_vote_request" where
  "vote_request_from m T L =
     \<lparr>rv_term = T, candidate_id = m, rv_last_log_index = last_index_of L, rv_last_log_term = last_term_of L\<rparr>"

definition campaigning ::
    "nat \<Rightarrow> string list \<Rightarrow> log_entry list \<Rightarrow> u64 \<Rightarrow> string set \<Rightarrow> request_vote_action list \<Rightarrow> 'g cluster \<Rightarrow> bool" where
  "campaigning l ms L T W as cs \<longleftrightarrow> l < length cs \<and> log_entries (cs ! l) = L \<and> current_term (cs ! l) = T \<and>
     distinct (map rv_target as) \<and> ms ! l \<notin> rv_target ` set as \<and>
     (\<forall>a \<in> set as. rv_request a = vote_request_from (ms ! l) T L) \<and>
     (\<forall>i < length cs. current_term (cs ! i) \<le> T \<and>
        (ms ! i \<in> W \<longrightarrow> position_of (log_entries (cs ! i)) \<le> position_of L) \<and>
        (ms ! i \<in> rv_target ` set as \<longrightarrow> current_term (cs ! i) < T)) \<and>
     (role (cs ! l) = Candidate \<and> W \<subseteq> votes_received (cs ! l) \<union> rv_target ` set as \<and>
        card (votes_received (cs ! l)) < majority_size (cs ! l) \<or>
      role (cs ! l) = Leader \<and> pending_append_entries_actions (cs ! l) = heartbeat_actions (cs ! l))"

text \<open>A node in an earlier term votes exactly when its log is not newer.\<close>

lemma vote_in_new_term:
  assumes "core_ok s" and "working s" and "m \<in> set (cluster_members s)" and "current_term s < T"
    and run: "handle_request_vote lib (vote_request_from m T L) s = (Inr r, u)"
  shows "rvr_term r = T" and "vote_granted r \<longleftrightarrow> position_of (log_entries s) \<le> position_of L"
    and "current_term u = T" and "log_entries u = log_entries s"
proof -
  let ?q = "vote_request_from m T L"
  have t: "in_term T s = saved (demoted T s)" using assms(4) by (simp add: in_term_def)
  have g: "grants (in_term T s) ?q \<longleftrightarrow> position_of (log_entries s) \<le> position_of L"
    unfolding t by (simp add: grants_def vote_request_from_def) (simp add: position_of_def)
  have q: "rv_term ?q = T" "candidate_id ?q = m" by (simp_all add: vote_request_from_def)
  have n: "\<not> (m \<notin> set (cluster_members s) \<or> T < current_term s)" using assms(3,4) by auto
  have eq: "(Inr r :: exc + request_vote_response, u) = (if grants (in_term T s) ?q
      then (Inr \<lparr>rvr_term = T, vote_granted = True\<rparr>, voted lib m (in_term T s))
      else (Inr \<lparr>rvr_term = T, vote_granted = False\<rparr>, in_term T s))"
    using run unfolding handle_request_vote_working [OF assms(1,2)] q if_not_P [OF n] Let_def by (rule sym)
  then show "rvr_term r = T" "vote_granted r \<longleftrightarrow> position_of (log_entries s) \<le> position_of L"
    using g by (auto split: if_splits)
  show "current_term u = T" "log_entries u = log_entries s"
    using eq by (auto simp: t voted_def split: if_splits)
qed

lemma campaigning_delivery:
  assumes lib: "iterates_once lib" and P: "campaigning l ms L T W (a # as) cs" and t: "tracked lib ms lo hi B w cs"
    and j: "j < length cs" and a: "rv_target a = ms ! j"
    and run: "handle_request_vote lib (rv_request a) (cs ! j) = (Inr r, s)"
    and rec: "receive_vote (ms ! j) r (cs[j := s] ! l) = (Inr (), u)"
    and t': "tracked lib ms lo hi B w' (cs[j := s, l := u])"
  shows "campaigning l ms L T W as (cs[j := s, l := u])"
proof -
  let ?m = "ms ! j"
  have l: "l < length cs" "log_entries (cs ! l) = L" "current_term (cs ! l) = T"
    and q: "rv_request a = vote_request_from (ms ! l) T L" and d: "?m \<notin> rv_target ` set as" "?m \<noteq> ms ! l"
    and lt: "current_term (cs ! j) < T" and W: "?m \<in> W \<longrightarrow> position_of (log_entries (cs ! j)) \<le> position_of L"
    using P j a by (auto simp: campaigning_def)
  have jl: "j \<noteq> l" using d(2) by auto
  have mem: "ms ! l \<in> set (cluster_members (cs ! j))"
    using tracked_sound(2) [OF lib t j] tracked_member [OF t l(1)] by simp
  note sj = tracked_sound(1) [OF lib t j] and sl = tracked_sound(1) [OF lib t l(1)]
  note v = vote_in_new_term [OF soundD(1,4) [OF sj] mem lt run [unfolded q]]
  have at: "cs[j := s, l := u] ! l = u" "cs[j := s] ! l = cs ! l" using l(1) jl by simp_all
  have mem': "?m \<in> set (cluster_members (cs ! l))"
    using tracked_sound(2) [OF lib t l(1)] tracked_member [OF t j] by simp
  have same: "cluster_size u = cluster_size (cs ! l)"
    using tracked_sound(3) [OF lib t l(1)] tracked_sound(3) [OF lib t', of l] l(1) by (simp add: cluster_size_def)
  have u: "log_entries u = L \<and> current_term u = T \<and>
     (role u = Candidate \<and> W \<subseteq> votes_received u \<union> rv_target ` set as \<and> card (votes_received u) < majority_size u \<or>
      role u = Leader \<and> pending_append_entries_actions u = heartbeat_actions u)"
    using soundD(1,4) [OF sl]
  proof (cases rule: receive_vote_view [where m = ?m and r = r])
    case (won x)
    then have "u = x" using rec at(2) by simp
    moreover have "v_role (view x) = Leader" "v_log (view x) = L" "v_term (view x) = T"
      using won(7) l by (simp_all add: leader_view_def)
    ultimately show ?thesis using won(8) by simp
  next
    case ignored
    then have "u = cs ! l" using rec at(2) by simp
    moreover have "role (cs ! l) = Candidate \<longrightarrow> ?m \<notin> W" using ignored(2) v(1,2) W l(3) by auto
    ultimately show ?thesis using P l a by (auto simp: campaigning_def)
  next
    case counted
    then have "u = (cs ! l)\<lparr>votes_received := insert ?m (votes_received (cs ! l))\<rparr>" using rec at(2) by simp
    moreover have "W \<subseteq> votes_received (cs ! l) \<union> insert ?m (rv_target ` set as)"
      using P counted(2) a by (auto simp: campaigning_def)
    ultimately show ?thesis using counted l by (auto simp: majority_size_def cluster_size_def)
  qed (use rec at(2) v(1) l(3) in simp_all)
  have nodes: "current_term (cs[j := s, l := u] ! i) \<le> T \<and>
        (ms ! i \<in> W \<longrightarrow> position_of (log_entries (cs[j := s, l := u] ! i)) \<le> position_of L) \<and>
        (ms ! i \<in> rv_target ` set as \<longrightarrow> current_term (cs[j := s, l := u] ! i) < T)" if i: "i < length cs" for i
  proof -
    consider "i = l" | "i = j" | "i \<noteq> l" "i \<noteq> j" by blast
    then show ?thesis
    proof cases
      case 1
      then show ?thesis using at(1) u P by (simp add: campaigning_def)
    next
      case 2
      then show ?thesis using jl j v(3,4) d(1) W by simp
    next
      case 3
      then show ?thesis using P i by (simp add: campaigning_def)
    qed
  qed
  show ?thesis using P u nodes l(1) at(1) unfolding campaigning_def by simp
qed

lemma campaign_start:
  assumes lib: "iterates_once lib" and t: "tracked lib ms lo hi B w cs" and l: "l < length cs"
    and T: "current_term (cs ! l) \<noteq> - 1" "list_all (\<lambda>c. current_term c \<le> current_term (cs ! l)) cs"
    and W: "W \<subseteq> set ms" "\<And>i. i < length cs \<Longrightarrow> ms ! i \<in> W \<Longrightarrow> position_of (log_entries (cs ! i)) \<le> position_of (log_entries (cs ! l))"
    and run: "start_election lib (cs ! l) = (Inr (), s)"
  shows "campaigning l ms (log_entries (cs ! l)) (current_term (cs ! l) + 1) W (pending_request_vote_actions s)
      (cs[l := s\<lparr>pending_request_vote_actions := []\<rparr>])"
    and "Suc (length (pending_request_vote_actions s)) = length cs"
proof -
  let ?T = "current_term (cs ! l) + 1" and ?L = "log_entries (cs ! l)"
  note sl = tracked_sound [OF lib t l]
  have ok: "core_ok (cs ! l)" "working (cs ! l)" using soundD(1,4) [OF sl(1)] .
  have "advances (cs ! l) s"
    using call_advances(2) [OF ok(1), of Start_Election lib "Inr ()" s] run T(1) by (simp add: within_bounds_def)
  then have id: "node_id s = ms ! l" "cluster_members s = cluster_members (cs ! l)"
    using tracked_id [OF t l] by (simp_all add: advances_def)
  have others: "set (others s) = set ms - {ms ! l}" "distinct (others s)" "Suc (length (others s)) = length cs"
  proof -
    have m: "distinct (cluster_members s)" "ms ! l \<in> set (cluster_members s)"
      using ok(1) id tracked_id [OF t l] by (simp_all add: core_ok_def config_ok_def)
    have o: "others s = remove1 (ms ! l) (cluster_members s)"
      unfolding others_def id(1) distinct_remove1_removeAll [OF m(1)] removeAll_filter_not_eq by metis
    show "set (others s) = set ms - {ms ! l}" "distinct (others s)" using m sl(2) id(2) by (simp_all add: o)
    show "Suc (length (others s)) = length cs"
      using m sl(3) id(2) tracked_length [OF t] l by (simp add: o length_remove1)
  qed
  have less: "current_term (cs ! i) < ?T" if "i < length cs" for i
  proof -
    have "current_term (cs ! l) < ?T" using later_term [OF T(1)] by (simp add: less_le)
    then show ?thesis using T(2) that by (auto simp: list_all_length)
  qed
  from ok T(1) have "log_entries s = ?L \<and> current_term s = ?T \<and>
      (role s = Candidate \<and> pending_request_vote_actions s = vote_actions s \<and> votes_received s = {ms ! l} \<and> 1 < majority_size s \<or>
       role s = Leader \<and> pending_request_vote_actions s = [] \<and> pending_append_entries_actions s = heartbeat_actions s \<and>
         majority_size s \<le> 1)"
  proof (cases rule: start_election_view [where lib = lib])
    case (candidate x)
    then have "s = x" using run by simp
    moreover from this have "majority_size s = majority_size (cs ! l)"
      using id(2) by (simp add: majority_size_def cluster_size_def)
    moreover have "v_log (view x) = ?L" "v_term (view x) = ?T" "v_role (view x) = Candidate" "v_votes (view x) = {ms ! l}"
      using candidate(2) tracked_id [OF t l] by (simp_all add: candidate_view_def)
    ultimately show ?thesis using candidate(4,5) by simp
  next
    case (leader x)
    then have "s = x" using run by simp
    moreover from this have "majority_size s = majority_size (cs ! l)"
      using id(2) by (simp add: majority_size_def cluster_size_def)
    moreover have "v_log (view x) = ?L" "v_term (view x) = ?T" "v_role (view x) = Leader"
      using leader(2) by (simp_all add: candidate_view_def leader_view_def)
    ultimately show ?thesis using leader(3-5) by simp
  qed
  note s = this
  have sel: "log_entries s = ?L" "current_term s = ?T" using s by blast+
  have va: "map rv_target (vote_actions s) = others s"
      "\<forall>a \<in> set (vote_actions s). rv_request a = vote_request_from (ms ! l) ?T ?L"
    by (simp_all add: vote_actions_def vote_request_from_def last_log_index_def last_log_term_def comp_def sel id(1))
  then have targets: "rv_target ` set (vote_actions s) = set ms - {ms ! l}"
    using others(1) by (metis set_map)
  show "Suc (length (pending_request_vote_actions s)) = length cs"
  proof (cases "role s = Leader")
    case True
    then have "majority_size s \<le> 1" "pending_request_vote_actions s = []" using s by auto
    moreover have "length cs = cluster_size s"
      using sl(3) id(2) tracked_length [OF t] by (simp add: cluster_size_def)
    moreover have "odd (cluster_size s)" using ok(1) id(2) by (simp add: core_ok_def config_ok_def cluster_size_def)
    ultimately show ?thesis by (auto simp: majority_size_def elim!: oddE)
  next
    case False
    then have "length (pending_request_vote_actions s) = length (others s)" using s va(1) by (metis length_map)
    then show ?thesis using others(3) by simp
  qed
  let ?u = "s\<lparr>pending_request_vote_actions := []\<rparr>"
  have at: "cs[l := ?u] ! l = ?u" using l by simp
  have nodes: "current_term (cs[l := ?u] ! i) \<le> ?T \<and>
      (ms ! i \<in> W \<longrightarrow> position_of (log_entries (cs[l := ?u] ! i)) \<le> position_of ?L) \<and>
      (i \<noteq> l \<longrightarrow> current_term (cs[l := ?u] ! i) < ?T)" if "i < length cs" for i
    using that s W(2) less l by (cases "i = l") (auto intro: less_imp_le)
  have roles: "role ?u = Candidate \<and> W \<subseteq> votes_received ?u \<union> rv_target ` set (pending_request_vote_actions s) \<and>
        card (votes_received ?u) < majority_size ?u \<or>
      role ?u = Leader \<and> pending_append_entries_actions ?u = heartbeat_actions ?u"
    using s targets W(1) by (auto simp: majority_size_def cluster_size_def)
  have reqs: "distinct (map rv_target (pending_request_vote_actions s))" "ms ! l \<notin> rv_target ` set (pending_request_vote_actions s)"
      "\<forall>a \<in> set (pending_request_vote_actions s). rv_request a = vote_request_from (ms ! l) ?T ?L"
    using s va targets others(2) by auto
  have "current_term (cs[l := ?u] ! i) \<le> ?T \<and>
      (ms ! i \<in> W \<longrightarrow> position_of (log_entries (cs[l := ?u] ! i)) \<le> position_of ?L) \<and>
      (ms ! i \<in> rv_target ` set (pending_request_vote_actions s) \<longrightarrow> current_term (cs[l := ?u] ! i) < ?T)"
    if "i < length cs" for i
    using nodes [OF that] reqs(2) by blast
  then show "campaigning l ms ?L ?T W (pending_request_vote_actions s) (cs[l := ?u])"
    using roles reqs sel l unfolding campaigning_def at by simp
qed

text \<open>With every request delivered, a majority has made the candidate the leader.\<close>

lemma campaign_won:
  assumes lib: "iterates_once lib" and t: "tracked lib ms lo hi B w cs" and P: "campaigning l ms L T W [] cs"
    and W: "length ms div 2 < card W"
  shows "leading l L T cs" and "pending_append_entries_actions (cs ! l) = heartbeat_actions (cs ! l)"
proof -
  have l: "l < length cs" using P by (simp add: campaigning_def)
  note sl = tracked_sound [OF lib t l]
  have "role (cs ! l) \<noteq> Candidate"
  proof
    assume c: "role (cs ! l) = Candidate"
    then have v: "W \<subseteq> votes_received (cs ! l)" "card (votes_received (cs ! l)) < majority_size (cs ! l)"
      using P by (simp_all add: campaigning_def)
    have "finite (votes_received (cs ! l))"
      using soundD(1) [OF sl(1)] c by (auto simp: core_ok_defs intro: finite_subset)
    from card_mono [OF this v(1)] v(2) W sl(3) show False by (simp add: majority_size_def cluster_size_def)
  qed
  then show "leading l L T cs" "pending_append_entries_actions (cs ! l) = heartbeat_actions (cs ! l)"
    using P by (auto simp: campaigning_def leading_def list_all_length)
qed

text \<open>The nodes whose log is not newer than that of the node at \<open>l\<close>.\<close>

definition supporters :: "nat \<Rightarrow> 'g cluster \<Rightarrow> 'g raft_core list" where
  "supporters l cs = filter (\<lambda>c. position_of (log_entries c) \<le> position_of (log_entries (cs ! l))) cs"

lemma supporters_ids:
  assumes t: "tracked lib ms lo hi B w cs"
  shows "card (node_id ` set (supporters l cs)) = length (supporters l cs)" and "node_id ` set (supporters l cs) \<subseteq> set ms"
    and "i < length cs \<Longrightarrow> ms ! i \<in> node_id ` set (supporters l cs) \<Longrightarrow>
      position_of (log_entries (cs ! i)) \<le> position_of (log_entries (cs ! l))"
proof -
  have d: "distinct (map node_id cs)" using tracked_distinct [OF t] tracked_ids [OF t] by simp
  then have "distinct (map node_id (supporters l cs))" unfolding supporters_def by (rule distinct_map_filter)
  from distinct_card [OF this] show "card (node_id ` set (supporters l cs)) = length (supporters l cs)" by simp
  show "node_id ` set (supporters l cs) \<subseteq> set ms" unfolding tracked_ids [OF t, symmetric] by (auto simp: supporters_def)
  show "position_of (log_entries (cs ! i)) \<le> position_of (log_entries (cs ! l))"
    if i: "i < length cs" "ms ! i \<in> node_id ` set (supporters l cs)"
  proof -
    obtain c where c: "c \<in> set cs" "node_id c = node_id (cs ! i)" "position_of (log_entries c) \<le> position_of (log_entries (cs ! l))"
      using i(2) tracked_id [OF t i(1)] by (auto simp: supporters_def)
    have "inj_on node_id (set cs)" using d by (simp add: distinct_map)
    then have "c = cs ! i" using c(1,2) i(1) by (auto dest: inj_onD)
    then show ?thesis using c(3) by simp
  qed
qed

lemma election_won:
  assumes lib: "iterates_once lib" and B: "2 * B \<le> log_max_size" and t: "tracked lib ms lo hi B w cs" and l: "l < length cs"
    and T: "current_term (cs ! l) \<noteq> - 1" "list_all (\<lambda>c. current_term c \<le> current_term (cs ! l)) cs"
    and W: "length cs div 2 < length (supporters l cs)"
  obtains k w' cs' where "cluster_start_election lib (ms ! l) cs = (Inr k, cs')" and "Suc k = length cs"
    and "follows lib ms lo hi B w w' cs'" and "leading l (log_entries (cs ! l)) (current_term (cs ! l) + 1) cs'"
proof -
  let ?L = "log_entries (cs ! l)" and ?T = "current_term (cs ! l) + 1"
  let ?W = "node_id ` set (supporters l cs)" and ?s = "final (start_election lib (cs ! l))"
  have started: "start_election lib (cs ! l) = (Inr (), ?s)"
    using small_start_election(2) [OF tracked_sound(1) [OF lib t l] T(1) tracked_small [OF t l]] by (metis prod.collapse)
  have start: "campaigning l ms ?L ?T ?W (pending_request_vote_actions s) (cs[l := s\<lparr>pending_request_vote_actions := []\<rparr>])"
      "Suc (length (pending_request_vote_actions s)) = length cs" if "start_election lib (cs ! l) = (Inr (), s)" for s
    by (rule campaign_start [OF lib t l T supporters_ids(2,3) [OF t] that]; assumption)+
  obtain k w1 cs1 where f: "follows lib ms lo hi B w w1 cs1" and P: "campaigning l ms ?L ?T ?W [] cs1"
    and k: "k = length (pending_request_vote_actions ?s)"
    and run: "cluster_start_election lib (ms ! l) cs = (if role (cs1 ! l) = Leader
        then bind_op (deliver_append_entries_actions lib (ms ! l)) (\<lambda>_. return_op k) cs1 else (Inr k, cs1))"
    by (rule votes_of_election_follow [where P = "campaigning l ms ?L ?T ?W", OF lib campaigning_delivery [OF lib] t l T(1) start(1)])
  note t1 = followsD [OF f]
  have "length ms div 2 < card ?W" using W supporters_ids(1) [OF t] tracked_length [OF t] by simp
  note won = campaign_won [OF lib t1 P this]
  have l1: "l < length cs1" "role (cs1 ! l) = Leader" using won(1) by (simp_all add: leading_def)
  have "B \<le> log_max_size" "False \<longrightarrow> settled (cs1 ! l)" using B by simp_all
  note first = in_round_start [OF lib t1 won(1) this(1) leader_within_reach [OF lib t1 won(1)] this(2)]
  obtain n w2 cs2 where d: "deliver_append_entries_actions lib (ms ! l) cs1 = (Inr n, cs2)"
    and f2: "follows lib ms lo hi B w1 w2 cs2" and Q: "in_round False l ms ?L ?T (length ?L) [] cs2"
    by (rule append_entries_follow [where P = "in_round False l ms ?L ?T (length ?L)",
        OF lib B in_round_delivery [OF lib B] t1 l1(1) first [folded won(2)]])
  have "cluster_start_election lib (ms ! l) cs = (Inr k, cs2)" using run d l1(2) by (simp add: bind_op_def)
  moreover have "Suc k = length cs" using start(2) [OF started] k by simp
  moreover have "leading l ?L ?T cs2" using Q by (simp add: in_round_def)
  ultimately show thesis using that follows_trans [OF f f2] by blast
qed

section \<open>A command\<close>

text \<open>The leader appends it to its log, and has then committed all that it may.\<close>

lemma leader_append:
  assumes lib: "iterates_once lib" and B: "B \<le> log_max_size" and t: "tracked lib ms lo hi B w cs" and lead: "leading l L T cs"
    and len: "length L < B" and cmd: "cmd \<noteq> []" "is_key_value_command cmd \<Longrightarrow> well_formed_command cmd"
  obtains s w' where "append_command cmd (cs ! l) = (Inr (of_nat (Suc (length L))), s)"
    and "follows lib ms lo hi B w w' (cs[l := s])" and "leading l (L @ [\<lparr>entry_term = T, command = cmd\<rparr>]) T (cs[l := s])"
    and "settled s"
proof -
  have l: "l < length cs" "role (cs ! l) = Leader" "log_entries (cs ! l) = L" "current_term (cs ! l) = T"
    using lead by (simp_all add: leading_def)
  let ?s1 = "(cs ! l)\<lparr>log_entries := L @ [\<lparr>entry_term = T, command = cmd\<rparr>]\<rparr>"
  have room: "length (log_entries (cs ! l)) < log_max_size" using len B l(3) by simp
  obtain c :: u64 and s where run: "append_command cmd (cs ! l) = (Inr (of_nat (Suc (length L))), s)"
    and v: "view s = (view ?s1)\<lparr>v_commit := unat c\<rparr>" and set: "settled s"
    by (rule append_command_view [OF tracked_sound(1) [OF lib t l(1)] l(2) room cmd, unfolded l(3,4)])
  have final: "final (call lib (Append_Command cmd) (cs ! l)) = s" by (simp add: run)
  have "local_call (Append_Command cmd)" "within_bounds (Append_Command cmd) (cs ! l)"
    using cmd(2) room by (simp_all add: within_bounds_def)
  then obtain w' where f: "follows lib ms lo hi B w w' (cs[l := s])"
    using follows_local [OF lib t l(1), of "Append_Command cmd"] final len l(3) by auto
  have "role s = Leader" "log_entries s = L @ [\<lparr>entry_term = T, command = cmd\<rparr>]" "current_term s = T"
    using arg_cong [OF v, of v_role] arg_cong [OF v, of v_log] arg_cong [OF v, of v_term] l by simp_all
  then have "leading l (L @ [\<lparr>entry_term = T, command = cmd\<rparr>]) T (cs[l := s])"
    using lead by (auto simp: leading_def list_all_length nth_list_update)
  then show thesis using that run f set by blast
qed

text \<open>Once every follower has confirmed a log that ends in the leader's own term, all of it is committed.\<close>

lemma leader_has_committed:
  assumes lib: "iterates_once lib" and t: "tracked lib ms lo hi B w cs" and lead: "leading l L T cs"
    and all: "all_confirmed (cs ! l) cs" and set: "settled (cs ! l)" and L: "L \<noteq> []" "entry_term (last L) = T"
  shows "unat (commit_index (cs ! l)) = length L"
proof -
  have l: "l < length cs" "role (cs ! l) = Leader" "log_entries (cs ! l) = L" "current_term (cs ! l) = T"
    using lead by (simp_all add: leading_def)
  note ok = soundD(1) [OF tracked_sound(1) [OF lib t l(1)]]
  have "replicas (cs ! l) (length L) = set (cluster_members (cs ! l))"
    using all others_are_nodes [OF lib t l(1)] l(3) ok
    by (auto simp: replicas_def others_def core_ok_def config_ok_def)
  then have "card (replicas (cs ! l) (length L)) = cluster_size (cs ! l)"
    using ok by (simp add: core_ok_def config_ok_def cluster_size_def distinct_card)
  moreover have "0 < cluster_size (cs ! l)" using ok by (auto simp: core_ok_def config_ok_def cluster_size_def)
  ultimately have "majority_size (cs ! l) \<le> card (replicas (cs ! l) (length L))" by (simp add: majority_size_def)
  moreover have "term_at L (length L) = T" using L by (simp add: term_at_def last_conv_nth)
  moreover have "\<not> committable (cs ! l) (length L)" using set by (simp add: settled_def)
  ultimately have "\<not> unat (commit_index (cs ! l)) < length L" using l by (simp add: committable_def)
  then show ?thesis using core_ok_commit [OF ok] l(3) by simp
qed

text \<open>A follower's log does not go beyond such a log.\<close>

lemma follower_log_exact:
  assumes lib: "iterates_once lib" and t: "tracked lib ms lo hi B w cs" and lead: "leading l L T cs" and j: "j < length cs"
    and L: "L \<noteq> []" "entry_term (last L) = T" and pre: "prefix L (log_entries (cs ! j))"
  shows "log_entries (cs ! j) = L"
proof -
  let ?F = "log_entries (cs ! j)" and ?i = "length (log_entries (cs ! j)) - 1"
  have l: "l < length cs" "role (cs ! l) = Leader" "log_entries (cs ! l) = L" "current_term (cs ! l) = T"
    and le: "current_term (cs ! j) \<le> T"
    using lead j by (simp_all add: leading_def list_all_length)
  obtain \<sigma> where sim: "simulates ms w \<sigma>" and cm: "\<forall>k < length cs. core_matches ms \<sigma> (ms ! k) (cs ! k)"
    by (rule tracked_simulated [OF lib t])
  have b: "basic_inv (majority_of ms) \<sigma>" using simulates_inv [OF sim] by (simp add: protocol_inv_def)
  have vj: "node_at \<sigma> (ms ! j) = view (cs ! j)" and vl: "node_at \<sigma> (ms ! l) = view (cs ! l)"
    using cm_view [OF cm [rule_format, OF j]] cm_view [OF cm [rule_format, OF l(1)]] .
  have "h_log \<sigma> T = L" using leader_log [OF b, of "ms ! l" T] vl l by simp
  obtain G where G: "?F = L @ G" using pre by (auto elim: prefixE)
  then have F: "?F \<noteq> []" "?i < length ?F" using L(1) by simp_all
  have v: "valid_log (current_term (cs ! j)) ?F" by (rule core_ok_valid_log [OF soundD(1) [OF tracked_sound(1) [OF lib t j]]])
  have "entry_term (?F ! ?i) \<le> T" using v F(2) le by (auto simp: valid_log_def dest!: nth_mem)
  moreover have "T \<le> entry_term (?F ! ?i)"
  proof -
    have s: "sorted (map entry_term ?F)" using v by (simp add: valid_log_def log_terms_def)
    have len: "length L - 1 \<le> ?i" "length L - 1 < length ?F" using G L(1) by (simp_all, cases L, simp_all)
    have "?F ! (length L - 1) = last L" using G L(1) by (simp add: nth_append last_conv_nth)
    then show ?thesis using sorted_nth_mono [OF s, of "length L - 1" ?i] len F(2) L(2) by simp
  qed
  ultimately have "entry_term (?F ! ?i) = T" by simp
  moreover have "good_log \<sigma> ?F" using node_good [OF b, of "ms ! j"] vj by simp
  then have "take (Suc ?i) ?F = take (Suc ?i) (h_log \<sigma> (entry_term (?F ! ?i)))"
    using F(2) unfolding good_log_def by blast
  ultimately have "?F = take (length ?F) L" using F(1) \<open>h_log \<sigma> T = L\<close> by simp
  then have "length ?F \<le> length L" by (metis length_take min.cobounded1)
  then show ?thesis using G by simp
qed

text \<open>
  The leader at \<open>l\<close> has committed its whole log, which every node has; a heartbeat takes the commit
  index to the targets of the requests \<open>as\<close> that are still to be delivered.
\<close>

definition spreading ::
    "nat \<Rightarrow> string list \<Rightarrow> log_entry list \<Rightarrow> u64 \<Rightarrow> append_entries_action list \<Rightarrow> 'g cluster \<Rightarrow> bool" where
  "spreading l ms L T as cs \<longleftrightarrow> leading l L T cs \<and>
     (\<forall>a \<in> set as. (\<exists>p. request_for L p (ae_request a)) \<and> ae_term (ae_request a) = T \<and>
        ae_leader_id (ae_request a) = ms ! l \<and> unat (leader_commit (ae_request a)) = length L) \<and>
     (\<forall>i < length cs. log_entries (cs ! i) = L \<and>
        (ms ! i \<in> ae_target ` set as \<or> unat (commit_index (cs ! i)) = length L))"

lemma spreading_delivery:
  assumes lib: "iterates_once lib" and B: "2 * B \<le> log_max_size"
    and P: "spreading l ms L T (a # as) cs" and t: "tracked lib ms lo hi B w cs" and j: "j < length cs" "j \<noteq> l"
    and a: "ae_target a = ms ! j" and run: "handle_append_entries lib (ae_request a) (cs ! j) = (Inr r, s)"
    and rec: "receive_append_entries_response (ms ! j) r (cs ! l) = (Inr (), u)"
    and t': "tracked lib ms lo hi B w' (cs[j := s, l := u])"
  shows "spreading l ms L T as (cs[j := s, l := u])"
proof -
  obtain p where lead: "leading l L T cs" and q: "request_for L p (ae_request a)" "ae_term (ae_request a) = T"
      "ae_leader_id (ae_request a) = ms ! l" "unat (leader_commit (ae_request a)) = length L" and log: "log_entries (cs ! j) = L"
    using P j(1) by (auto simp: spreading_def)
  have l: "l < length cs" "role (cs ! l) = Leader" "log_entries (cs ! l) = L" "current_term (cs ! l) = T"
    using lead by (simp_all add: leading_def)
  note ans = follower_answers [OF lib t lead j q(1-3) B run]
  note sl = tracked_sound(1) [OF lib t l(1)]
  have ids: "ms ! j \<noteq> ms ! l"
    using tracked_distinct [OF t] tracked_length [OF t] j l(1) by (simp add: nth_eq_iff_index_eq)
  then have o: "ms ! j \<in> set (others (cs ! l))"
    using tracked_sound(2) [OF lib t l(1)] tracked_member [OF t j(1)] tracked_id [OF t l(1)] by (simp add: others_def)
  have cnt: "role u = Leader \<and> log_entries u = L \<and> current_term u = T"
    using leader_counts [OF sl l(2) o _ _ rec, unfolded l(3,4), OF ans(1) ans(3)] by blast
  have "advances (cs ! l) u"
    using call_advances(2) [OF soundD(1) [OF sl], of "Receive_Append_Entries_Response (ms ! j) r" undefined "Inr ()" u] rec
    by (simp add: within_bounds_def)
  moreover have ok': "unat (commit_index (cs[j := s, l := u] ! i)) \<le> length (log_entries (cs[j := s, l := u] ! i))"
    if "i < length cs" for i
    using core_ok_commit [OF soundD(1) [OF tracked_sound(1) [OF lib t', of i]]] that by simp
  ultimately have cu: "unat (commit_index (cs ! l)) = length L \<longrightarrow> unat (commit_index u) = length L"
    using ok' [OF l(1)] cnt l(1) by (auto simp: advances_def word_le_nat_alt)
  have at: "cs[j := s, l := u] ! l = u" "cs[j := s, l := u] ! j = s" using l(1) j by simp_all
  have cj: "log_entries s = L" "unat (commit_index s) = length L"
    using ans(5) [OF log] q(4) ok' [OF j(1)] at(2) by simp_all
  have "list_all (\<lambda>c. current_term c \<le> T) (cs[j := s, l := u])"
    using lead ans(2) cnt j(1) l(1) by (auto simp: leading_def list_all_length nth_list_update)
  then have "leading l L T (cs[j := s, l := u])" using cnt l(1) by (simp add: leading_def)
  moreover have "log_entries (cs[j := s, l := u] ! i) = L \<and>
      (ms ! i \<in> ae_target ` set as \<or> unat (commit_index (cs[j := s, l := u] ! i)) = length L)" if i: "i < length cs" for i
  proof -
    consider "i = l" | "i = j" | "i \<noteq> l" "i \<noteq> j" by blast
    then show ?thesis
    proof cases
      case 1
      then show ?thesis using P a l(1) at(1) cnt cu ids by (auto simp: spreading_def)
    next
      case 2
      then show ?thesis using at(2) cj by simp
    next
      case 3
      have "ms ! i \<noteq> ms ! j"
        using tracked_distinct [OF t] tracked_length [OF t] j(1) i 3(2) by (simp add: nth_eq_iff_index_eq)
      then show ?thesis using P a i 3 by (auto simp: spreading_def)
    qed
  qed
  ultimately show ?thesis using P unfolding spreading_def by simp
qed

lemma commit_spreads:
  assumes lib: "iterates_once lib" and B: "2 * B \<le> log_max_size" and t: "tracked lib ms lo hi B w cs" and lead: "leading l L T cs"
    and c: "unat (commit_index (cs ! l)) = length L" and logs: "\<And>i. i < length cs \<Longrightarrow> log_entries (cs ! i) = L"
  obtains k w' cs' where "send_heartbeats lib (ms ! l) cs = (Inr k, cs')" and "follows lib ms lo hi B w w' cs'"
    and "\<forall>i < length cs'. log_entries (cs' ! i) = L \<and> unat (commit_index (cs' ! i)) = length L"
proof -
  let ?s = "cs ! l" and ?t = "(cs ! l)\<lparr>pending_append_entries_actions := []\<rparr>"
  have l: "l < length cs" "role ?s = Leader" "log_entries ?s = L" "current_term ?s = T"
    using lead by (simp_all add: leading_def)
  have "B \<le> log_max_size" "False \<longrightarrow> settled ?s" using B by simp_all
  note round = in_round_start [OF lib t lead this(1) leader_within_reach [OF lib t lead] this(2)]
  have at: "cs[l := ?t] ! i = (if i = l then ?t else cs ! i)" for i using l(1) by simp
  have "leader_commit (ae_request a) = commit_index ?s" if "a \<in> set (heartbeat_actions ?s)" for a
    using that by (auto simp: heartbeat_actions_def replication_request_def)
  moreover have "ms ! i \<in> ae_target ` set (heartbeat_actions ?s)" if "i < length cs" "i \<noteq> l" for i
  proof -
    have "ms ! i \<noteq> ms ! l"
      using tracked_distinct [OF t] tracked_length [OF t] that l(1) by (simp add: nth_eq_iff_index_eq)
    then have "ms ! i \<in> set (others ?s)"
      using tracked_sound(2) [OF lib t l(1)] tracked_member [OF t that(1)] tracked_id [OF t l(1)] by (simp add: others_def)
    then show ?thesis by (simp add: heartbeat_actions_def image_image)
  qed
  ultimately have start: "spreading l ms L T (heartbeat_actions ?s) (cs[l := ?t])"
    using round logs c l(3) unfolding spreading_def in_round_def at by auto
  obtain k w' cs' where run: "send_heartbeats lib (ms ! l) cs = (Inr k, cs')" and f: "follows lib ms lo hi B w w' cs'"
    and P: "spreading l ms L T [] cs'"
    by (rule tracked_send_heartbeats [where P = "spreading l ms L T", OF lib B spreading_delivery [OF lib B] t l(1,2) start])
  show thesis
    by (rule that [OF run f]) (use P in \<open>simp add: spreading_def\<close>)
qed

section \<open>Properties\<close>

text \<open>
  C31: An election that can be won is won.  In an in-memory cluster, after its own
  operations and local calls on its nodes in any order (\<open>cluster_run\<close>), a node in the latest term whose log is at least as up to date as the logs of a majority becomes the
  leader of the next term: \<^verbatim>\<open>start_election\<close> returns the number of the other nodes, all of which it
  has asked, the new leader has kept its log, and no node is in a later term.
\<close>

theorem election_succeeds:
  assumes "iterates_once lib" and "2 * B \<le> log_max_size" and "cluster_run lib ids lo hi seed f B cs"
    and "l < length cs" and "current_term (cs ! l) \<noteq> - 1" and "list_all (\<lambda>c. current_term c \<le> current_term (cs ! l)) cs"
    and "length cs div 2 < length (filter (\<lambda>c. position_of (log_entries c) \<le> position_of (log_entries (cs ! l))) cs)"
  shows "\<exists>cs'. cluster_start_election lib (node_id (cs ! l)) cs = (Inr (length cs - 1), cs') \<and>
    map node_id cs' = map node_id cs \<and> role (cs' ! l) = Leader \<and> log_entries (cs' ! l) = log_entries (cs ! l) \<and>
    current_term (cs' ! l) = current_term (cs ! l) + 1 \<and> list_all (\<lambda>c. current_term c \<le> current_term (cs' ! l)) cs'"
proof -
  obtain w where t: "tracked lib ids lo hi B w cs" using cluster_run_tracked [OF assms(1-3)] by blast
  obtain k w' cs' where "cluster_start_election lib (ids ! l) cs = (Inr k, cs')" "Suc k = length cs"
      and f: "follows lib ids lo hi B w w' cs'" and "leading l (log_entries (cs ! l)) (current_term (cs ! l) + 1) cs'"
    by (rule election_won [OF assms(1,2) t assms(4-6) assms(7) [folded supporters_def]])
  then show ?thesis
    using tracked_ids [OF followsD [OF f]] tracked_ids [OF t] tracked_id [OF t assms(4)]
    by (intro exI [of _ cs']) (auto simp: leading_def)
qed

text \<open>The node \<^verbatim>\<open>b\<close>, which has not seen the write of the leader \<^verbatim>\<open>a\<close>, and \<^verbatim>\<open>c\<close> are a majority.\<close>

theorem election_succeeds_witness:
  "\<exists>cs'. cluster_start_election sample_lib ''b'' cluster_2 = (Inr 2, cs') \<and>
     role (cs' ! 1) = Leader \<and> current_term (cs' ! 1) = current_term (cluster_2 ! 1) + 1"
proof -
  have B: "2 * 10 \<le> log_max_size" by (simp add: log_max_size_def)
  have b: "node_id (cluster_2 ! 1) = ''b''" "current_term (cluster_2 ! 1) \<noteq> - 1"
      "list_all (\<lambda>c. current_term c \<le> current_term (cluster_2 ! 1)) cluster_2"
      "length cluster_2 div 2 < length (filter (\<lambda>c. position_of (log_entries c) \<le> position_of (log_entries (cluster_2 ! 1))) cluster_2)"
    by code_simp+
  show ?thesis
    using election_succeeds [OF sample_lib_ok(1) B cluster_runs(1) _ b(2-4)] b(1) by (auto simp: cluster_2_leader)
qed

text \<open>
  C30: A write reaches every node.  In an in-memory cluster, after its own operations and
  local calls on its nodes in any order (\<open>cluster_run\<close>; no made-up messages), let a node in the latest term be the leader, and give it the command of a put or a removal of a valid key:
  \<^verbatim>\<open>append_command\<close> returns the index after its log, \<^verbatim>\<open>replicate_until_caught_up\<close> with enough rounds
  returns true, and after one more heartbeat every node has the leader's log with the command at
  its end, has committed all of it, and has a store that differs from the replay of the earlier log by
  the effect of the command.
\<close>

theorem write_reaches_every_node:
  assumes "iterates_once lib" and "2 * B \<le> log_max_size" and "cluster_run lib ids lo hi seed f B cs"
    and "l < length cs" and "role (cs ! l) = Leader" and "list_all (\<lambda>c. current_term c \<le> current_term (cs ! l)) cs"
    and "length (log_entries (cs ! l)) < B" and "Suc (length (log_entries (cs ! l))) < unat max_rounds"
    and "valid_key (operation_key p)"
  shows "\<exists>cs1 cs2 k cs3 st.
    on_node l (append_command (render p)) cs = (Inr (of_nat (Suc (length (log_entries (cs ! l))))), cs1) \<and>
    replicate_until_caught_up lib (node_id (cs ! l)) max_rounds cs1 = (Inr True, cs2) \<and>
    send_heartbeats lib (node_id (cs ! l)) cs2 = (Inr k, cs3) \<and> map node_id cs3 = map node_id cs \<and>
    kv_replay (map command (log_entries (cs ! l))) = Inr st \<and>
    list_all (\<lambda>c. log_entries c = log_entries (cs ! l) @ [\<lparr>entry_term = current_term (cs ! l), command = render p\<rparr>] \<and>
      unat (commit_index c) = Suc (length (log_entries (cs ! l))) \<and> key_value_store c = effect p st) cs3"
proof -
  let ?L = "log_entries (cs ! l)" and ?T = "current_term (cs ! l)" and ?c = "render p"
  let ?M = "?L @ [\<lparr>entry_term = ?T, command = ?c\<rparr>]"
  obtain w where t: "tracked lib ids lo hi B w cs" using cluster_run_tracked [OF assms(1-3)] by blast
  have lead: "leading l ?L ?T cs" and B: "B \<le> log_max_size" using assms(2,4-6) by (simp_all add: leading_def)
  have c: "?c \<noteq> []" "is_key_value_command ?c \<Longrightarrow> well_formed_command ?c"
    using assms(9) by (cases p, simp_all) (auto simp: well_formed_command_def)
  obtain s w1 where run1: "append_command ?c (cs ! l) = (Inr (of_nat (Suc (length ?L))), s)"
    and f1: "follows lib ids lo hi B w w1 (cs[l := s])" and lead1: "leading l ?M ?T (cs[l := s])" and set: "settled s"
    by (rule leader_append [OF assms(1) B t lead assms(7) c])
  have n: "length ?M < unat max_rounds" and "True \<longrightarrow> settled (cs[l := s] ! l)" using assms(4,8) set by simp_all
  from catch_up [OF assms(1,2) followsD [OF f1] lead1 this] obtain w2 cs2 where
    run2: "replicate_until_caught_up lib (ids ! l) max_rounds (cs[l := s]) = (Inr True, cs2)"
    and f2: "follows lib ids lo hi B w1 w2 cs2" and lead2: "leading l ?M ?T cs2"
    and all2: "all_confirmed (cs2 ! l) cs2" and set2: "settled (cs2 ! l)" by blast
  note t2 = followsD [OF f2]
  have M: "?M \<noteq> []" "entry_term (last ?M) = ?T" by simp_all
  have logs: "log_entries (cs2 ! i) = ?M" if "i < length cs2" for i
    using follower_log_exact [OF assms(1) t2 lead2 that M] confirmed_holds_log [OF assms(1) t2 lead2 all2] that
    by (simp add: list_all_length)
  obtain k w3 cs3 where run3: "send_heartbeats lib (ids ! l) cs2 = (Inr k, cs3)" and f3: "follows lib ids lo hi B w2 w3 cs3"
    and c3: "\<forall>i < length cs3. log_entries (cs3 ! i) = ?M \<and> unat (commit_index (cs3 ! i)) = length ?M"
    by (rule commit_spreads [OF assms(1,2) t2 lead2 leader_has_committed [OF assms(1) t2 lead2 all2 set2 M] logs])
  note t3 = followsD [OF f3]
  obtain st where st: "kv_replay (map command ?L) = Inr st"
    using soundD(3) [OF tracked_sound(1) [OF assms(1) t assms(4)]] kv.replay_returns_iff [of "map command ?L"]
    by (auto simp: commands_ok_def)
  have "kv_replay (map command ?M) = Inr (effect p st)"
    using kv.replay_snoc [OF st, of ?c] is_key_value_command_render [of p] kv_apply_render [OF assms(9)] by simp
  then have "key_value_store (cs3 ! i) = effect p st" if "i < length cs3" for i
    using all_applied_replay(2) [OF soundD(1,5) [OF tracked_sound(1) [OF assms(1) t3 that]]] c3 that by simp
  then have "list_all (\<lambda>c. log_entries c = ?M \<and> unat (commit_index c) = Suc (length ?L) \<and> key_value_store c = effect p st) cs3"
    using c3 by (simp add: list_all_length)
  moreover have "on_node l (append_command ?c) cs = (Inr (of_nat (Suc (length ?L))), cs[l := s])"
    by (rule on_node_eq) (rule run1)
  ultimately show ?thesis
    using run2 run3 st tracked_ids [OF t3] tracked_ids [OF t] tracked_id [OF t assms(4)]
    by (intro exI [of _ "cs[l := s]"] exI [of _ cs2] exI [of _ k] exI [of _ cs3] exI [of _ st] conjI) simp_all
qed

theorem write_reaches_every_node_witness:
  "\<exists>cs1 cs2 k cs3. on_node 0 (append_command ''SET x 1'') cluster_1 = (Inr 1, cs1) \<and>
     replicate_until_caught_up sample_lib ''a'' 2 cs1 = (Inr True, cs2) \<and>
     send_heartbeats sample_lib ''a'' cs2 = (Inr k, cs3) \<and> list_all (\<lambda>c. kv_get ''x'' (key_value_store c) = Some ''1'') cs3"
proof -
  have B: "2 * 10 \<le> log_max_size" by (simp add: log_max_size_def)
  have a: "node_id (cluster_1 ! 0) = ''a''" "list_all (\<lambda>c. current_term c \<le> current_term (cluster_1 ! 0)) cluster_1"
    by code_simp+
  have k: "valid_key (operation_key (Put ''x'' ''1''))" by (simp add: valid_key_def)
  let ?p = "Put ''x'' ''1''"
  have "\<exists>cs1 cs2 k cs3 st. on_node 0 (append_command (render ?p)) cluster_1 = (Inr 1, cs1) \<and>
     replicate_until_caught_up sample_lib ''a'' 2 cs1 = (Inr True, cs2) \<and>
     send_heartbeats sample_lib ''a'' cs2 = (Inr k, cs3) \<and> list_all (\<lambda>c. key_value_store c = effect ?p st) cs3"
    using write_reaches_every_node [OF sample_lib_ok(1) B cluster_runs(3) _ _ a(2) _ _ k, of 2] a(1)
    by (simp add: cluster_1_leader list_all_iff) blast
  then show ?thesis by (auto simp: kv_get_def list_all_iff)
qed

end
