(* ===== verification/Client_Main.thy ===== *)
theory Client_Main
  imports Raft_Service
begin

text \<open>
  \<^verbatim>\<open>src/apps/client_main.cpp\<close>: the command-line client, with its arguments, its exit code and the
  text it prints.  The stub that gRPC generates is a parameter: given an address, the deadline and
  a request it returns a status and a response and changes whatever is outside the client.
\<close>

section \<open>The process\<close>

record 'w client_stub =
  stub_set :: "string \<Rightarrow> nat \<Rightarrow> rpc_set_request \<Rightarrow> 'w \<Rightarrow> (rpc_status \<times> rpc_set_response) \<times> 'w"
  stub_get :: "string \<Rightarrow> nat \<Rightarrow> rpc_get_request \<Rightarrow> 'w \<Rightarrow> (rpc_status \<times> rpc_get_response) \<times> 'w"
  stub_delete :: "string \<Rightarrow> nat \<Rightarrow> rpc_delete_request \<Rightarrow> 'w \<Rightarrow> (rpc_status \<times> rpc_delete_response) \<times> 'w"
  stub_get_status :: "string \<Rightarrow> nat \<Rightarrow> 'w \<Rightarrow> (rpc_status \<times> rpc_get_status_response) \<times> 'w"

text \<open>What is outside the process, and what it has written to \<^verbatim>\<open>cout\<close> and to \<^verbatim>\<open>cerr\<close>.\<close>

record 'w console =
  net :: 'w
  out :: string
  err :: string

definition print_out :: "string \<Rightarrow> 'w console \<Rightarrow> 'w console" where
  "print_out t c = c\<lparr>out := out c @ t\<rparr>"

definition print_err :: "string \<Rightarrow> 'w console \<Rightarrow> 'w console" where
  "print_err t c = c\<lparr>err := err c @ t\<rparr>"

text \<open>A call over the network.\<close>

definition remote :: "('w \<Rightarrow> 'a \<times> 'w) \<Rightarrow> 'w console \<Rightarrow> 'a \<times> 'w console" where
  "remote f c = (case f (net c) of (a, w) \<Rightarrow> (a, c\<lparr>net := w\<rparr>))"

definition cluster_addresses :: "string list" where
  "cluster_addresses = [''127.0.0.1:50051'', ''127.0.0.1:50052'', ''127.0.0.1:50053'']"

definition client_deadline_ms :: nat where
  "client_deadline_ms = 500"

definition should_try_next_node :: "rpc_status \<Rightarrow> bool" where
  "should_try_next_node status \<longleftrightarrow>
     error_code status = FAILED_PRECONDITION \<or> error_code status = UNAVAILABLE \<or>
     error_code status = DEADLINE_EXCEEDED"

section \<open>The operations\<close>

text \<open>The loop of \<^verbatim>\<open>run_set\<close> over the addresses still to try; the result is the exit code.\<close>

fun set_at :: "'w client_stub \<Rightarrow> string \<Rightarrow> string \<Rightarrow> string list \<Rightarrow> 'w console \<Rightarrow> int \<times> 'w console" where
  "set_at st key value_text [] c = (1, print_err (''SET failed: no reachable leader was found'' @ [newline]) c)"
| "set_at st key value_text (a # as) c =
     (case remote (stub_set st a client_deadline_ms \<lparr>set_key = key, set_value = value_text\<rparr>) c of
        ((status, response), c1) \<Rightarrow>
          if status_ok status then
            (0, print_out (''SET accepted by leader '' @ a @ '' at log index '' @
                  dec (unat (set_log_index response)) @ [newline]) c1)
          else if \<not> should_try_next_node status then
            (1, print_err (''SET failed: '' @ error_message status @ [newline]) c1)
          else set_at st key value_text as c1)"

definition run_set :: "'w client_stub \<Rightarrow> string \<Rightarrow> string \<Rightarrow> 'w console \<Rightarrow> int \<times> 'w console" where
  "run_set st key value_text = set_at st key value_text cluster_addresses"

fun get_at :: "'w client_stub \<Rightarrow> string \<Rightarrow> string list \<Rightarrow> 'w console \<Rightarrow> int \<times> 'w console" where
  "get_at st key [] c = (1, print_err (''GET failed: no reachable leader was found'' @ [newline]) c)"
| "get_at st key (a # as) c =
     (case remote (stub_get st a client_deadline_ms \<lparr>get_key = key\<rparr>) c of
        ((status, response), c1) \<Rightarrow>
          if status_ok status then
            (0, print_out (if get_found response then key @ '' = '' @ get_value response @ [newline]
                           else key @ '' was not found'' @ [newline]) c1)
          else if \<not> should_try_next_node status then
            (1, print_err (''GET failed: '' @ error_message status @ [newline]) c1)
          else get_at st key as c1)"

definition run_get :: "'w client_stub \<Rightarrow> string \<Rightarrow> 'w console \<Rightarrow> int \<times> 'w console" where
  "run_get st key = get_at st key cluster_addresses"

fun delete_at :: "'w client_stub \<Rightarrow> string \<Rightarrow> string list \<Rightarrow> 'w console \<Rightarrow> int \<times> 'w console" where
  "delete_at st key [] c = (1, print_err (''DELETE failed: no reachable leader was found'' @ [newline]) c)"
| "delete_at st key (a # as) c =
     (case remote (stub_delete st a client_deadline_ms \<lparr>delete_key = key\<rparr>) c of
        ((status, response), c1) \<Rightarrow>
          if status_ok status then
            (0, print_out (''DELETE accepted by leader '' @ a @ '' at log index '' @
                  dec (unat (delete_log_index response)) @ [newline]) c1)
          else if \<not> should_try_next_node status then
            (1, print_err (''DELETE failed: '' @ error_message status @ [newline]) c1)
          else delete_at st key as c1)"

definition run_delete :: "'w client_stub \<Rightarrow> string \<Rightarrow> 'w console \<Rightarrow> int \<times> 'w console" where
  "run_delete st key = delete_at st key cluster_addresses"

definition status_line :: "string \<Rightarrow> rpc_get_status_response \<Rightarrow> string" where
  "status_line a response =
     (let leader = (if gs_leader_id response = [] then ''unknown'' else gs_leader_id response)
      in a @ '' | '' @ gs_node_id response @ '' | '' @ gs_role response @
         '' | term='' @ dec (unat (gs_current_term response)) @ '' | leader='' @ leader @
         '' | commit='' @ dec (unat (gs_commit_index response)) @
         '' | log='' @ dec (unat (gs_last_log_index response)) @ [newline])"

text \<open>The loop of \<^verbatim>\<open>run_status\<close>; \<open>found\<close> is \<^verbatim>\<open>found_reachable_node\<close>.\<close>

fun status_at :: "'w client_stub \<Rightarrow> string list \<Rightarrow> bool \<Rightarrow> 'w console \<Rightarrow> bool \<times> 'w console" where
  "status_at st [] found c = (found, c)"
| "status_at st (a # as) found c =
     (case remote (stub_get_status st a client_deadline_ms) c of
        ((status, response), c1) \<Rightarrow>
          if \<not> status_ok status then status_at st as found (print_out (a @ '' | unavailable'' @ [newline]) c1)
          else status_at st as True (print_out (status_line a response) c1))"

definition run_status :: "'w client_stub \<Rightarrow> 'w console \<Rightarrow> int \<times> 'w console" where
  "run_status st c =
     (case status_at st cluster_addresses False c of (found, c1) \<Rightarrow> (if found then 0 else 1, c1))"

definition client_usage :: string where
  "client_usage = ''Usage:'' @ [newline] @ ''  miniraft_client set <key> <value>'' @ [newline] @
     ''  miniraft_client get <key>'' @ [newline] @ ''  miniraft_client delete <key>'' @ [newline] @
     ''  miniraft_client status'' @ [newline]"

text \<open>\<^verbatim>\<open>main\<close>, with the vector of its arguments, the program's name first.\<close>

definition client_main :: "'w client_stub \<Rightarrow> string list \<Rightarrow> 'w console \<Rightarrow> int \<times> 'w console" where
  "client_main st argv c =
     (if length argv < 2 then (1, print_err client_usage c)
      else if argv ! 1 = ''set'' \<and> length argv = 4 then run_set st (argv ! 2) (argv ! 3) c
      else if argv ! 1 = ''get'' \<and> length argv = 3 then run_get st (argv ! 2) c
      else if argv ! 1 = ''delete'' \<and> length argv = 3 then run_delete st (argv ! 2) c
      else if argv ! 1 = ''status'' \<and> length argv = 2 then run_status st c
      else (1, print_err client_usage c))"

section \<open>The search for the leader\<close>

text \<open>The three loops are one search: the first answer that does not send the client on.\<close>

fun first_answer ::
    "(string \<Rightarrow> 'w \<Rightarrow> (rpc_status \<times> 'r) \<times> 'w) \<Rightarrow> string list \<Rightarrow> 'w \<Rightarrow> (string \<times> rpc_status \<times> 'r) option \<times> 'w" where
  "first_answer f [] w = (None, w)"
| "first_answer f (a # as) w =
     (case f a w of ((status, r), w') \<Rightarrow>
        if should_try_next_node status then first_answer f as w' else (Some (a, status, r), w'))"

definition report ::
    "string \<Rightarrow> (string \<Rightarrow> 'r \<Rightarrow> string) \<Rightarrow> (string \<times> rpc_status \<times> 'r) option \<times> 'w \<Rightarrow> 'w console \<Rightarrow> int \<times> 'w console" where
  "report operation accepted answer c =
     (case answer of
        (None, w) \<Rightarrow> (1, print_err (operation @ '' failed: no reachable leader was found'' @ [newline]) (c\<lparr>net := w\<rparr>))
      | (Some (a, status, r), w) \<Rightarrow>
          if status_ok status then (0, print_out (accepted a r) (c\<lparr>net := w\<rparr>))
          else (1, print_err (operation @ '' failed: '' @ error_message status @ [newline]) (c\<lparr>net := w\<rparr>)))"

lemma ok_is_conclusive: "status_ok status \<Longrightarrow> \<not> should_try_next_node status"
  by (simp add: status_ok_def should_try_next_node_def)

lemma report_moved [simp]: "report operation accepted answer (c\<lparr>net := w\<rparr>) = report operation accepted answer c"
  by (simp add: report_def split: prod.split option.split)

lemma report_simps:
  "report operation accepted (None, w) c =
     (1, print_err (operation @ '' failed: no reachable leader was found'' @ [newline]) (c\<lparr>net := w\<rparr>))"
  "report operation accepted (Some (a, status, r), w) c =
     (if status_ok status then (0, print_out (accepted a r) (c\<lparr>net := w\<rparr>))
      else (1, print_err (operation @ '' failed: '' @ error_message status @ [newline]) (c\<lparr>net := w\<rparr>)))"
  by (simp_all add: report_def)

definition set_accepted :: "string \<Rightarrow> rpc_set_response \<Rightarrow> string" where
  "set_accepted a r = ''SET accepted by leader '' @ a @ '' at log index '' @ dec (unat (set_log_index r)) @ [newline]"

definition delete_accepted :: "string \<Rightarrow> rpc_delete_response \<Rightarrow> string" where
  "delete_accepted a r =
     ''DELETE accepted by leader '' @ a @ '' at log index '' @ dec (unat (delete_log_index r)) @ [newline]"

definition get_answer :: "string \<Rightarrow> string \<Rightarrow> rpc_get_response \<Rightarrow> string" where
  "get_answer key a r =
     (if get_found r then key @ '' = '' @ get_value r @ [newline] else key @ '' was not found'' @ [newline])"

lemma set_at_search:
  "set_at st key v as c = report ''SET'' set_accepted
     (first_answer (\<lambda>a. stub_set st a client_deadline_ms \<lparr>set_key = key, set_value = v\<rparr>) as (net c)) c"
  by (induction as arbitrary: c)
     (auto simp: remote_def report_simps set_accepted_def ok_is_conclusive split: prod.splits)

lemma get_at_search:
  "get_at st key as c = report ''GET'' (get_answer key)
     (first_answer (\<lambda>a. stub_get st a client_deadline_ms \<lparr>get_key = key\<rparr>) as (net c)) c"
  by (induction as arbitrary: c)
     (auto simp: remote_def report_simps get_answer_def ok_is_conclusive split: prod.splits)

lemma delete_at_search:
  "delete_at st key as c = report ''DELETE'' delete_accepted
     (first_answer (\<lambda>a. stub_delete st a client_deadline_ms \<lparr>delete_key = key\<rparr>) as (net c)) c"
  by (induction as arbitrary: c)
     (auto simp: remote_def report_simps delete_accepted_def ok_is_conclusive split: prod.splits)

text \<open>
  What the search relies on: a node \<open>answers\<close> when it leads and is heard in time; any other sends
  the client on, possibly \<open>moved\<close> by the question, which is nothing to the other nodes.
\<close>

locale redirecting_service =
  fixes call :: "string \<Rightarrow> 'w \<Rightarrow> (rpc_status \<times> 'r) \<times> 'w" and answers :: "'w \<Rightarrow> string \<Rightarrow> bool"
    and moved :: "string \<Rightarrow> 'w \<Rightarrow> 'w"
  assumes sends_on: "\<not> answers w a \<Longrightarrow> should_try_next_node (fst (fst (call a w))) \<and> snd (call a w) = moved a w"
    and conclusive: "answers w a \<Longrightarrow> \<not> should_try_next_node (fst (fst (call a w)))"
    and apart: "a \<noteq> b \<Longrightarrow> answers (moved a w) b = answers w b"
begin

lemma first_answer_is_leader:
  assumes "distinct as"
  shows "first_answer call as w =
     (let w' = fold moved (takeWhile (\<lambda>a. \<not> answers w a) as) w in
      case find (answers w) as of
        None \<Rightarrow> (None, w')
      | Some a \<Rightarrow> (Some (a, fst (call a w')), snd (call a w')))"
  using assms
proof (induction as arbitrary: w)
  case (Cons a as)
  obtain status r w1 where c: "call a w = ((status, r), w1)" by (cases "call a w") auto
  show ?case
  proof (cases "answers w a")
    case True
    then show ?thesis using conclusive [OF True] c by simp
  next
    case False
    have same: "answers (moved a w) b = answers w b" if "b \<in> set as" for b
      using that Cons.prems by (intro apart) auto
    have "takeWhile (\<lambda>b. \<not> answers (moved a w) b) as = takeWhile (\<lambda>b. \<not> answers w b) as"
      "find (answers (moved a w)) as = find (answers w) as"
      using same by (auto intro: takeWhile_cong find_cong)
    then show ?thesis using Cons.IH [of "moved a w"] Cons.prems False sends_on [OF False] c by simp
  qed
qed simp

end

section \<open>A cluster behind the stub\<close>

text \<open>
  The nodes that run, by address; a call to an address without one is \<^verbatim>\<open>UNAVAILABLE\<close>.  A call is one
  atomic step of the handler there; a handler that throws answers with another code.  Each way to a
  node is as it likes: the answer arrives in time, or too late, when the handler has run but the client
  sees \<^verbatim>\<open>DEADLINE_EXCEEDED\<close>, or the request is lost and the client sees the same.
\<close>

datatype delivery = In_Time | Too_Late | Lost

definition handler_failed :: rpc_status where
  "handler_failed = \<lparr>error_code = OTHER_CODE, error_message = ''Unexpected error in RPC handling''\<rparr>"

definition unreachable :: rpc_status where
  "unreachable = \<lparr>error_code = UNAVAILABLE, error_message = ''failed to connect to all addresses''\<rparr>"

definition deadline_passed :: rpc_status where
  "deadline_passed = \<lparr>error_code = DEADLINE_EXCEEDED, error_message = ''Deadline Exceeded''\<rparr>"

definition call_node ::
    "(string \<Rightarrow> delivery) \<Rightarrow> ('g raft_core, rpc_status \<times> 'r) op \<Rightarrow> 'r \<Rightarrow> string \<Rightarrow> (string \<rightharpoonup> 'g raft_core) \<Rightarrow>
     (rpc_status \<times> 'r) \<times> (string \<rightharpoonup> 'g raft_core)" where
  "call_node delivers handler default_response a nodes =
     (case nodes a of
        None \<Rightarrow> ((unreachable, default_response), nodes)
      | Some s \<Rightarrow>
          if delivers a = Lost then ((deadline_passed, default_response), nodes)
          else (case handler s of (result, t) \<Rightarrow>
            (if delivers a = Too_Late then (deadline_passed, default_response)
             else case result of Inl e \<Rightarrow> (handler_failed, default_response) | Inr answer \<Rightarrow> answer,
             nodes(a \<mapsto> t))))"

definition cluster_stub :: "(string \<Rightarrow> delivery) \<Rightarrow> (string \<rightharpoonup> 'g raft_core) client_stub" where
  "cluster_stub delivers = \<lparr>
     stub_set = (\<lambda>a deadline q. call_node delivers (service_set q) new_rpc_set_response a),
     stub_get = (\<lambda>a deadline q. call_node delivers (\<lambda>s. (Inr (service_get q s), s)) new_rpc_get_response a),
     stub_delete = (\<lambda>a deadline q. call_node delivers (service_delete q) new_rpc_delete_response a),
     stub_get_status = (\<lambda>a deadline. call_node delivers (\<lambda>s. (Inr (service_get_status s), s)) new_rpc_get_status_response a)\<rparr>"

text \<open>A leader that is heard in time, and what a leader that is not has done all the same.\<close>

definition answering :: "(string \<Rightarrow> delivery) \<Rightarrow> (string \<rightharpoonup> 'g raft_core) \<Rightarrow> string \<Rightarrow> bool" where
  "answering delivers nodes a \<longleftrightarrow>
     (case nodes a of None \<Rightarrow> False | Some s \<Rightarrow> role s = Leader \<and> delivers a = In_Time)"

definition unheard ::
    "(string \<Rightarrow> delivery) \<Rightarrow> ('g raft_core, 'p) op \<Rightarrow> string \<Rightarrow> (string \<rightharpoonup> 'g raft_core) \<Rightarrow> (string \<rightharpoonup> 'g raft_core)" where
  "unheard delivers handler a nodes =
     (case nodes a of
        None \<Rightarrow> nodes
      | Some s \<Rightarrow> if role s = Leader \<and> delivers a = Too_Late then nodes(a \<mapsto> final (handler s)) else nodes)"

lemma append_or_status_conclusive:
  "fst (append_or_status cmd respond d s) = Inr answer \<Longrightarrow> \<not> should_try_next_node (fst answer)"
  by (auto simp: append_or_status_def should_try_next_node_def status_OK_def split: prod.splits sum.splits exc.splits)

text \<open>The three handlers redirect alike: all that is needed is how each treats the two roles.\<close>

lemma redirecting_handler:
  assumes "\<And>s. role s \<noteq> Leader \<Longrightarrow> \<exists>r. handler s = (Inr (leader_only, r), s)"
    and "\<And>s answer. role s = Leader \<Longrightarrow> fst (handler s) = Inr answer \<Longrightarrow> \<not> should_try_next_node (fst answer)"
  shows "redirecting_service (call_node delivers handler d) (answering delivers) (unheard delivers handler)"
proof
  fix w :: "string \<rightharpoonup> 'a raft_core" and a b
  show "should_try_next_node (fst (fst (call_node delivers handler d a w))) \<and>
      snd (call_node delivers handler d a w) = unheard delivers handler a w"
    if silent: "\<not> answering delivers w a"
  proof (cases "w a")
    case None
    then show ?thesis by (simp add: call_node_def unheard_def unreachable_def should_try_next_node_def)
  next
    case (Some s)
    show ?thesis
    proof (cases "role s = Leader")
      case True
      then show ?thesis
        using Some silent
        by (cases "delivers a") (auto simp: answering_def call_node_def unheard_def deadline_passed_def
            should_try_next_node_def split: prod.split)
    next
      case False
      then obtain r where "handler s = (Inr (leader_only, r), s)" using assms(1) by blast
      then show ?thesis
        using Some False
        by (auto simp: call_node_def unheard_def leader_only_def deadline_passed_def should_try_next_node_def fun_upd_idem)
    qed
  qed
  show "\<not> should_try_next_node (fst (fst (call_node delivers handler d a w)))" if heard: "answering delivers w a"
  proof -
    obtain s where s: "w a = Some s" "role s = Leader" "delivers a = In_Time"
      using heard by (auto simp: answering_def split: option.splits)
    show ?thesis
    proof (cases "handler s")
      case (Pair r t)
      then show ?thesis
        using s assms(2) [OF s(2)]
        by (cases r) (simp_all add: call_node_def handler_failed_def should_try_next_node_def)
    qed
  qed
  show "answering delivers (unheard delivers handler a w) b = answering delivers w b" if "a \<noteq> b"
    using that by (simp add: answering_def unheard_def split: option.split)
qed

interpretation set_service: redirecting_service
  "call_node delivers (service_set q) new_rpc_set_response" "answering delivers" "unheard delivers (service_set q)"
  for delivers q
  by (rule redirecting_handler) (auto simp: service_set_def dest: append_or_status_conclusive)

interpretation delete_service: redirecting_service
  "call_node delivers (service_delete q) new_rpc_delete_response" "answering delivers" "unheard delivers (service_delete q)"
  for delivers q
  by (rule redirecting_handler) (auto simp: service_delete_def dest: append_or_status_conclusive)

interpretation get_service: redirecting_service
  "call_node delivers (\<lambda>s. (Inr (service_get q s), s)) new_rpc_get_response" "answering delivers"
  "unheard delivers (\<lambda>s. (Inr (service_get q s), s))"
  for delivers q
  by (rule redirecting_handler)
     (auto simp: service_get_def should_try_next_node_def status_OK_def split: option.splits)

section \<open>Properties\<close>

text \<open>What a write leaves: the outcome of the handler on the node at \<open>a\<close>, every other node untouched.\<close>

definition written ::
    "string \<Rightarrow> (string \<Rightarrow> 'r \<Rightarrow> string) \<Rightarrow> string \<Rightarrow> (exc + rpc_status \<times> 'r) \<times> 'g raft_core \<Rightarrow>
     (string \<rightharpoonup> 'g raft_core) console \<Rightarrow> int \<times> (string \<rightharpoonup> 'g raft_core) console" where
  "written operation accepted a outcome c =
     (let c1 = c\<lparr>net := (net c)(a \<mapsto> snd outcome)\<rparr> in
      case fst outcome of
        Inr (status, r) \<Rightarrow>
          if status_ok status then (0, print_out (accepted a r) c1)
          else (1, print_err (operation @ '' failed: '' @ error_message status @ [newline]) c1)
      | Inl e \<Rightarrow> (1, print_err (operation @ '' failed: '' @ error_message handler_failed @ [newline]) c1))"

text \<open>
  The outcome of a request that every node handles by \<open>handler\<close>: the nodes asked before the first leader
  that is heard in time are as the question left them, and that leader's answer is reported.
\<close>

definition client_outcome ::
    "string \<Rightarrow> (string \<Rightarrow> 'r \<Rightarrow> string) \<Rightarrow> (string \<Rightarrow> delivery) \<Rightarrow> ('g raft_core, rpc_status \<times> 'r) op \<Rightarrow>
     (string \<rightharpoonup> 'g raft_core) console \<Rightarrow> int \<times> (string \<rightharpoonup> 'g raft_core) console" where
  "client_outcome operation accepted delivers handler c =
     (let asked = takeWhile (\<lambda>a. \<not> answering delivers (net c) a) cluster_addresses;
          c1 = c\<lparr>net := fold (unheard delivers handler) asked (net c)\<rparr> in
      case find (answering delivers (net c)) cluster_addresses of
        None \<Rightarrow> (1, print_err (operation @ '' failed: no reachable leader was found'' @ [newline]) c1)
      | Some a \<Rightarrow> written operation accepted a (handler (the (net c a))) c1)"

lemma report_written:
  assumes "w a = Some s" and "delivers a = In_Time"
  shows "report operation accepted
      (Some (a, fst (call_node delivers handler d a w)), snd (call_node delivers handler d a w)) c =
    written operation accepted a (handler s) (c\<lparr>net := w\<rparr>)"
  using assms by (cases "handler s")
    (auto simp: call_node_def written_def report_simps handler_failed_def status_ok_def Let_def split: sum.split)

lemma find_answering:
  assumes "find (answering delivers w) as = Some a"
  shows "w a = Some (the (w a))" and "role (the (w a)) = Leader" and "delivers a = In_Time"
    and "a \<notin> set (takeWhile (\<lambda>a. \<not> answering delivers w a) as)"
  using assms by (auto simp: find_Some_iff answering_def split: option.splits dest!: set_takeWhileD)

lemma fold_unheard: "a \<notin> set as \<Longrightarrow> fold (unheard delivers handler) as w a = w a"
  by (induction as arbitrary: w) (auto simp: unheard_def split: option.split)

lemma report_search:
  assumes "redirecting_service (call_node delivers handler d) (answering delivers) (unheard delivers handler)"
  shows "report operation accepted (first_answer (call_node delivers handler d) cluster_addresses (net c)) c =
    client_outcome operation accepted delivers handler c"
proof -
  let ?as = "takeWhile (\<lambda>a. \<not> answering delivers (net c) a) cluster_addresses"
  let ?w = "fold (unheard delivers handler) ?as (net c)"
  have "distinct cluster_addresses" by (simp add: cluster_addresses_def)
  note search = redirecting_service.first_answer_is_leader [OF assms this, of "net c", unfolded Let_def]
  show ?thesis
  proof (cases "find (answering delivers (net c)) cluster_addresses")
    case None
    then show ?thesis by (simp add: search client_outcome_def report_simps)
  next
    case (Some a)
    have "?w a = Some (the (net c a))"
      using find_answering(1,4) [OF Some] fold_unheard [of a ?as delivers handler "net c"] by simp
    then show ?thesis
      using report_written [of ?w a "the (net c a)" delivers operation accepted handler d c] find_answering(3) [OF Some]
      by (simp add: search client_outcome_def Some)
  qed
qed

text \<open>A read changes nothing, in time or not.\<close>

lemma fold_unheard_reads: "fold (unheard delivers (\<lambda>s. (Inr (f s), s))) as w = w"
  by (induction as arbitrary: w) (auto simp: unheard_def fun_upd_idem split: option.split)

lemma get_outcome:
  "client_outcome ''GET'' (get_answer k) delivers (\<lambda>s. (Inr (service_get q s), s)) c =
     (case find (answering delivers (net c)) cluster_addresses of
        None \<Rightarrow> (1, print_err (''GET failed: no reachable leader was found'' @ [newline]) c)
      | Some a \<Rightarrow> (0, print_out (get_answer k a (snd (service_get q (the (net c a))))) c))"
proof (cases "find (answering delivers (net c)) cluster_addresses")
  case (Some a)
  have "fst (service_get q (the (net c a))) = status_OK"
    using find_answering(2) [OF Some] by (simp add: service_get_def split: option.split)
  then obtain r where "service_get q (the (net c a)) = (status_OK, r)" by (metis prod.collapse)
  moreover have "(net c)(a \<mapsto> the (net c a)) = net c"
    using find_answering(1) [OF Some] by (simp add: fun_upd_idem)
  ultimately show ?thesis
    using Some by (simp add: client_outcome_def fold_unheard_reads written_def status_ok_def status_OK_def)
qed (simp add: client_outcome_def fold_unheard_reads)

text \<open>What \<^verbatim>\<open>status\<close> shows of the node at an address.\<close>

definition shown :: "(string \<Rightarrow> delivery) \<Rightarrow> (string \<rightharpoonup> 'g raft_core) \<Rightarrow> string \<Rightarrow> string" where
  "shown delivers nodes a =
     (case nodes a of
        Some s \<Rightarrow> if delivers a = In_Time then status_line a (snd (service_get_status s)) else a @ '' | unavailable'' @ [newline]
      | None \<Rightarrow> a @ '' | unavailable'' @ [newline])"

lemma status_at_cluster:
  "status_at (cluster_stub delivers) as found c =
     (found \<or> list_ex (\<lambda>a. net c a \<noteq> None \<and> delivers a = In_Time) as,
      print_out (concat (map (shown delivers (net c)) as)) c)"
proof (induction as arbitrary: found c)
  case (Cons a as)
  have status: "service_get_status s = (status_OK, snd (service_get_status s))" for s :: "'a raft_core"
    by (simp add: service_get_status_def Let_def)
  have answer: "stub_get_status (cluster_stub delivers) a d w =
      (case w a of None \<Rightarrow> ((unreachable, new_rpc_get_status_response), w)
       | Some s \<Rightarrow> if delivers a = In_Time then ((status_OK, snd (service_get_status s)), w)
                   else ((deadline_passed, new_rpc_get_status_response), w))" for d and w :: "string \<rightharpoonup> 'a raft_core"
    using status by (cases "delivers a") (auto simp: cluster_stub_def call_node_def fun_upd_idem split: option.split)
  have "\<not> status_ok unreachable" "\<not> status_ok deadline_passed" "status_ok status_OK"
    by (simp_all add: status_ok_def unreachable_def deadline_passed_def status_OK_def)
  then show ?case
    using Cons by (cases "net c a") (simp_all add: answer remote_def print_out_def shown_def)
qed (simp add: print_out_def)

text \<open>
  C39: The command-line client finds a leader that it can hear.  Whichever nodes run and lead, and
  whichever answers are late and requests lost, it asks the three addresses in order and goes on past every
  node that does not run, does not lead, or is not heard in time; \<^verbatim>\<open>set\<close>, \<^verbatim>\<open>delete\<close> and \<^verbatim>\<open>get\<close> end at the
  first leader that is heard, with exit code 0 exactly when its handler answers OK, and with exit
  code 1 when there is none.  Nodes that do not lead are left as they are; but a leader whose answer
  comes too late has executed the request all the same before the client goes on, so that a write may be
  executed at two nodes, or be reported as failed when it was executed.  \<^verbatim>\<open>get\<close> and \<^verbatim>\<open>status\<close>
  change nothing; \<^verbatim>\<open>status\<close> prints a line for each address and succeeds exactly when it hears of some node.
\<close>

theorem client_reaches_the_leader:
  "client_main (cluster_stub delivers) [program, ''set'', k, v] c =
     client_outcome ''SET'' set_accepted delivers (service_set \<lparr>set_key = k, set_value = v\<rparr>) c \<and>
   client_main (cluster_stub delivers) [program, ''delete'', k] c =
     client_outcome ''DELETE'' delete_accepted delivers (service_delete \<lparr>delete_key = k\<rparr>) c \<and>
   client_main (cluster_stub delivers) [program, ''get'', k] c =
     (case find (answering delivers (net c)) cluster_addresses of
        None \<Rightarrow> (1, print_err (''GET failed: no reachable leader was found'' @ [newline]) c)
      | Some a \<Rightarrow> (0, print_out (get_answer k a (snd (service_get \<lparr>get_key = k\<rparr> (the (net c a))))) c)) \<and>
   client_main (cluster_stub delivers) [program, ''status''] c =
     (if list_ex (\<lambda>a. net c a \<noteq> None \<and> delivers a = In_Time) cluster_addresses then 0 else 1,
      print_out (concat (map (shown delivers (net c)) cluster_addresses)) c)"
proof (intro conjI)
  show "client_main (cluster_stub delivers) [program, ''set'', k, v] c =
     client_outcome ''SET'' set_accepted delivers (service_set \<lparr>set_key = k, set_value = v\<rparr>) c"
    by (simp add: client_main_def run_set_def set_at_search cluster_stub_def report_search set_service.redirecting_service_axioms)
  show "client_main (cluster_stub delivers) [program, ''delete'', k] c =
     client_outcome ''DELETE'' delete_accepted delivers (service_delete \<lparr>delete_key = k\<rparr>) c"
    by (simp add: client_main_def run_delete_def delete_at_search cluster_stub_def report_search
        delete_service.redirecting_service_axioms)
  show "client_main (cluster_stub delivers) [program, ''get'', k] c =
     (case find (answering delivers (net c)) cluster_addresses of
        None \<Rightarrow> (1, print_err (''GET failed: no reachable leader was found'' @ [newline]) c)
      | Some a \<Rightarrow> (0, print_out (get_answer k a (snd (service_get \<lparr>get_key = k\<rparr> (the (net c a))))) c))"
    by (simp add: client_main_def run_get_def get_at_search cluster_stub_def report_search
        get_service.redirecting_service_axioms get_outcome [of k delivers "\<lparr>get_key = k\<rparr>"])
qed (simp add: client_main_def run_status_def status_at_cluster)

end
