(* ===== verification/Client_Guarantees.thy ===== *)
theory Client_Guarantees
  imports Node_Network Cluster_Network
begin

text \<open>
  What the answer to a client's write is worth.  \<^verbatim>\<open>Set\<close> and \<^verbatim>\<open>Delete\<close> answer as soon as the leader has
  the command in its own log, with its index.  That index and the leader's term identify the write
  for ever; but until a majority holds it the write may still be lost.  A \<^verbatim>\<open>Get\<close> answers with a
  committed state, though not always with the latest one.
\<close>

section \<open>Entries at two moments\<close>

lemma entries_name_their_prefix:
  assumes "iterates_once lib" and "world_reachable lib ms lo hi w" and "(world_step lib ms lo hi)\<^sup>*\<^sup>* w w'"
    and "n \<in> set ms" and "m \<in> set ms"
    and i: "i < length (log_entries (cores w n))" "i < length (log_entries (cores w' m))"
    and same: "entry_term (log_entries (cores w n) ! i) = entry_term (log_entries (cores w' m) ! i)"
  shows "take (Suc i) (log_entries (cores w n)) = take (Suc i) (log_entries (cores w' m))"
proof (rule later_world [OF assms(1-3)])
  fix \<sigma> \<sigma>'
  assume s: "simulates ms w \<sigma>" "simulates ms w' \<sigma>'" and g: "history_grows \<sigma> \<sigma>'"
    and inv: "protocol_inv (majority_of ms) \<sigma>" "protocol_inv (majority_of ms) \<sigma>'"
  let ?T = "entry_term (log_entries (cores w n) ! i)"
  have v: "node_at \<sigma> n = view (cores w n)" "node_at \<sigma>' m = view (cores w' m)"
    using cm_view [OF simulates_core [OF s(1) assms(4)]] cm_view [OF simulates_core [OF s(2) assms(5)]] .
  have basic: "basic_inv (majority_of ms) \<sigma>" "basic_inv (majority_of ms) \<sigma>'" using inv by (simp_all add: protocol_inv_def)
  have a: "take (Suc i) (log_entries (cores w n)) = take (Suc i) (h_log \<sigma> ?T)"
    using node_good [OF basic(1), of n] i(1) v(1) by (simp add: good_log_def)
  have b: "take (Suc i) (log_entries (cores w' m)) = take (Suc i) (h_log \<sigma>' ?T)"
    using node_good [OF basic(2), of m] i(2) v(2) same by (simp add: good_log_def)
  have "Suc i \<le> length (h_log \<sigma> ?T)" using arg_cong [OF a, of length] i(1) by simp
  then show ?thesis using take_grown [OF g, of "Suc i" ?T] a b by simp
qed

section \<open>Acknowledged writes\<close>

text \<open>A client's write: the command it stands for, and the call that the service answered with OK and an index.\<close>

definition acknowledged :: "string \<Rightarrow> 'g raft_core \<Rightarrow> u64 \<Rightarrow> 'g raft_core \<Rightarrow> bool" where
  "acknowledged cmd s i t \<longleftrightarrow>
     (\<exists>k v. cmd = ''SET '' @ k @ '' '' @ v \<and>
        service_set \<lparr>set_key = k, set_value = v\<rparr> s = (Inr (status_OK, \<lparr>set_log_index = i\<rparr>), t)) \<or>
     (\<exists>k. cmd = ''DELETE '' @ k \<and>
        service_delete \<lparr>delete_key = k\<rparr> s = (Inr (status_OK, \<lparr>delete_log_index = i\<rparr>), t))"

lemma append_or_status_OK:
  assumes "append_or_status c f p s = (Inr (status_OK, q), t)"
  obtains cmd i where "c = Inr cmd" and "append_command cmd s = (Inr i, t)" and "q = f i"
  using assms by (auto simp: append_or_status_def status_OK_def split: prod.splits sum.splits exc.splits)

lemma acknowledged_cases:
  assumes "acknowledged cmd s i t"
  shows "role s = Leader" and "well_formed_command cmd" and "append_command cmd s = (Inr i, t)"
proof -
  have "role s = Leader \<and> well_formed_command cmd \<and> append_command cmd s = (Inr i, t)"
    using assms unfolding acknowledged_def
  proof (elim disjE exE conjE)
    fix k v
    assume c: "cmd = ''SET '' @ k @ '' '' @ v"
      and run: "service_set \<lparr>set_key = k, set_value = v\<rparr> s = (Inr (status_OK, \<lparr>set_log_index = i\<rparr>), t)"
    have l: "role s = Leader" using run by (auto simp: service_set_def leader_only_def status_OK_def split: if_splits)
    show ?thesis
      using run l well_formed_set [of k v] unfolding c
      by (auto simp: service_set_def make_set_command_cases new_rpc_set_response_def elim!: append_or_status_OK split: if_splits)
  next
    fix k
    assume c: "cmd = ''DELETE '' @ k"
      and run: "service_delete \<lparr>delete_key = k\<rparr> s = (Inr (status_OK, \<lparr>delete_log_index = i\<rparr>), t)"
    have l: "role s = Leader" using run by (auto simp: service_delete_def leader_only_def status_OK_def split: if_splits)
    show ?thesis
      using run l well_formed_delete [of k] unfolding c
      by (auto simp: service_delete_def make_delete_command_cases new_rpc_delete_response_def elim!: append_or_status_OK split: if_splits)
  qed
  then show "role s = Leader" "well_formed_command cmd" "append_command cmd s = (Inr i, t)" by simp_all
qed

text \<open>After an acknowledged write the leader's log is what it was with the command at the end.\<close>

lemma acknowledged_log:
  assumes lib: "iterates_once lib" and w: "world_reachable lib ms lo hi w" and n: "n \<in> set ms"
    and room: "length (log_entries (cores w n)) < log_max_size" and ack: "acknowledged cmd (cores w n) i t"
  shows "world_step lib ms lo hi w (put_core n t w)" and "unat i = Suc (length (log_entries (cores w n)))"
    and "log_entries t = log_entries (cores w n) @ [\<lparr>entry_term = current_term (cores w n), command = cmd\<rparr>]"
proof -
  let ?s = "cores w n"
  note a = acknowledged_cases [OF ack]
  show "world_step lib ms lo hi w (put_core n t w)"
    using world_step.local [OF n, of "Append_Command cmd" w lib lo hi] a room by (simp add: within_bounds_def)
  obtain \<sigma> where sim: "simulates ms w \<sigma>" by (rule world_simulated [OF lib w])
  have s: "core_ok ?s" "working ?s" "commands_ok (log_entries ?s)"
    using soundD [OF cm_sound [OF simulates_core [OF sim n]]] by simp_all
  have ne: "cmd \<noteq> []" using ack by (auto simp: acknowledged_def)
  have "commands_ok (log_entries ?s @ [\<lparr>entry_term = current_term ?s, command = cmd\<rparr>])"
    using s(3) a(2) by (simp add: commands_ok_def)
  from accepted_append [OF s(1,2) a(1) ne room this]
  show "unat i = Suc (length (log_entries ?s))"
    and "log_entries t = log_entries ?s @ [\<lparr>entry_term = current_term ?s, command = cmd\<rparr>]"
    using a(3) by auto
qed

section \<open>Properties\<close>

text \<open>
  C9: The receipt of a write.  A node answered OK to a client's write, with an index.  From then on,
  on every node, an entry at that index with the term the node had is that very command, after the
  very commands that preceded it on the node that answered; once the node's commit index is there,
  its store has executed just these, in this order.
\<close>

theorem receipt_names_the_write:
  assumes "iterates_once lib" and "world_reachable lib ms lo hi w" and "n \<in> set ms" and "m \<in> set ms"
    and "length (log_entries (cores w n)) < log_max_size" and "acknowledged cmd (cores w n) i t"
    and "(world_step lib ms lo hi)\<^sup>*\<^sup>* (put_core n t w) w'"
    and "unat i \<le> length (log_entries (cores w' m))"
    and "entry_term (log_entries (cores w' m) ! (unat i - 1)) = current_term (cores w n)"
  shows "map command (take (unat i) (log_entries (cores w' m))) = map command (log_entries (cores w n)) @ [cmd] \<and>
    (i \<le> commit_index (cores w' m) \<longrightarrow>
       take (unat i) (applied_commands (cores w' m)) = map command (log_entries (cores w n)) @ [cmd])"
proof -
  note ack = acknowledged_log [OF assms(1-3,5,6)]
  let ?w = "put_core n t w" and ?k = "length (log_entries (cores w n))"
  have w1: "world_reachable lib ms lo hi ?w"
    using assms(2) ack(1) unfolding world_reachable_def by (meson rtranclp.rtrancl_into_rtrancl)
  have same: "take (Suc ?k) (log_entries (cores ?w n)) = take (Suc ?k) (log_entries (cores w' m))"
    using assms(8,9) ack(2,3) by (intro entries_name_their_prefix [OF assms(1) w1 assms(7,3,4)]) simp_all
  have log: "map command (take (unat i) (log_entries (cores w' m))) = map command (log_entries (cores w n)) @ [cmd]"
    unfolding ack(2) same [symmetric] using ack(3) by simp
  have w': "world_reachable lib ms lo hi w'"
    using w1 assms(7) unfolding world_reachable_def by (meson rtranclp_trans)
  note ok = reachable_sound [OF assms(1) w' assms(4)]
  have "take (unat i) (applied_commands (cores w' m)) = map command (log_entries (cores w n)) @ [cmd]"
    if "i \<le> commit_index (cores w' m)"
  proof -
    have "unat i \<le> unat (last_applied (cores w' m))"
      using that ok(2) by (simp add: all_applied_def word_le_nat_alt)
    then show ?thesis using log applied_is_log(1) [OF ok(1)] by (simp add: take_map min_def)
  qed
  with log show ?thesis by blast
qed

text \<open>
  C34: What a read is worth.  Whatever a node that takes itself for the leader answers to \<^verbatim>\<open>Get\<close>, it is
  the state of the store after the first \<open>c\<close> commands that the cluster has committed, where \<open>c\<close> is the
  node's commit index: any node that has committed as much, then or later, has those commands, and
  executing them gives the answer.  A read never sees a write that is not committed.
\<close>

theorem reads_are_committed:
  assumes "iterates_once lib" and "world_reachable lib ms lo hi w" and "(world_step lib ms lo hi)\<^sup>*\<^sup>* w w'"
    and "n \<in> set ms" and "m \<in> set ms" and "commit_index (cores w n) \<le> commit_index (cores w' m)"
    and "service_get \<lparr>get_key = k\<rparr> (cores w n) = (status_OK, \<lparr>get_found = found, get_value = v\<rparr>)"
  shows "\<exists>kv. kv_replay (map command (take (unat (commit_index (cores w n))) (log_entries (cores w' m)))) = Inr kv \<and>
    kv k = (if found then Some v else None)"
proof (intro exI conjI)
  let ?s = "cores w n"
  have "take (unat (commit_index ?s)) (log_entries ?s) = take (unat (commit_index ?s)) (log_entries (cores w' m))"
    using committed_logs_agree [OF assms(1-5)] assms(6) by (simp add: word_le_nat_alt)
  then show "kv_replay (map command (take (unat (commit_index ?s)) (log_entries (cores w' m)))) = Inr (key_value_store ?s)"
    using all_applied_replay(2) [OF reachable_sound [OF assms(1,2,4)]] by simp
  show "key_value_store ?s k = (if found then Some v else None)"
    using assms(7) by (auto simp: service_get_def leader_only_def status_OK_def new_rpc_get_response_def kv_get_def
        split: if_splits option.splits)
qed

text \<open>A cluster of one node commits what it is given at once.\<close>

definition solo_boot :: "u64 raft_core" where
  "solo_boot = (case fst (new_raft_core sample_lib ''a'' [''a''] 0 [] 150 300 7 [] sample_disk) of
     Inr s \<Rightarrow> s | Inl e \<Rightarrow> sample_follower)"

definition solo_leader :: "u64 raft_core" where
  "solo_leader = final (start_election sample_lib solo_boot)"

definition solo_write :: "(exc + rpc_status \<times> rpc_set_response) \<times> u64 raft_core" where
  "solo_write = service_set \<lparr>set_key = ''x'', set_value = ''1''\<rparr> solo_leader"

lemma solo_boots: "\<not> isl (fst (new_raft_core sample_lib ''a'' [''a''] 0 [] 150 300 7 [] sample_disk))"
  by code_simp

lemma solo_runs: "current_term solo_boot = 0" "current_term solo_leader = 1" "log_entries solo_leader = []"
    "fst solo_write = Inr (status_OK, \<lparr>set_log_index = 1\<rparr>)" "commit_index (final solo_write) = 1"
    "log_entries (final solo_write) = [\<lparr>entry_term = 1, command = ''SET x 1''\<rparr>]"
  by code_simp+

lemma solo_acknowledged: "acknowledged ''SET x 1'' solo_leader 1 (final solo_write)"
  using solo_runs(4) unfolding acknowledged_def
  by (intro disjI1 exI [of _ "''x''"] exI [of _ "''1''"]) (cases solo_write, simp add: solo_write_def)

lemma solo_world: "\<exists>w. world_reachable sample_lib [''a''] 150 300 w \<and> cores w ''a'' = solo_leader"
proof -
  let ?w = "\<lparr>cores = \<lambda>_. solo_boot, vote_requests = [], vote_replies = [], append_requests = [], append_replies = []\<rparr>"
  have "\<exists>d. new_raft_core sample_lib ''a'' [''a''] 0 [] 150 300 7 [] sample_disk = (Inr solo_boot, d)"
    using solo_boots unfolding solo_boot_def
    by (cases "new_raft_core sample_lib ''a'' [''a''] 0 [] 150 300 7 [] sample_disk") (auto split: sum.splits)
  then have "world_start sample_lib [''a''] 150 300 ?w" unfolding world_start_def by fastforce
  moreover have "world_step sample_lib [''a''] 150 300 ?w (put_core ''a'' solo_leader ?w)"
    using world_step.local [of "''a''" "[''a'']" Start_Election ?w sample_lib 150 300]
    by (simp add: solo_leader_def within_bounds_def solo_runs(1))
  ultimately have "world_reachable sample_lib [''a''] 150 300 (put_core ''a'' solo_leader ?w)"
    unfolding world_reachable_def by blast
  then show ?thesis by (intro exI [of _ "put_core ''a'' solo_leader ?w"]) simp
qed

theorem receipt_names_the_write_witness:
  "\<exists>i t. acknowledged ''SET x 1'' solo_leader i t \<and> i = 1 \<and> take 1 (applied_commands t) = [''SET x 1'']"
proof -
  obtain w where w: "world_reachable sample_lib [''a''] 150 300 w" "cores w ''a'' = solo_leader" using solo_world by blast
  have a: "acknowledged ''SET x 1'' (cores w ''a'') 1 (final solo_write)" unfolding w(2) by (rule solo_acknowledged)
  have "map command (take (unat (1 :: u64)) (log_entries (cores (put_core ''a'' (final solo_write) w) ''a''))) =
      map command (log_entries (cores w ''a'')) @ [''SET x 1''] \<and>
    (1 \<le> commit_index (cores (put_core ''a'' (final solo_write) w) ''a'') \<longrightarrow>
      take (unat (1 :: u64)) (applied_commands (cores (put_core ''a'' (final solo_write) w) ''a'')) =
        map command (log_entries (cores w ''a'')) @ [''SET x 1''])"
    by (rule receipt_names_the_write [OF sample_lib_ok(1) w(1) _ _ _ a rtranclp.rtrancl_refl])
       (simp_all add: w(2) solo_runs log_max_size_def)
  then show ?thesis using a by (auto simp: w(2) solo_runs)
qed

lemma solo_written: "role (final solo_write) = Leader" "key_value_store (final solo_write) ''x'' = Some ''1''"
  by code_simp+

theorem reads_are_committed_witness:
  "\<exists>w kv. world_reachable sample_lib [''a''] 150 300 w \<and> commit_index (cores w ''a'') = 1 \<and>
     kv_replay (map command (take 1 (log_entries (cores w ''a'')))) = Inr kv \<and> kv ''x'' = Some ''1''"
proof -
  obtain w where w: "world_reachable sample_lib [''a''] 150 300 w" "cores w ''a'' = solo_leader" using solo_world by blast
  let ?w = "put_core ''a'' (final solo_write) w"
  have "acknowledged ''SET x 1'' (cores w ''a'') 1 (final solo_write)" unfolding w(2) by (rule solo_acknowledged)
  then have "world_step sample_lib [''a''] 150 300 w ?w"
    by (intro acknowledged_log(1) [OF sample_lib_ok(1) w(1)]) (simp_all add: w(2) solo_runs log_max_size_def)
  then have r: "world_reachable sample_lib [''a''] 150 300 ?w"
    using w(1) unfolding world_reachable_def by (meson rtranclp.rtrancl_into_rtrancl)
  have get: "service_get \<lparr>get_key = ''x''\<rparr> (cores ?w ''a'') = (status_OK, \<lparr>get_found = True, get_value = ''1''\<rparr>)"
    using solo_written by (simp add: service_get_def kv_get_def new_rpc_get_response_def)
  have a: "''a'' \<in> set [''a'']" by simp
  have "\<exists>kv. kv_replay (map command (take (unat (commit_index (cores ?w ''a''))) (log_entries (cores ?w ''a'')))) = Inr kv \<and>
      kv ''x'' = (if True then Some ''1'' else None)"
    by (rule reads_are_committed [OF sample_lib_ok(1) r rtranclp.rtrancl_refl a a order_refl get])
  with r show ?thesis by (intro exI [of _ ?w]) (simp add: solo_runs)
qed

section \<open>A write that is lost\<close>

text \<open>
  \<^verbatim>\<open>a\<close> answers OK to a write and then no message of it arrives; \<^verbatim>\<open>b\<close> is elected by \<^verbatim>\<open>c\<close>, takes
  another write, and replicates it.
\<close>

definition lost_2 :: "u64 cluster" where
  "lost_2 = final (cluster_start_election sample_lib ''b'' cluster_2)"

definition lost_3 :: "u64 cluster" where
  "lost_3 = lost_2[1 := final (call sample_lib (Append_Command ''SET x 2'') (lost_2 ! 1))]"

definition lost_4 :: "u64 cluster" where
  "lost_4 = final (send_heartbeats sample_lib ''b'' (final (replicate_until_caught_up sample_lib ''b'' 3 lost_3)))"

lemma lost_runs_facts:
  "list_all (\<lambda>c. node_id c = ''b'' \<longrightarrow> current_term c \<noteq> - 1) cluster_2"
  "length lost_2 = 3" "length (log_entries (lost_2 ! 1)) = 0" "map role lost_2 = [Follower, Leader, Follower]"
  by code_simp+

lemma lost_end: "map applied_commands lost_4 = [[''SET x 2''], [''SET x 2''], [''SET x 2'']]"
  by code_simp

lemma write_of_a: "fst (service_set \<lparr>set_key = ''x'', set_value = ''1''\<rparr> (cluster_1 ! 0)) = Inr (status_OK, \<lparr>set_log_index = 1\<rparr>)"
  by code_simp

lemma acknowledged_of_a: "acknowledged ''SET x 1'' (cluster_1 ! 0) 1 (cluster_2 ! 0)"
proof -
  obtain t where run: "service_set \<lparr>set_key = ''x'', set_value = ''1''\<rparr> (cluster_1 ! 0) = (Inr (status_OK, \<lparr>set_log_index = 1\<rparr>), t)"
    using write_of_a by (cases "service_set \<lparr>set_key = ''x'', set_value = ''1''\<rparr> (cluster_1 ! 0)") simp
  then have a: "acknowledged ''SET x 1'' (cluster_1 ! 0) 1 t"
    unfolding acknowledged_def by (intro disjI1 exI [of _ "''x''"] exI [of _ "''1''"]) simp
  have "t = cluster_2 ! 0"
    using acknowledged_cases(3) [OF a] cluster_1_leader(2) by (simp add: cluster_2_def)
  with a show ?thesis by simp
qed

text \<open>
  An acknowledged write may be lost: \<^verbatim>\<open>a\<close>, leader, answers OK with index 1, and yet all three nodes
  end with another command committed and executed as their first.
\<close>

theorem acknowledged_write_can_be_lost:
  "role (cluster_1 ! 0) = Leader \<and> acknowledged ''SET x 1'' (cluster_1 ! 0) 1 (cluster_2 ! 0) \<and>
   cluster_run sample_lib sample_members 150 300 7 sample_disk 10 cluster_2 \<and>
   cluster_run sample_lib sample_members 150 300 7 sample_disk 10 lost_4 \<and>
   map applied_commands lost_4 = [[''SET x 2''], [''SET x 2''], [''SET x 2'']]"
proof -
  have two: "cluster_run sample_lib sample_members 150 300 7 sample_disk 10 lost_2"
    unfolding lost_2_def by (rule cluster_run.elected [OF cluster_runs(1) lost_runs_facts(1)])
  have c: "local_call (Append_Command ''SET x 2'')"
    using well_formed_set [of "''x''" "''2''"] by (simp add: valid_key_def)
  have "cluster_run sample_lib sample_members 150 300 7 sample_disk 10 lost_3"
    unfolding lost_3_def
    by (intro cluster_run.used [OF two _ c]) (simp_all add: lost_runs_facts(2,3) [simplified] within_bounds_def log_max_size_def)
  then have "cluster_run sample_lib sample_members 150 300 7 sample_disk 10 lost_4"
    unfolding lost_4_def by (intro cluster_run.heartbeat cluster_run.replicated)
  then show ?thesis using cluster_runs(1) acknowledged_of_a cluster_1_leader(1) lost_end by simp
qed

section \<open>A read that is stale\<close>

text \<open>
  After the run of \<open>sample_process\<close>, which leads with \<^verbatim>\<open>x = 1\<close> committed, \<^verbatim>\<open>node-2\<close> no longer hears
  of it, is elected by \<^verbatim>\<open>node-3\<close>, and commits another write.
\<close>

definition cut_off :: "(u64 raft_core \<times> u64 world) stub" where
  "cut_off = network_stub sample_lib (\<lambda>m. m = ''node-3'') sample_host ''node-2''"

definition stale_0 :: "(u64, u64 world) runtime" where
  "stale_0 = (case sample_process of
     Running p \<Rightarrow> let x = put_core ''node-1'' (process_core p) (rt_net (np_runtime p)) in
       \<lparr>rt_core = cores x ''node-2'', rt_net = x,
        peers = [''node-1'' \<mapsto> \<lparr>peer_address = ''127.0.0.1:50051''\<rparr>, ''node-3'' \<mapsto> \<lparr>peer_address = ''127.0.0.1:50053''\<rparr>],
        heartbeat_elapsed_ms = 0\<rparr>
   | Exited _ _ _ \<Rightarrow> \<lparr>rt_core = sample_follower, rt_net = sample_others, peers = Map.empty, heartbeat_elapsed_ms = 0\<rparr>)"

definition stale_1 :: "(u64, u64 world) runtime" where
  "stale_1 = final (run_once sample_lib cut_off 400 stale_0)"

definition stale_2 :: "(u64, u64 world) runtime" where
  "stale_2 = final (on_core (append_command ''SET x 2'') stale_1)"

definition stale_3 :: "(u64, u64 world) runtime" where
  "stale_3 = final (run_once sample_lib cut_off 60 stale_2)"

lemma stale_bounds:
  "current_term (rt_core stale_0) \<noteq> - 1" "length (log_entries (rt_core stale_1)) = 1" "current_term (rt_core stale_2) \<noteq> - 1"
  by code_simp+

text \<open>What a node would answer to a read of \<open>k\<close>, if it leads.\<close>

definition answer_of :: "string \<Rightarrow> 'g raft_core \<Rightarrow> string option" where
  "answer_of k s = (if role s = Leader then kv_get k (key_value_store s) else None)"

lemma stale_end:
  "(answer_of ''x'' (cores (rt_net stale_3) ''node-1''), answer_of ''x'' (rt_core stale_3)) = (Some ''1'', Some ''2'')"
  by code_simp

lemma stale_start: "\<exists>w. world_reachable sample_lib node_members 150 300 w \<and> runs_in ''node-2'' w stale_0"
    and stale_peers: "addressed sample_host (peers stale_0)"
proof -
  obtain p where p: "sample_process = Running p" by (rule sample_process_running)
  have one: "sample_arguments ! 1 = ''node-1''" by (simp add: sample_arguments_def)
  let ?x = "put_core ''node-1'' (process_core p) (rt_net (np_runtime p))"
  obtain w where w: "world_reachable sample_lib node_members 150 300 w" "covers w ?x"
    using running_in_network(2) [OF sample_networked sample_boots_in sample_terms p [unfolded sample_process_def]]
    unfolding one runs_in_def by blast
  have eq: "stale_0 = \<lparr>rt_core = cores ?x ''node-2'', rt_net = ?x,
      peers = [''node-1'' \<mapsto> \<lparr>peer_address = ''127.0.0.1:50051''\<rparr>, ''node-3'' \<mapsto> \<lparr>peer_address = ''127.0.0.1:50053''\<rparr>],
      heartbeat_elapsed_ms = 0\<rparr>"
    by (simp only: stale_0_def p node_outcome.case Let_def)
  have "runs_in ''node-2'' w stale_0" unfolding runs_in_def eq runtime.simps put_core_same by (rule w(2))
  with w(1) show "\<exists>w. world_reachable sample_lib node_members 150 300 w \<and> runs_in ''node-2'' w stale_0" by blast
  show "addressed sample_host (peers stale_0)"
    unfolding eq by (auto simp: addressed_def sample_host_def)
qed

lemma cut_off_node: "network_node sample_lib node_members 150 300 sample_host ''node-2'' cut_off"
  unfolding cut_off_def using network.transport_axioms by (simp add: network_node_def network_node_axioms_def node_members_def)

lemma stale_world: "\<exists>w. world_reachable sample_lib node_members 150 300 w \<and> runs_in ''node-2'' w stale_3"
proof -
  note once = network_node.run_once_in_network [OF cut_off_node]
  obtain w0 where w0: "world_reachable sample_lib node_members 150 300 w0" "runs_in ''node-2'' w0 stale_0"
    using stale_start by blast
  obtain w1 where w1: "(world_step sample_lib node_members 150 300)\<^sup>*\<^sup>* w0 w1" "runs_in ''node-2'' w1 stale_1"
    and p1: "peers stale_1 = peers stale_0"
    using once [OF w0(2) stale_peers stale_bounds(1), of 400] unfolding stale_1_def in_network_def world_goes_def by blast
  have "local_call (Append_Command ''SET x 2'')" "within_bounds (Append_Command ''SET x 2'') (rt_core stale_1)"
    using well_formed_set [of "''x''" "''2''"] stale_bounds(2) by (simp_all add: valid_key_def within_bounds_def log_max_size_def)
  from in_network_local [OF w1(2) _ this, of node_members "append_command ''SET x 2''" sample_lib 150 300]
  obtain w2 where w2: "(world_step sample_lib node_members 150 300)\<^sup>*\<^sup>* w1 w2" "runs_in ''node-2'' w2 stale_2"
    and p2: "peers stale_2 = peers stale_1"
    unfolding stale_2_def in_network_def world_goes_def by (auto simp: node_members_def)
  have "addressed sample_host (peers stale_2)" using stale_peers p1 p2 by simp
  from once [OF w2(2) this stale_bounds(3), of 60]
  obtain w3 where w3: "(world_step sample_lib node_members 150 300)\<^sup>*\<^sup>* w2 w3" "runs_in ''node-2'' w3 stale_3"
    unfolding stale_3_def in_network_def world_goes_def by blast
  then show ?thesis
    using world_reachable_steps [OF world_reachable_steps [OF world_reachable_steps [OF w0(1) w1(1)] w2(1)] w3(1)] by blast
qed

lemma answer_of_get:
  "answer_of k s = Some v \<Longrightarrow> service_get \<lparr>get_key = k\<rparr> s = (status_OK, \<lparr>get_found = True, get_value = v\<rparr>)"
  by (simp add: answer_of_def service_get_def new_rpc_get_response_def split: if_splits)

text \<open>
  A read may be stale: the cluster can be in a state where two nodes both answer a read of the same key with OK
  and different values, the one that has lost its office with the value that the other has overwritten.
\<close>

theorem read_can_be_stale:
  "\<exists>w. world_reachable sample_lib node_members 150 300 w \<and>
     service_get \<lparr>get_key = ''x''\<rparr> (cores w ''node-1'') = (status_OK, \<lparr>get_found = True, get_value = ''1''\<rparr>) \<and>
     service_get \<lparr>get_key = ''x''\<rparr> (cores w ''node-2'') = (status_OK, \<lparr>get_found = True, get_value = ''2''\<rparr>)"
proof -
  obtain w where w: "world_reachable sample_lib node_members 150 300 w" "runs_in ''node-2'' w stale_3"
    using stale_world by blast
  have "cores w ''node-1'' = cores (rt_net stale_3) ''node-1''" "cores w ''node-2'' = rt_core stale_3"
    unfolding runs_in_cores [OF w(2)] by simp_all
  moreover have "answer_of ''x'' (cores (rt_net stale_3) ''node-1'') = Some ''1''" "answer_of ''x'' (rt_core stale_3) = Some ''2''"
    using stale_end by simp_all
  ultimately show ?thesis
    using w(1) answer_of_get [of "''x''" "cores w ''node-1''" "''1''"] answer_of_get [of "''x''" "cores w ''node-2''" "''2''"]
    by (intro exI [of _ w]) simp
qed

end
