(* ===== verification/Spec2Isabelle.thy ===== *)
theory Spec2Isabelle
  imports Node_Network Runtime_Rounds Cluster_Availability Client_Main Client_Guarantees
begin

text \<open>
  MiniRaftKV is a replicated key-value store: nodes that run the Raft consensus algorithm and apply
  the committed commands to a map from strings to strings.  This development is a shallow embedding
  of its C++ code with the theorems that make it correct.

  \<^bold>\<open>The program.\<close>  A node process (\<^verbatim>\<open>apps/node_main.cpp\<close>) constructs a \<^verbatim>\<open>RaftCore\<close>, the state machine of
  Raft, which keeps the log and a \<^verbatim>\<open>KeyValueStore\<close> and writes what it must not forget to a text file
  through \<^verbatim>\<open>FileRaftStorage\<close>.  The core does no input or output itself: it queues requests for its
  peers and handles the requests and answers it is given.  \<^verbatim>\<open>RaftServiceImpl\<close> is the gRPC front of
  the core, with one mutex around every call; \<^verbatim>\<open>RaftRuntime\<close> is the loop that advances the clock
  and takes the queued requests to the other nodes through a \<^verbatim>\<open>RaftPeerClient\<close> each.  Both use
  \<^verbatim>\<open>rpc_conversion.cpp\<close> between the structs of the core and the messages of \<^verbatim>\<open>raft.proto\<close>.  The
  command-line client (\<^verbatim>\<open>apps/client_main.cpp\<close>) searches the cluster for its leader.
  \<^verbatim>\<open>InMemoryCluster\<close> connects cores in one process by direct calls.

  \<^bold>\<open>The theories and the code.\<close>

  \<^item> \<^verbatim>\<open>Prelude\<close>: 64-bit integers, exceptions, operations that may throw and keep what they
    assigned before (\<open>op\<close>), and lemmas on lists and words that the components share.

  \<^item> \<^verbatim>\<open>Key_Value_Store\<close>: \<^verbatim>\<open>src/key_value_store.cpp\<close>.  The store is a map; \<open>kv_apply\<close> parses and
    executes a command.  The parser is proved to implement the operations on maps, building and
    parsing a command to be inverse, and replaying a log to succeed exactly on well-formed commands.
    The locale \<open>command_machine\<close> is what the core needs of the state machine.

  \<^item> \<^verbatim>\<open>Raft_Messages\<close>: the enum and the structs of \<^verbatim>\<open>include/miniraft/raft_core.hpp\<close>, and valid logs.

  \<^item> \<^verbatim>\<open>Raft_Storage\<close>: \<^verbatim>\<open>src/raft_storage.cpp\<close>, with the formatted input and output of \<^verbatim>\<open>iostream\<close>
    character by character.  What was saved last is loaded; what does not load is refused; a text
    that was cut while it was written never loads as another state.  The locale \<open>durable_store\<close> is
    the contract of a storage.

  \<^item> \<^verbatim>\<open>Raft_Core\<close>: \<^verbatim>\<open>src/raft_core.cpp\<close>.  The record \<open>raft_core\<close> has the data members of the class
    and the file; every member function is a definition.  \<^verbatim>\<open>Raft_Core_Specs\<close> gives its loops in closed
    form, \<^verbatim>\<open>Raft_Invariant\<close> the invariant \<open>core_ok\<close> of an object and its preservation on every exit,
    \<^verbatim>\<open>Raft_History\<close> the public calls as a step relation and what no call undoes, \<^verbatim>\<open>Raft_Results\<close> the
    handlers and the operations of a leader in closed form, \<^verbatim>\<open>Raft_Durability\<close> the file after a call
    and recovery from it, \<^verbatim>\<open>Raft_Applied\<close> that no call leaves a committed entry unapplied, and \<^verbatim>\<open>Raft_Properties\<close> the properties of a single object.

  \<^item> \<^verbatim>\<open>Rpc_Conversion\<close>: \<^verbatim>\<open>src/rpc_conversion.cpp\<close>.  The locales \<open>codec\<close> and \<open>remote_procedure\<close> say
    that what is sent is what arrives, and give that a remote call is the handler's call.

  \<^item> \<^verbatim>\<open>Raft_Service\<close>: \<^verbatim>\<open>src/raft_service.cpp\<close>.  The locale \<open>atomic_handler\<close> is the contract of a
    handler: it goes by steps of the core; it is interpreted on every operation that can change the
    node.  \<^verbatim>\<open>Raft_Peer_Client\<close>: \<^verbatim>\<open>src/raft_peer_client.cpp\<close>.
    \<^verbatim>\<open>Raft_Runtime\<close>: \<^verbatim>\<open>src/raft_runtime.cpp\<close>, whose round is proved to keep the core in order
    whatever the network and other threads do meanwhile.
    \<^verbatim>\<open>Runtime_Rounds\<close>: that a leader's round calls every peer whatever the others answer.

  \<^item> \<^verbatim>\<open>Log_Matching\<close>, \<^verbatim>\<open>Raft_Protocol\<close>, \<^verbatim>\<open>Raft_Views\<close>, \<^verbatim>\<open>Raft_Network\<close>, \<^verbatim>\<open>Raft_Safety\<close>: the safety of a
    whole cluster.  \<^verbatim>\<open>Raft_Protocol\<close> is an abstract specification of Raft, without messages, over
    any system of quorums that meet (locale \<open>quorum_system\<close>, interpreted on majorities), with its
    invariant.  \<^verbatim>\<open>Raft_Network\<close> runs the cores of the code on a network that loses, duplicates,
    delays and reorders messages, with nodes that stop and restart from their files, and proves that
    every step is one of the protocol or changes nothing in it.  \<^verbatim>\<open>Raft_Safety\<close> draws the
    conclusions: one leader for a term, logs that match, committed entries that every later leader
    has, and stores that are replays of prefixes of one list of commands.

  \<^item> \<^verbatim>\<open>In_Memory_Cluster\<close>, \<^verbatim>\<open>Cluster_Network\<close>, \<^verbatim>\<open>Cluster_Progress\<close>, \<^verbatim>\<open>Cluster_Availability\<close>:
    \<^verbatim>\<open>src/in_memory_cluster.cpp\<close>; that its nodes are, after its own operations and local calls on them
    (\<open>cluster_run\<close>), the nodes of a world the network reaches, so that the safety above holds in it; that its replication loop ends with every follower caught
    up; that an election a majority can grant is won; and that a write reaches every node's store.

  \<^item> \<^verbatim>\<open>Client_Main\<close>: \<^verbatim>\<open>apps/client_main.cpp\<close> with its exit codes and output; the locale
    \<open>redirecting_service\<close> is what it needs of the nodes to find the leader.  Answers may be late and
    requests lost (\<open>delivery\<close>), and the effects of a write that was executed unheard are part of the outcome.  \<^verbatim>\<open>Node_Main\<close>:
    \<^verbatim>\<open>apps/node_main.cpp\<close>.

  \<^item> \<^verbatim>\<open>Node_Network\<close>: all layers together.  The locale \<open>transport\<close> is what a runtime needs of gRPC: a
    call puts its request on the network, and an answer is one that the called node gave; it is
    interpreted on a network of the services of the other nodes (\<open>network_stub\<close>).  A process that
    starts, for the first time or again, and runs any number of rounds is a node of a world that
    \<^verbatim>\<open>Raft_Network\<close> reaches (\<open>process_is_a_network_node\<close>), so that the safety of the cores is the
    safety of the processes.  The assumption on the other processes is met by their own rounds.

  \<^item> \<^verbatim>\<open>Client_Guarantees\<close>: what the answers to clients are worth.  The index, with the term, identifies the
    write for ever (\<open>receipt_names_the_write\<close>); but an acknowledged write is not committed yet and may
    be lost (\<open>acknowledged_write_can_be_lost\<close>).  A read gives a committed state
    (\<open>reads_are_committed\<close>), which need not be the latest (\<open>read_can_be_stale\<close>).

  \<^bold>\<open>Parameters.\<close>  The engine and the distribution of \<^verbatim>\<open>std::random\<close> and the iteration order of an
  \<^verbatim>\<open>unordered_set\<close> are the record \<open>std_lib\<close>; the theorems that depend on them assume that a draw is
  in its range (\<open>draws_in_range\<close>) or that iteration visits each element once (\<open>iterates_once\<close>).  The
  stubs that gRPC generates are records of functions that may also change the world outside the
  caller; the clock, the listening server and what other threads and processes do between the calls
  of the loop (\<open>meanwhile\<close>) are parameters of the node process.

  \<^bold>\<open>Bounds.\<close>  Indexes and terms are 64-bit words.  A log has at most \<open>log_max_size\<close> entries, what a
  \<^verbatim>\<open>vector\<close> of its entries can hold, so that an index is never near \<open>2 ^ 64\<close>.  A step that starts an
  election requires a term other than \<open>2 ^ 64 - 1\<close> (\<open>within_bounds\<close>); the code does not check it, and
  \<open>election_wraps_the_term\<close> shows what happens then.  The in-memory cluster is considered with logs
  of at most \<open>B\<close> entries, where \<open>2 * B \<le> log_max_size\<close>, so that a log and a request together fit.  Its
  replication loop has the caller's bound on rounds as in the code; one round more than the leader
  has entries is enough.  What is proved of it is for \<open>cluster_run\<close>: the class's operations and local calls on its
  nodes; \<^verbatim>\<open>node\<close> returns a mutable reference, and a caller who invokes a handler through it with a
  message of its own making is outside.  The endless loop of a node process is run for any list of rounds.

  \<^bold>\<open>Not modelled.\<close>  Protocol Buffers refuses strings that are not UTF-8; here every string can be
  sent.  Memory is never exhausted below the maximal size of a vector.  Threads appear as
  calls of the locked operations in any order between the calls of the loop; the one access
  without the lock (\<^verbatim>\<open>node.role()\<close> in the first line a node prints) is a read of the same moment.
  A crash in the middle of a call is considered for the file alone (a text written in part), not in
  the runs of the network, where a node stops between calls; a process that has ended is described
  by its exit code and output, not by its file.  Sockets and the wire format are behind the
  stubs.  The web control panel, the container and build files and the tests of the repository are
  not part of the replicated store.
\<close>

end
